(* ===== verification/Prelude.thy ===== *)
theory Prelude
  imports Main "HOL-Library.Monad_Syntax"
begin

text \<open>
  Shared ground of the development: how Go values, pointers, errors and panics are
  represented, the generic lemmas on pointer chains, and small facts on lists that more than
  one component uses.

  \<^item> A Go pointer is a \<open>ptr\<close>: \<open>None\<close> is \<open>nil\<close>. The objects of one struct type live in a
    \<open>heap\<close>, a finite map from addresses to records together with the first address never
    handed out, so that allocation is executable.
  \<^item> A call that may dereference \<open>nil\<close> or may loop forever has type \<open>'a option\<close>: \<open>None\<close> is
    "does not return normally". Theorems about such calls state that they do return.
  \<^item> A pair \<open>(T, error)\<close> of Go is a \<open>'a result\<close>: \<open>Inl\<close> carries the error text.
  \<^item> A callback that may panic returns an \<open>outcome\<close>.
\<close>

section \<open>Values, errors and panics\<close>

type_synonym 'a result = "string + 'a"

datatype 'a outcome = Ok 'a | Panic 'a

fun outcome_val :: "'a outcome \<Rightarrow> 'a" where
  "outcome_val (Ok x) = x"
| "outcome_val (Panic x) = x"

named_theorems go_simps \<open>unfolding rules of the modelled operations\<close>

subsection \<open>Decimal printing, as fmt's verb v and strconv.Itoa print an int\<close>

definition digit_char :: "nat \<Rightarrow> char" where
  "digit_char d = char_of (48 + d)"

fun nat_digits :: "nat \<Rightarrow> string" where
  "nat_digits n = (if n < 10 then [digit_char n] else nat_digits (n div 10) @ [digit_char (n mod 10)])"

declare nat_digits.simps [simp del]

definition itoa :: "int \<Rightarrow> string" where
  "itoa i = (if i < 0 then CHR ''-'' # nat_digits (nat (- i)) else nat_digits (nat i))"

section \<open>Pointers and heaps\<close>

type_synonym addr = nat
type_synonym ptr = "addr option"

record 'n heap =
  cells :: "addr \<rightharpoonup> 'n"
  brk :: addr

definition empty_heap :: "'n heap" where
  "empty_heap = \<lparr>cells = Map.empty, brk = 0\<rparr>"

definition hput :: "addr \<Rightarrow> 'n \<Rightarrow> 'n heap \<Rightarrow> 'n heap" where
  "hput a n h = h\<lparr>cells := (cells h)(a \<mapsto> n)\<rparr>"

definition halloc :: "'n \<Rightarrow> 'n heap \<Rightarrow> 'n heap" where
  "halloc n h = \<lparr>cells = (cells h)(brk h \<mapsto> n), brk = Suc (brk h)\<rparr>"

text \<open>\<^verbatim>\<open>&T{...}\<close>: a new object and the pointer to it.\<close>

definition new_obj :: "'n \<Rightarrow> 'n heap \<Rightarrow> ptr \<times> 'n heap" where
  "new_obj n h = (Some (brk h), halloc n h)"

definition load :: "'n heap \<Rightarrow> ptr \<Rightarrow> 'n option" where
  "load h p = Option.bind p (cells h)"

definition assign :: "ptr \<Rightarrow> ('n \<Rightarrow> 'n) \<Rightarrow> 'n heap \<Rightarrow> 'n heap option" where
  "assign p f h = (case p of None \<Rightarrow> None
     | Some a \<Rightarrow> (case cells h a of None \<Rightarrow> None
         | Some n \<Rightarrow> Some (hput a (f n) h)))"

definition heap_ok :: "'n heap \<Rightarrow> bool" where
  "heap_ok h \<longleftrightarrow> dom (cells h) \<subseteq> {..<brk h}"

text \<open>
  \<open>segment nx vl h p avs q\<close>: following the field \<open>nx\<close> from \<open>p\<close> one meets exactly the objects
  at the addresses of \<open>avs\<close>, whose payloads (read by \<open>vl\<close>) are the second components, and
  then arrives at \<open>q\<close>.
\<close>

primrec segment ::
  "('n \<Rightarrow> ptr) \<Rightarrow> ('n \<Rightarrow> 'v) \<Rightarrow> 'n heap \<Rightarrow> ptr \<Rightarrow> (addr \<times> 'v) list \<Rightarrow> ptr \<Rightarrow> bool" where
  "segment nx vl h p [] q \<longleftrightarrow> p = q"
| "segment nx vl h p (av # avs) q \<longleftrightarrow>
     p = Some (fst av) \<and>
     (\<exists>n. cells h (fst av) = Some n \<and> vl n = snd av \<and> segment nx vl h (nx n) avs q)"

section \<open>Lemmas on heaps\<close>

lemma heap_ok_empty [simp]: "heap_ok empty_heap"
  by (simp add: heap_ok_def empty_heap_def)

lemma load_nil [simp]: "load h None = None"
  by (simp add: load_def)

lemma load_addr [simp]: "load h (Some a) = cells h a"
  by (simp add: load_def)

lemma assign_nil [simp]: "assign None f h = None"
  by (simp add: assign_def)

lemma assign_addr [simp]:
  "cells h a = Some n \<Longrightarrow> assign (Some a) f h = Some (hput a (f n) h)"
  by (simp add: assign_def)

lemma cells_hput [simp]: "cells (hput a n h) = (cells h)(a \<mapsto> n)"
  and brk_hput [simp]: "brk (hput a n h) = brk h"
  and cells_halloc [simp]: "cells (halloc n h) = (cells h)(brk h \<mapsto> n)"
  and brk_halloc [simp]: "brk (halloc n h) = Suc (brk h)"
  by (simp_all add: hput_def halloc_def)

lemma hput_halloc [simp]: "hput (brk h) n (halloc m h) = halloc n h"
  by (simp add: hput_def halloc_def)

lemma heap_ok_hput [simp]: "heap_ok h \<Longrightarrow> cells h a = Some m \<Longrightarrow> heap_ok (hput a n h)"
  by (auto simp: heap_ok_def)

lemma heap_ok_halloc [simp]: "heap_ok h \<Longrightarrow> heap_ok (halloc n h)"
  by (auto simp: heap_ok_def)

lemma heap_ok_fresh: "heap_ok h \<Longrightarrow> cells h a = Some n \<Longrightarrow> a < brk h"
  by (auto simp: heap_ok_def)

lemma heap_ok_brk_None [simp]: "heap_ok h \<Longrightarrow> cells h (brk h) = None"
  using heap_ok_fresh by fastforce

section \<open>Pointer chains\<close>

text \<open>
  The interface of a linked node: a field that holds the successor, its assignment, and the
  payload, which the assignment keeps. The lemmas below are proved once for every node type
  of the program (\<open>Node\<close> of the generic linked list, \<open>shutdown\<close> of the application).
\<close>

locale pointer_chain =
  fixes nx :: "'n \<Rightarrow> ptr"
    and set_nx :: "ptr \<Rightarrow> 'n \<Rightarrow> 'n"
    and vl :: "'n \<Rightarrow> 'v"
  assumes nx_set_nx: "nx (set_nx p n) = p"
    and vl_set_nx: "vl (set_nx p n) = vl n"
begin

lemma segment_append:
  "segment nx vl h p (xs @ ys) q \<longleftrightarrow> (\<exists>r. segment nx vl h p xs r \<and> segment nx vl h r ys q)"
  by (induction xs arbitrary: p) auto

lemma segment_hput:
  "a \<notin> fst ` set xs \<Longrightarrow> segment nx vl (hput a n h) p xs q = segment nx vl h p xs q"
  by (induction xs arbitrary: p) auto

lemma segment_halloc:
  "brk h \<notin> fst ` set xs \<Longrightarrow> segment nx vl (halloc n h) p xs q = segment nx vl h p xs q"
  by (induction xs arbitrary: p) auto

lemma segment_allocated:
  assumes "segment nx vl h p xs q" "heap_ok h" "a \<in> fst ` set xs"
  shows "a < brk h"
  using assms by (induction xs arbitrary: p) (auto dest: heap_ok_fresh)

lemma segment_fresh:
  assumes "segment nx vl h p xs q" "heap_ok h"
  shows "brk h \<notin> fst ` set xs"
  using segment_allocated [OF assms] by blast

lemma segment_nil_start: "segment nx vl h None xs q \<longleftrightarrow> xs = [] \<and> q = None"
  by (cases xs) auto

lemma segment_to_nil_start: "segment nx vl h (Some a) xs None \<Longrightarrow> xs \<noteq> []"
  by (cases xs) auto

lemma segment_last_cell:
  assumes "segment nx vl h p (xs @ [(a, v)]) q"
  shows "\<exists>n. cells h a = Some n \<and> vl n = v \<and> nx n = q"
  using assms by (auto simp: segment_append)

text \<open>Redirecting the last node of a segment lets it end somewhere else.\<close>

lemma segment_redirect:
  assumes "segment nx vl h p (xs @ [(a, v)]) q" "distinct (map fst (xs @ [(a, v)]))"
    and "cells h a = Some n"
  shows "segment nx vl (hput a (set_nx r n) h) p (xs @ [(a, v)]) r"
proof -
  from assms(1) have "segment nx vl h p xs (Some a)" and "vl n = v"
    using assms(3) by (auto simp: segment_append)
  moreover have "a \<notin> fst ` set xs"
    using assms(2) by auto
  ultimately show ?thesis
    by (simp add: segment_append segment_hput nx_set_nx vl_set_nx)
qed

text \<open>The same followed by another segment: cutting nodes out and linking nodes in.\<close>

lemma segment_relink:
  assumes "segment nx vl h p (xs @ [(a, v)]) q" "segment nx vl h r ys s"
    and "distinct (map fst (xs @ (a, v) # ys))" "cells h a = Some n"
  shows "segment nx vl (hput a (set_nx r n) h) p (xs @ (a, v) # ys) s"
proof -
  have "segment nx vl (hput a (set_nx r n) h) p (xs @ [(a, v)]) r"
    using assms by (intro segment_redirect) auto
  moreover have "segment nx vl (hput a (set_nx r n) h) r ys s"
    using assms by (subst segment_hput) auto
  ultimately have "segment nx vl (hput a (set_nx r n) h) p ((xs @ [(a, v)]) @ ys) s"
    using segment_append by blast
  then show ?thesis by simp
qed

text \<open>A whole chain splits at any of its nodes, and the two parts do not share addresses.\<close>

lemma segment_split:
  assumes "segment nx vl h p (xs @ (a, v) # ys) q"
  obtains n where "segment nx vl h p xs (Some a)" "cells h a = Some n" "vl n = v"
    "segment nx vl h (nx n) ys q"
  using assms by (auto simp: segment_append)

end

section \<open>Lists\<close>

text \<open>The first occurrence of a separator.\<close>

lemma split_first:
  assumes "xs @ d # ys = xs' @ d # ys'" "d \<notin> set xs" "d \<notin> set xs'"
  shows "xs = xs' \<and> ys = ys'"
  using assms
proof (induction xs arbitrary: xs')
  case Nil
  then show ?case by (cases xs') auto
next
  case (Cons x xs)
  then show ?case by (cases xs') auto
qed

lemma sum_list_map_update:
  fixes f :: "'a \<Rightarrow> 'b :: comm_monoid_add"
  assumes "i < length xs"
  shows "sum_list (map f (xs[i := x])) + f (xs ! i) = sum_list (map f xs) + f x"
  using assms
proof (induction xs arbitrary: i)
  case (Cons y ys)
  then show ?case by (cases i) (simp_all add: ac_simps)
qed simp

lemma sorted_dropWhile_gt:
  "sorted (map f xs) \<Longrightarrow> y \<in> set (dropWhile (\<lambda>x. f x \<le> k) xs) \<Longrightarrow> k < f y"
  for f :: "'a \<Rightarrow> 'b :: linorder"
  by (induction xs) (force split: if_splits)+

lemma takeWhile_dropWhile_sorted:
  assumes "sorted (map f xs)"
  shows "sorted (map f (takeWhile (\<lambda>y. f y \<le> f x) xs @ x # dropWhile (\<lambda>y. f y \<le> f x) xs))"
proof -
  let ?t = "takeWhile (\<lambda>y. f y \<le> f x) xs" and ?d = "dropWhile (\<lambda>y. f y \<le> f x) xs"
  have "sorted (map f ?t)" "sorted (map f ?d)"
    using assms by (metis sorted_append map_append takeWhile_dropWhile_id)+
  moreover have "\<forall>y \<in> set ?t. f y \<le> f x"
    by (meson set_takeWhileD)
  moreover have "\<forall>y \<in> set ?d. f x < f y"
    using sorted_dropWhile_gt [OF assms] by blast
  ultimately show ?thesis
    by (fastforce simp: sorted_append)
qed

section \<open>Properties that steps keep\<close>

text \<open>The concurrent components are step relations; what every step keeps, every run keeps. The
  second interface adds where the runs begin.\<close>

definition can_reach :: "('s \<Rightarrow> 's \<Rightarrow> bool) \<Rightarrow> ('s \<Rightarrow> bool) \<Rightarrow> 's \<Rightarrow> bool" where
  "can_reach step goal s \<longleftrightarrow> (\<exists>t. step\<^sup>*\<^sup>* s t \<and> goal t)"

lemma can_reach_now: "goal s \<Longrightarrow> can_reach step goal s"
  by (auto simp: can_reach_def)

lemma can_reach_step: "step s t \<Longrightarrow> can_reach step goal t \<Longrightarrow> can_reach step goal s"
  unfolding can_reach_def by (meson converse_rtranclp_into_rtranclp)

lemma can_reach_steps: "step\<^sup>*\<^sup>* s t \<Longrightarrow> can_reach step goal t \<Longrightarrow> can_reach step goal s"
  unfolding can_reach_def by (meson rtranclp_trans)

text \<open>Steps that keep \<open>good\<close> and bring a measure down lead to the goal.\<close>

lemma descend:
  fixes m :: "'s \<Rightarrow> nat"
  assumes down: "\<And>s. good s \<Longrightarrow> \<not> goal s \<Longrightarrow> \<exists>t. step s t \<and> good t \<and> m t < m s"
    and "good s"
  shows "\<exists>t. step\<^sup>*\<^sup>* s t \<and> good t \<and> goal t"
  using assms(2)
proof (induction s rule: measure_induct_rule [of m])
  case (less s)
  show ?case
  proof (cases "goal s")
    case False
    then obtain t where t: "step s t" "good t" "m t < m s" using down less.prems by blast
    then show ?thesis using less.IH by (blast intro: converse_rtranclp_into_rtranclp)
  qed (use less.prems in blast)
qed

locale persistent =
  fixes step :: "'s \<Rightarrow> 's \<Rightarrow> bool" and kept :: "'s \<Rightarrow> bool"
  assumes kept_step: "step s t \<Longrightarrow> kept s \<Longrightarrow> kept t"
begin

lemma kept_steps: "step\<^sup>*\<^sup>* s t \<Longrightarrow> kept s \<Longrightarrow> kept t"
  by (induction rule: rtranclp_induct) (auto dest: kept_step)

end

locale run_invariant = persistent step kept
  for step :: "'s \<Rightarrow> 's \<Rightarrow> bool" and kept +
  fixes start :: 's
  assumes kept_start: "kept start"
begin

lemma reachable: "step\<^sup>*\<^sup>* start s \<Longrightarrow> kept s"
  using kept_steps kept_start by blast

end

end
