(* ===== verification/Linked_List.thy ===== *)
theory Linked_List
  imports Prelude
begin

text \<open>
  The generic singly linked list of \<^verbatim>\<open>pkg/data_struct/linked_list.go\<close>. A list is the struct
  of its \<open>head\<close>, \<open>tail\<close> and \<open>size\<close> over a heap of nodes, so that the pointer updates of the
  methods are the updates of the model: each method takes the list and the heap and returns
  both. The two loops that follow \<open>next\<close> until a pointer is reached are partial functions;
  the loops with an index count are recursion on the count. \<open>size\<close> is an \<open>int\<close> without a
  width: a list whose size overflows Go's int cannot be built in memory.

  The lemmas show that every method is the corresponding operation on the sequence of values
  the list stands for, on every branch, and that it returns.
\<close>

section \<open>The structs\<close>

record 'a Node =
  Value :: 'a
  node_next :: ptr

record LinkedList =
  ll_head :: ptr
  ll_tail :: ptr
  ll_size :: int

type_synonym 'a ll_state = "LinkedList \<times> 'a Node heap"

definition NewLinkedList :: LinkedList where
  "NewLinkedList = \<lparr>ll_head = None, ll_tail = None, ll_size = 0\<rparr>"

definition ll_Size :: "LinkedList \<Rightarrow> int" where
  "ll_Size ll = ll_size ll"

definition ll_IsEmpty :: "LinkedList \<Rightarrow> bool" where
  "ll_IsEmpty ll \<longleftrightarrow> ll_size ll = 0"

section \<open>The methods\<close>

text \<open>\<open>fmtv\<close> is \<^verbatim>\<open>fmt.Sprintf("%v", _)\<close> at the element type.\<close>

partial_function (option) string_loop ::
  "('a \<Rightarrow> string) \<Rightarrow> 'a Node heap \<Rightarrow> ptr \<Rightarrow> string \<Rightarrow> string option" where
  "string_loop fmtv h current result =
     (case current of None \<Rightarrow> Some result
      | Some a \<Rightarrow> (case cells h a of None \<Rightarrow> None
          | Some n \<Rightarrow> string_loop fmtv h (node_next n)
               (result @ fmtv (Value n) @ (if node_next n \<noteq> None then '' -> '' else []))))"

definition ll_String :: "('a \<Rightarrow> string) \<Rightarrow> 'a ll_state \<Rightarrow> string option" where
  "ll_String fmtv = (\<lambda>(ll, h).
     if ll_IsEmpty ll then Some ''[]''
     else map_option (\<lambda>result. result @ '']'') (string_loop fmtv h (ll_head ll) ''[''))"

definition PushFront :: "'a \<Rightarrow> 'a ll_state \<Rightarrow> 'a ll_state option" where
  "PushFront value = (\<lambda>(ll, h).
     let (newNode, h1) = new_obj \<lparr>Value = value, node_next = None\<rparr> h in
     if ll_IsEmpty ll
     then Some (ll\<lparr>ll_head := newNode, ll_tail := newNode, ll_size := ll_size ll + 1\<rparr>, h1)
     else do {
       h2 \<leftarrow> assign newNode (node_next_update (\<lambda>_. ll_head ll)) h1;
       Some (ll\<lparr>ll_head := newNode, ll_size := ll_size ll + 1\<rparr>, h2)
     })"

definition PushBack :: "'a \<Rightarrow> 'a ll_state \<Rightarrow> 'a ll_state option" where
  "PushBack value = (\<lambda>(ll, h).
     let (newNode, h1) = new_obj \<lparr>Value = value, node_next = None\<rparr> h in
     if ll_IsEmpty ll
     then Some (ll\<lparr>ll_head := newNode, ll_tail := newNode, ll_size := ll_size ll + 1\<rparr>, h1)
     else do {
       h2 \<leftarrow> assign (ll_tail ll) (node_next_update (\<lambda>_. newNode)) h1;
       Some (ll\<lparr>ll_tail := newNode, ll_size := ll_size ll + 1\<rparr>, h2)
     })"

definition PopFront :: "'a ll_state \<Rightarrow> ('a result \<times> 'a ll_state) option" where
  "PopFront = (\<lambda>(ll, h).
     if ll_IsEmpty ll then Some (Inl ''linked list is empty'', (ll, h))
     else do {
       n \<leftarrow> load h (ll_head ll);
       let ll1 = ll\<lparr>ll_head := node_next n, ll_size := ll_size ll - 1\<rparr>;
       Some (Inr (Value n), (if ll_size ll1 = 0 then ll1\<lparr>ll_tail := None\<rparr> else ll1, h))
     })"

text \<open>The scan of \<open>PopBack\<close>: stop before \<open>nil\<close> or before the tail.\<close>

partial_function (option) popback_scan :: "'a Node heap \<Rightarrow> ptr \<Rightarrow> ptr \<Rightarrow> ptr option" where
  "popback_scan h tail current =
     (case load h current of None \<Rightarrow> None
      | Some n \<Rightarrow> if node_next n \<noteq> None \<and> node_next n \<noteq> tail
                  then popback_scan h tail (node_next n) else Some current)"

definition PopBack :: "'a ll_state \<Rightarrow> ('a result \<times> 'a ll_state) option" where
  "PopBack = (\<lambda>(ll, h).
     if ll_IsEmpty ll then Some (Inl ''linked list is empty'', (ll, h))
     else if ll_head ll = ll_tail ll
     then do {
       n \<leftarrow> load h (ll_head ll);
       Some (Inr (Value n), (ll\<lparr>ll_head := None, ll_tail := None, ll_size := 0\<rparr>, h))
     }
     else do {
       current \<leftarrow> popback_scan h (ll_tail ll) (ll_head ll);
       n \<leftarrow> load h (ll_tail ll);
       h1 \<leftarrow> assign current (node_next_update (\<lambda>_. None)) h;
       Some (Inr (Value n), (ll\<lparr>ll_tail := current, ll_size := ll_size ll - 1\<rparr>, h1))
     })"

text \<open>\<^verbatim>\<open>for i := 0; i < k; i++ { current = current.next }\<close>\<close>

fun advance :: "nat \<Rightarrow> 'a Node heap \<Rightarrow> ptr \<Rightarrow> ptr option" where
  "advance 0 h current = Some current"
| "advance (Suc k) h current =
     (case load h current of None \<Rightarrow> None | Some n \<Rightarrow> advance k h (node_next n))"

definition ll_Get :: "int \<Rightarrow> 'a ll_state \<Rightarrow> 'a result option" where
  "ll_Get index = (\<lambda>(ll, h).
     if index < 0 \<or> index \<ge> ll_size ll then Some (Inl ''index out of range'')
     else do {
       current \<leftarrow> advance (nat index) h (ll_head ll);
       n \<leftarrow> load h current;
       Some (Inr (Value n))
     })"

definition ll_Insert :: "int \<Rightarrow> 'a \<Rightarrow> 'a ll_state \<Rightarrow> (unit result \<times> 'a ll_state) option" where
  "ll_Insert index value = (\<lambda>(ll, h).
     if index < 0 \<or> index > ll_size ll then Some (Inl ''index out of range'', (ll, h))
     else if index = 0 then map_option (Pair (Inr ())) (PushFront value (ll, h))
     else if index = ll_size ll then map_option (Pair (Inr ())) (PushBack value (ll, h))
     else do {
       let (newNode, h1) = new_obj \<lparr>Value = value, node_next = None\<rparr> h;
       current \<leftarrow> advance (nat (index - 1)) h1 (ll_head ll);
       n \<leftarrow> load h1 current;
       h2 \<leftarrow> assign newNode (node_next_update (\<lambda>_. node_next n)) h1;
       h3 \<leftarrow> assign current (node_next_update (\<lambda>_. newNode)) h2;
       Some (Inr (), (ll\<lparr>ll_size := ll_size ll + 1\<rparr>, h3))
     })"

definition ll_Remove :: "int \<Rightarrow> 'a ll_state \<Rightarrow> ('a result \<times> 'a ll_state) option" where
  "ll_Remove index = (\<lambda>(ll, h).
     if index < 0 \<or> index \<ge> ll_size ll then Some (Inl ''index out of range'', (ll, h))
     else if index = 0 then PopFront (ll, h)
     else do {
       current \<leftarrow> advance (nat (index - 1)) h (ll_head ll);
       c \<leftarrow> load h current;
       let removed = node_next c;
       r \<leftarrow> load h removed;
       h1 \<leftarrow> assign current (node_next_update (\<lambda>_. node_next r)) h;
       let ll1 = ll\<lparr>ll_size := ll_size ll - 1\<rparr>;
       Some (Inr (Value r), (if removed = ll_tail ll1 then ll1\<lparr>ll_tail := current\<rparr> else ll1, h1))
     })"

section \<open>Sequences of calls\<close>

text \<open>
  A client of the list is a sequence of method calls; each call has an observation, its
  returned value or error. \<open>ll_call\<close> dispatches to the methods above, \<open>seq_call\<close> is what the
  same call means on a sequence of values.
\<close>

datatype 'a ll_op =
    OpPushFront 'a | OpPushBack 'a | OpPopFront | OpPopBack
  | OpGet int | OpInsert int 'a | OpRemove int | OpSize | OpIsEmpty | OpString

datatype 'a ll_obs = ODone | OVal 'a | OErr string | OInt int | OBool bool | OStr string

fun obs_of :: "'a result \<Rightarrow> 'a ll_obs" where
  "obs_of (Inl e) = OErr e"
| "obs_of (Inr v) = OVal v"

fun ll_call ::
  "('a \<Rightarrow> string) \<Rightarrow> 'a ll_op \<Rightarrow> 'a ll_state \<Rightarrow> ('a ll_obs \<times> 'a ll_state) option" where
  "ll_call fmtv (OpPushFront v) s = map_option (Pair ODone) (PushFront v s)"
| "ll_call fmtv (OpPushBack v) s = map_option (Pair ODone) (PushBack v s)"
| "ll_call fmtv OpPopFront s = map_option (map_prod obs_of id) (PopFront s)"
| "ll_call fmtv OpPopBack s = map_option (map_prod obs_of id) (PopBack s)"
| "ll_call fmtv (OpGet i) s = map_option (\<lambda>r. (obs_of r, s)) (ll_Get i s)"
| "ll_call fmtv (OpInsert i v) s =
     map_option (map_prod (case_sum OErr (\<lambda>_. ODone)) id) (ll_Insert i v s)"
| "ll_call fmtv (OpRemove i) s = map_option (map_prod obs_of id) (ll_Remove i s)"
| "ll_call fmtv OpSize s = Some (OInt (ll_Size (fst s)), s)"
| "ll_call fmtv OpIsEmpty s = Some (OBool (ll_IsEmpty (fst s)), s)"
| "ll_call fmtv OpString s = map_option (\<lambda>t. (OStr t, s)) (ll_String fmtv s)"

fun ll_run ::
  "('a \<Rightarrow> string) \<Rightarrow> 'a ll_op list \<Rightarrow> 'a ll_state \<Rightarrow> ('a ll_obs list \<times> 'a ll_state) option" where
  "ll_run fmtv [] s = Some ([], s)"
| "ll_run fmtv (op # ops) s = (case ll_call fmtv op s of None \<Rightarrow> None
     | Some (ob, s1) \<Rightarrow> map_option (map_prod (Cons ob) id) (ll_run fmtv ops s1))"

fun join_arrow :: "string list \<Rightarrow> string" where
  "join_arrow [] = []"
| "join_arrow [s] = s"
| "join_arrow (s # t # ss) = s @ '' -> '' @ join_arrow (t # ss)"

fun seq_call :: "('a \<Rightarrow> string) \<Rightarrow> 'a ll_op \<Rightarrow> 'a list \<Rightarrow> 'a ll_obs \<times> 'a list" where
  "seq_call fmtv (OpPushFront v) xs = (ODone, v # xs)"
| "seq_call fmtv (OpPushBack v) xs = (ODone, xs @ [v])"
| "seq_call fmtv OpPopFront xs =
     (if xs = [] then (OErr ''linked list is empty'', xs) else (OVal (hd xs), tl xs))"
| "seq_call fmtv OpPopBack xs =
     (if xs = [] then (OErr ''linked list is empty'', xs) else (OVal (last xs), butlast xs))"
| "seq_call fmtv (OpGet i) xs =
     (if 0 \<le> i \<and> i < int (length xs) then OVal (xs ! nat i) else OErr ''index out of range'', xs)"
| "seq_call fmtv (OpInsert i v) xs =
     (if 0 \<le> i \<and> i \<le> int (length xs) then (ODone, take (nat i) xs @ v # drop (nat i) xs)
      else (OErr ''index out of range'', xs))"
| "seq_call fmtv (OpRemove i) xs =
     (if 0 \<le> i \<and> i < int (length xs)
      then (OVal (xs ! nat i), take (nat i) xs @ drop (Suc (nat i)) xs)
      else (OErr ''index out of range'', xs))"
| "seq_call fmtv OpSize xs = (OInt (int (length xs)), xs)"
| "seq_call fmtv OpIsEmpty xs = (OBool (xs = []), xs)"
| "seq_call fmtv OpString xs = (OStr (''['' @ join_arrow (map fmtv xs) @ '']''), xs)"

fun seq_run :: "('a \<Rightarrow> string) \<Rightarrow> 'a ll_op list \<Rightarrow> 'a list \<Rightarrow> 'a ll_obs list \<times> 'a list" where
  "seq_run fmtv [] xs = ([], xs)"
| "seq_run fmtv (op # ops) xs =
     (let (ob, ys) = seq_call fmtv op xs; (obs, zs) = seq_run fmtv ops ys in (ob # obs, zs))"

section \<open>What a list stands for\<close>

definition ll_rep :: "'a ll_state \<Rightarrow> (addr \<times> 'a) list \<Rightarrow> bool" where
  "ll_rep = (\<lambda>(ll, h) avs.
     heap_ok h \<and> distinct (map fst avs) \<and>
     segment node_next Value h (ll_head ll) avs None \<and>
     ll_tail ll = (if avs = [] then None else Some (fst (last avs))) \<and>
     ll_size ll = int (length avs))"

definition ll_abs :: "'a ll_state \<Rightarrow> 'a list \<Rightarrow> bool" where
  "ll_abs s xs \<longleftrightarrow> (\<exists>avs. ll_rep s avs \<and> map snd avs = xs)"

interpretation ll_chain: pointer_chain node_next "\<lambda>p. node_next_update (\<lambda>_. p)" Value
  by unfold_locales auto

lemmas ll_defs = ll_IsEmpty_def ll_Size_def new_obj_def Let_def

lemma ll_absI: "ll_rep s avs \<Longrightarrow> map snd avs = xs \<Longrightarrow> ll_abs s xs"
  by (auto simp: ll_abs_def)

lemma ll_rep_IsEmpty: "ll_rep (ll, h) avs \<Longrightarrow> ll_IsEmpty ll \<longleftrightarrow> avs = []"
  by (simp add: ll_rep_def ll_IsEmpty_def)

lemma ll_rep_head:
  "ll_rep (ll, h) ((a, v) # avs) \<Longrightarrow>
     ll_head ll = Some a \<and> (\<exists>n. cells h a = Some n \<and> Value n = v)"
  by (auto simp: ll_rep_def)

lemma NewLinkedList_abs: "heap_ok h \<Longrightarrow> ll_abs (NewLinkedList, h) []"
  by (simp add: ll_abs_def ll_rep_def NewLinkedList_def)

section \<open>Pushing\<close>

lemma PushFront_rep:
  assumes "ll_rep (ll, h) avs"
  shows "\<exists>s. PushFront v (ll, h) = Some s \<and> ll_rep s ((brk h, v) # avs)"
proof -
  have fresh: "brk h \<notin> fst ` set avs"
    using assms ll_chain.segment_fresh by (fastforce simp: ll_rep_def)
  with assms show ?thesis
    by (cases avs)
      (auto simp: PushFront_def ll_defs ll_rep_def ll_chain.segment_halloc)
qed

lemma PushBack_rep:
  assumes "ll_rep (ll, h) avs"
  shows "\<exists>s. PushBack v (ll, h) = Some s \<and> ll_rep s (avs @ [(brk h, v)])"
proof (cases avs rule: rev_cases)
  case Nil
  with assms show ?thesis
    by (auto simp: PushBack_def ll_defs ll_rep_def)
next
  case (snoc xs aw)
  obtain a w where aw: "aw = (a, w)" by (cases aw)
  let ?new = "\<lparr>Value = v, node_next = None\<rparr>"
  let ?h1 = "halloc ?new h"
  have seg: "segment node_next Value h (ll_head ll) (xs @ [(a, w)]) None"
    and dist: "distinct (map fst (xs @ [(a, w)]))" and ok: "heap_ok h"
    and tail: "ll_tail ll = Some a" and size: "ll_size ll = int (Suc (length xs))"
    using assms snoc aw by (auto simp: ll_rep_def)
  from seg ok have fresh: "brk h \<notin> fst ` set (xs @ [(a, w)])"
    by (rule ll_chain.segment_fresh)
  obtain n where n: "cells h a = Some n"
    using ll_chain.segment_last_cell [OF seg] by blast
  have n1: "cells ?h1 a = Some n"
    using n fresh by auto
  let ?h2 = "hput a (node_next_update (\<lambda>_. Some (brk h)) n) ?h1"
  have "segment node_next Value ?h1 (ll_head ll) (xs @ [(a, w)]) None"
    using seg fresh by (subst ll_chain.segment_halloc)
  then have "segment node_next Value ?h2 (ll_head ll) (xs @ [(a, w)]) (Some (brk h))"
    using dist n1 by (rule ll_chain.segment_redirect)
  then have "segment node_next Value ?h2 (ll_head ll) ((xs @ [(a, w)]) @ [(brk h, v)]) None"
    using fresh by (subst ll_chain.segment_append) auto
  moreover have "heap_ok ?h2"
    using ok n1 by simp
  ultimately have "ll_rep (ll\<lparr>ll_tail := Some (brk h), ll_size := ll_size ll + 1\<rparr>, ?h2) (avs @ [(brk h, v)])"
    using dist fresh size snoc aw by (auto simp: ll_rep_def)
  moreover have "PushBack v (ll, h) =
      Some (ll\<lparr>ll_tail := Some (brk h), ll_size := ll_size ll + 1\<rparr>, ?h2)"
    using tail size n1 by (simp add: PushBack_def ll_defs)
  ultimately show ?thesis by blast
qed

section \<open>Popping\<close>

lemma PopFront_empty:
  "ll_rep (ll, h) [] \<Longrightarrow> PopFront (ll, h) = Some (Inl ''linked list is empty'', (ll, h))"
  by (simp add: PopFront_def ll_rep_IsEmpty)

lemma PopFront_rep:
  assumes "ll_rep (ll, h) ((a, v) # avs)"
  shows "\<exists>s. PopFront (ll, h) = Some (Inr v, s) \<and> ll_rep s avs"
  using assms by (cases avs) (auto simp: PopFront_def ll_rep_def ll_defs)

lemma PopBack_empty:
  "ll_rep (ll, h) [] \<Longrightarrow> PopBack (ll, h) = Some (Inl ''linked list is empty'', (ll, h))"
  by (simp add: PopBack_def ll_rep_IsEmpty)

text \<open>The scan stops at the node before the tail.\<close>

lemma popback_scan_stops:
  assumes "segment node_next Value h p (xs @ [(a, v), (t, w)]) None"
    and "distinct (map fst (xs @ [(a, v), (t, w)]))"
  shows "popback_scan h (Some t) p = Some (Some a)"
  using assms
proof (induction xs arbitrary: p)
  case Nil
  then show ?case by (auto simp: popback_scan.simps [of h "Some t" "Some a"])
next
  case (Cons bu xs)
  then obtain b u where [simp]: "bu = (b, u)" by (cases bu)
  from Cons.prems obtain n where p: "p = Some b" and n: "cells h b = Some n"
    and rest: "segment node_next Value h (node_next n) (xs @ [(a, v), (t, w)]) None"
    by auto
  have "node_next n \<noteq> None" and "node_next n \<noteq> Some t"
    using rest Cons.prems(2) by (cases xs; auto)+
  with p n Cons.IH [OF rest] Cons.prems(2) show ?case
    by (simp add: popback_scan.simps [of h "Some t" "Some b"])
qed

lemma PopBack_rep:
  assumes "ll_rep (ll, h) (avs @ [(t, w)])"
  shows "\<exists>s. PopBack (ll, h) = Some (Inr w, s) \<and> ll_rep s avs"
proof (cases avs rule: rev_cases)
  case Nil
  with assms show ?thesis by (auto simp: PopBack_def ll_rep_def ll_defs)
next
  case (snoc xs av)
  then obtain a v where avs: "avs = xs @ [(a, v)]" by (cases av) auto
  have seg: "segment node_next Value h (ll_head ll) (xs @ [(a, v), (t, w)]) None"
    and dist: "distinct (map fst (xs @ [(a, v), (t, w)]))"
    and tail: "ll_tail ll = Some t" and ok: "heap_ok h"
    and size: "ll_size ll = int (length xs) + 2"
    using assms avs by (auto simp: ll_rep_def)
  have scan: "popback_scan h (Some t) (ll_head ll) = Some (Some a)"
    using seg dist by (rule popback_scan_stops)
  have head: "ll_head ll \<noteq> Some t"
    using seg dist by (cases xs) auto
  obtain n m where n: "cells h a = Some n" and m: "cells h t = Some m" "Value m = w"
    and pre: "segment node_next Value h (ll_head ll) (xs @ [(a, v)]) (Some t)"
    using seg by (auto simp: ll_chain.segment_append)
  have "segment node_next Value (hput a (node_next_update (\<lambda>_. None) n) h) (ll_head ll) (xs @ [(a, v)]) None"
    using pre dist n by (intro ll_chain.segment_redirect) auto
  then have "ll_rep (ll\<lparr>ll_tail := Some a, ll_size := ll_size ll - 1\<rparr>,
      hput a (node_next_update (\<lambda>_. None) n) h) avs"
    using dist ok n size by (simp add: ll_rep_def avs)
  moreover have "PopBack (ll, h) = Some (Inr w, (ll\<lparr>ll_tail := Some a, ll_size := ll_size ll - 1\<rparr>,
      hput a (node_next_update (\<lambda>_. None) n) h))"
    using tail size head scan n m by (simp add: PopBack_def ll_defs)
  ultimately show ?thesis by blast
qed

section \<open>Access by index\<close>

lemma advance_segment:
  assumes "segment node_next Value h p (xs @ ys) q"
  shows "\<exists>r. advance (length xs) h p = Some r \<and> segment node_next Value h p xs r \<and>
    segment node_next Value h r ys q"
  using assms by (induction xs arbitrary: p) auto

lemma ll_Get_rep:
  assumes "ll_rep (ll, h) avs"
  shows "ll_Get i (ll, h) =
    Some (if 0 \<le> i \<and> i < int (length avs) then Inr (snd (avs ! nat i)) else Inl ''index out of range'')"
proof (cases "0 \<le> i \<and> i < int (length avs)")
  case True
  then have k: "nat i < length avs" by linarith
  let ?a = "fst (avs ! nat i)" and ?v = "snd (avs ! nat i)"
  have "avs = take (nat i) avs @ (?a, ?v) # drop (Suc (nat i)) avs"
    using id_take_nth_drop [OF k] by simp
  then have "segment node_next Value h (ll_head ll) (take (nat i) avs @ (?a, ?v) # drop (Suc (nat i)) avs) None"
    using assms by (metis (no_types, lifting) case_prod_conv ll_rep_def)
  then obtain r where "advance (nat i) h (ll_head ll) = Some r"
    and "segment node_next Value h r ((?a, ?v) # drop (Suc (nat i)) avs) None"
    using advance_segment [of h "ll_head ll" "take (nat i) avs"] k by fastforce
  with True assms show ?thesis
    by (auto simp: ll_Get_def ll_rep_def)
next
  case False
  with assms show ?thesis by (auto simp: ll_Get_def ll_rep_def)
qed

lemma ll_Insert_range:
  "ll_rep (ll, h) avs \<Longrightarrow> i < 0 \<or> i > int (length avs) \<Longrightarrow>
     ll_Insert i v (ll, h) = Some (Inl ''index out of range'', (ll, h))"
  by (auto simp: ll_Insert_def ll_rep_def)

lemma ll_Insert_middle:
  assumes "ll_rep (ll, h) (xs @ (a, u) # ys)" and "ys \<noteq> []"
  shows "\<exists>s. ll_Insert (int (Suc (length xs))) v (ll, h) = Some (Inr (), s) \<and>
    ll_rep s (xs @ (a, u) # (brk h, v) # ys)"
proof -
  let ?new = "\<lparr>Value = v, node_next = None\<rparr>"
  have seg: "segment node_next Value h (ll_head ll) (xs @ (a, u) # ys) None"
    and dist: "distinct (map fst (xs @ (a, u) # ys))" and ok: "heap_ok h"
    and tail: "ll_tail ll = Some (fst (last ys))" and size: "ll_size ll = int (length xs) + int (length ys) + 1"
    using assms by (auto simp: ll_rep_def)
  have fresh: "brk h \<noteq> a" "brk h \<notin> fst ` set xs" "brk h \<notin> fst ` set ys"
    using ll_chain.segment_fresh [OF seg ok] by auto
  obtain n where n: "cells h a = Some n" "Value n = u"
    and pre: "segment node_next Value h (ll_head ll) xs (Some a)"
    and post: "segment node_next Value h (node_next n) ys None"
    using seg by (rule ll_chain.segment_split)
  let ?h2 = "halloc \<lparr>Value = v, node_next = node_next n\<rparr> h"
  have n2: "cells ?h2 a = Some n" using n fresh by auto
  have adv: "advance (length xs) (halloc ?new h) (ll_head ll) = Some (Some a)"
    using advance_segment [of "halloc ?new h" "ll_head ll" xs "[]" "Some a"] pre fresh
    by (simp add: ll_chain.segment_halloc)
  have "segment node_next Value ?h2 (ll_head ll) (xs @ [(a, u)]) (node_next n)"
    using pre n n2 fresh by (simp add: ll_chain.segment_append ll_chain.segment_halloc)
  moreover have "segment node_next Value ?h2 (Some (brk h)) ((brk h, v) # ys) None"
    using post fresh by (simp add: ll_chain.segment_halloc)
  ultimately have "segment node_next Value (hput a (node_next_update (\<lambda>_. Some (brk h)) n) ?h2)
      (ll_head ll) (xs @ (a, u) # (brk h, v) # ys) None"
    using dist fresh n2 by (intro ll_chain.segment_relink) auto
  then have "ll_rep (ll\<lparr>ll_size := ll_size ll + 1\<rparr>, hput a (node_next_update (\<lambda>_. Some (brk h)) n) ?h2)
      (xs @ (a, u) # (brk h, v) # ys)"
    using dist fresh ok n2 tail size assms(2) by (auto simp: ll_rep_def)
  moreover have "ll_Insert (int (Suc (length xs))) v (ll, h) =
      Some (Inr (), (ll\<lparr>ll_size := ll_size ll + 1\<rparr>, hput a (node_next_update (\<lambda>_. Some (brk h)) n) ?h2))"
    using size adv n fresh assms(2) by (auto simp: ll_Insert_def ll_defs)
  ultimately show ?thesis by blast
qed

lemma ll_Remove_range:
  "ll_rep (ll, h) avs \<Longrightarrow> i < 0 \<or> i \<ge> int (length avs) \<Longrightarrow>
     ll_Remove i (ll, h) = Some (Inl ''index out of range'', (ll, h))"
  by (auto simp: ll_Remove_def ll_rep_def)

lemma ll_Remove_rest:
  assumes "ll_rep (ll, h) (xs @ (a, u) # (b, w) # ys)"
  shows "\<exists>s. ll_Remove (int (Suc (length xs))) (ll, h) = Some (Inr w, s) \<and>
    ll_rep s (xs @ (a, u) # ys)"
proof -
  have seg: "segment node_next Value h (ll_head ll) (xs @ (a, u) # (b, w) # ys) None"
    and dist: "distinct (map fst (xs @ (a, u) # (b, w) # ys))" and ok: "heap_ok h"
    and tail: "ll_tail ll = Some (fst (last ((b, w) # ys)))"
    and size: "ll_size ll = int (length xs) + int (length ys) + 2"
    using assms by (auto simp: ll_rep_def)
  obtain n where n: "cells h a = Some n" "Value n = u"
    and pre: "segment node_next Value h (ll_head ll) xs (Some a)"
    and post: "segment node_next Value h (node_next n) ((b, w) # ys) None"
    using seg by (rule ll_chain.segment_split)
  obtain m where m: "node_next n = Some b" "cells h b = Some m" "Value m = w"
    and rest: "segment node_next Value h (node_next m) ys None"
    using post by auto
  let ?h1 = "hput a (node_next_update (\<lambda>_. node_next m) n) h"
  let ?ll1 = "ll\<lparr>ll_size := ll_size ll - 1\<rparr>"
  let ?ll2 = "if Some b = ll_tail ll then ?ll1\<lparr>ll_tail := Some a\<rparr> else ?ll1"
  have last: "Some b = ll_tail ll \<longleftrightarrow> ys = []"
    using tail dist by (cases ys rule: rev_cases) auto
  have adv: "advance (length xs) h (ll_head ll) = Some (Some a)"
    using advance_segment [of h "ll_head ll" xs "[]" "Some a"] pre by simp
  have "segment node_next Value ?h1 (ll_head ll) (xs @ (a, u) # ys) None"
    using pre n rest dist
    by (intro ll_chain.segment_relink [where q = "node_next n"])
      (auto simp: ll_chain.segment_append)
  then have "ll_rep (?ll2, ?h1) (xs @ (a, u) # ys)"
    using dist ok n tail size last by (auto simp: ll_rep_def)
  moreover have "ll_Remove (int (Suc (length xs))) (ll, h) = Some (Inr w, (?ll2, ?h1))"
    using size adv n m by (simp add: ll_Remove_def ll_defs)
  ultimately show ?thesis by blast
qed

section \<open>Printing\<close>

lemma string_loop_segment:
  assumes "segment node_next Value h p avs None"
  shows "string_loop fmtv h p acc = Some (acc @ join_arrow (map (fmtv \<circ> snd) avs))"
  using assms
proof (induction avs arbitrary: p acc)
  case Nil
  then show ?case by (simp add: string_loop.simps)
next
  case (Cons av avs)
  then obtain n where n: "p = Some (fst av)" "cells h (fst av) = Some n" "Value n = snd av"
    and rest: "segment node_next Value h (node_next n) avs None"
    by auto
  have "node_next n \<noteq> None \<longleftrightarrow> avs \<noteq> []"
    using rest by (cases avs) auto
  with n Cons.IH [OF rest] show ?case
    by (cases avs) (auto simp: string_loop.simps [of fmtv h "Some (fst av)"])
qed

lemma ll_String_rep:
  assumes "ll_rep (ll, h) avs"
  shows "ll_String fmtv (ll, h) = Some (''['' @ join_arrow (map (fmtv \<circ> snd) avs) @ '']'')"
proof -
  have "segment node_next Value h (ll_head ll) avs None"
    using assms by (simp add: ll_rep_def)
  from string_loop_segment [OF this] ll_rep_IsEmpty [OF assms] show ?thesis
    by (simp add: ll_String_def)
qed

section \<open>The methods on sequences of values\<close>

lemma PushFront_abs:
  assumes "ll_abs s xs" shows "\<exists>s'. PushFront v s = Some s' \<and> ll_abs s' (v # xs)"
  using assms PushFront_rep by (cases s) (fastforce simp: ll_abs_def)

lemma PushBack_abs:
  assumes "ll_abs s xs" shows "\<exists>s'. PushBack v s = Some s' \<and> ll_abs s' (xs @ [v])"
  using assms PushBack_rep by (cases s) (fastforce simp: ll_abs_def)

lemma PopFront_abs_Nil: "ll_abs s [] \<Longrightarrow> PopFront s = Some (Inl ''linked list is empty'', s)"
  using PopFront_empty by (cases s) (auto simp: ll_abs_def)

lemma PopFront_abs_Cons:
  assumes "ll_abs s (x # xs)" shows "\<exists>s'. PopFront s = Some (Inr x, s') \<and> ll_abs s' xs"
  using assms PopFront_rep by (cases s) (fastforce simp: ll_abs_def)

lemma PopBack_abs_Nil: "ll_abs s [] \<Longrightarrow> PopBack s = Some (Inl ''linked list is empty'', s)"
  using PopBack_empty by (cases s) (auto simp: ll_abs_def)

lemma PopBack_abs_snoc:
  assumes "ll_abs s (xs @ [x])" shows "\<exists>s'. PopBack s = Some (Inr x, s') \<and> ll_abs s' xs"
proof -
  obtain ll h where s: "s = (ll, h)" by (cases s)
  with assms obtain avs where "ll_rep (ll, h) avs" "map snd avs = xs @ [x]"
    by (auto simp: ll_abs_def)
  then obtain bvs t where "ll_rep (ll, h) (bvs @ [(t, x)])" "map snd bvs = xs"
    by (auto simp: map_eq_append_conv)
  with s show ?thesis
    using PopBack_rep by (fastforce simp: ll_abs_def)
qed

lemma ll_Get_abs:
  "ll_abs s xs \<Longrightarrow> ll_Get i s =
     Some (if 0 \<le> i \<and> i < int (length xs) then Inr (xs ! nat i) else Inl ''index out of range'')"
  by (cases s) (auto simp: ll_abs_def ll_Get_rep)

lemma ll_String_abs:
  "ll_abs s xs \<Longrightarrow> ll_String fmtv s = Some (''['' @ join_arrow (map fmtv xs) @ '']'')"
  by (cases s) (auto simp: ll_abs_def ll_String_rep comp_def)

lemma ll_abs_size: "ll_abs s xs \<Longrightarrow> ll_size (fst s) = int (length xs)"
  by (cases s) (auto simp: ll_abs_def ll_rep_def)

lemma split_before:
  assumes "0 < k" "k \<le> length avs"
  obtains xs a u ys where "avs = xs @ (a, u) # ys" "Suc (length xs) = k" "ys = drop k avs"
proof -
  obtain j where j: "k = Suc j" using assms by (cases k) auto
  then have "avs = take j avs @ avs ! j # drop k avs"
    using assms by (simp add: id_take_nth_drop)
  with j assms that show thesis
    by (metis Suc_le_eq length_take less_imp_le_nat min.absorb2 prod.collapse)
qed

lemma ll_Insert_abs:
  assumes "ll_abs s xs" "0 \<le> i" "i \<le> int (length xs)"
  shows "\<exists>s'. ll_Insert i v s = Some (Inr (), s') \<and> ll_abs s' (take (nat i) xs @ v # drop (nat i) xs)"
proof -
  obtain ll h where s: "s = (ll, h)" by (cases s)
  with assms obtain avs where rep: "ll_rep (ll, h) avs" and xs: "xs = map snd avs"
    by (auto simp: ll_abs_def)
  have size: "ll_size ll = int (length xs)" using ll_abs_size assms(1) s by fastforce
  consider "i = 0" | "i > 0" "i = int (length xs)" | "i > 0" "i < int (length xs)"
    using assms by linarith
  then show ?thesis
  proof cases
    case 1
    with PushFront_abs [OF assms(1), of v] s size show ?thesis
      by (auto simp: ll_Insert_def)
  next
    case 2
    with PushBack_abs [OF assms(1), of v] s size show ?thesis
      by (auto simp: ll_Insert_def)
  next
    case 3
    then have "0 < nat i" "nat i \<le> length avs"
      using xs by (auto simp: nat_le_iff)
    then obtain bs a u ys where avs: "avs = bs @ (a, u) # ys" "Suc (length bs) = nat i"
      "ys = drop (nat i) avs"
      by (rule split_before)
    have "ys \<noteq> []" using 3 xs avs(3) by auto
    moreover have "ll_rep (ll, h) (bs @ (a, u) # ys)" using rep avs(1) by simp
    ultimately have "\<exists>s'. ll_Insert (int (Suc (length bs))) v (ll, h) = Some (Inr (), s') \<and>
        ll_rep s' (bs @ (a, u) # (brk h, v) # ys)"
      by (intro ll_Insert_middle)
    moreover have "int (Suc (length bs)) = i" using avs(2) 3 by simp
    moreover have "map snd (bs @ (a, u) # (brk h, v) # ys) = take (nat i) xs @ v # drop (nat i) xs"
      using avs(1) xs by (simp flip: avs(2))
    ultimately show ?thesis unfolding s by (metis ll_absI)
  qed
qed

lemma ll_Remove_abs:
  assumes "ll_abs s xs" "0 \<le> i" "i < int (length xs)"
  shows "\<exists>s'. ll_Remove i s = Some (Inr (xs ! nat i), s') \<and>
    ll_abs s' (take (nat i) xs @ drop (Suc (nat i)) xs)"
proof -
  obtain ll h where s: "s = (ll, h)" by (cases s)
  with assms obtain avs where rep: "ll_rep (ll, h) avs" and xs: "xs = map snd avs"
    by (auto simp: ll_abs_def)
  have size: "ll_size ll = int (length xs)" using ll_abs_size assms(1) s by fastforce
  show ?thesis
  proof (cases "i = 0")
    case True
    with assms(3) obtain y ys where "xs = y # ys" by (cases xs) auto
    with True PopFront_abs_Cons assms(1) s size show ?thesis
      by (fastforce simp: ll_Remove_def)
  next
    case False
    then have "0 < nat i" "nat i \<le> length avs"
      using xs assms by (auto simp: nat_le_iff)
    then obtain bs a u ys where avs: "avs = bs @ (a, u) # ys" "Suc (length bs) = nat i"
      "ys = drop (nat i) avs"
      by (rule split_before)
    have "ys \<noteq> []" using assms xs avs(3) by auto
    then obtain b w zs where ys: "ys = (b, w) # zs" by (cases ys) auto
    have "ll_rep (ll, h) (bs @ (a, u) # (b, w) # zs)" using rep avs(1) ys by simp
    then have "\<exists>s'. ll_Remove (int (Suc (length bs))) (ll, h) = Some (Inr w, s') \<and>
        ll_rep s' (bs @ (a, u) # zs)"
      by (rule ll_Remove_rest)
    moreover have "int (Suc (length bs)) = i" using avs(2) False assms by simp
    moreover have "map snd (bs @ (a, u) # zs) = take (nat i) xs @ drop (Suc (nat i)) xs"
      and "xs ! nat i = w"
      using avs(1) ys xs by (simp_all flip: avs(2) add: nth_append)
    ultimately show ?thesis unfolding s by (metis ll_absI)
  qed
qed

lemma ll_abs_range:
  assumes "ll_abs s xs"
  shows "i < 0 \<or> i > int (length xs) \<Longrightarrow> ll_Insert i v s = Some (Inl ''index out of range'', s)"
    and "i < 0 \<or> i \<ge> int (length xs) \<Longrightarrow> ll_Remove i s = Some (Inl ''index out of range'', s)"
  using assms by (cases s; auto simp: ll_abs_def ll_Insert_range ll_Remove_range)+

text \<open>One call: it returns, with the observation and the sequence of the abstract call.\<close>

lemma ll_call_refines:
  assumes "ll_abs s xs"
  shows "\<exists>s'. ll_call fmtv op s = Some (fst (seq_call fmtv op xs), s') \<and>
    ll_abs s' (snd (seq_call fmtv op xs))"
proof (cases op)
  case OpPopFront
  then show ?thesis
    using assms PopFront_abs_Nil PopFront_abs_Cons by (cases xs) fastforce+
next
  case OpPopBack
  then show ?thesis
    using assms PopBack_abs_Nil PopBack_abs_snoc by (cases xs rule: rev_cases) fastforce+
next
  case (OpInsert i v)
  then show ?thesis
    using assms ll_Insert_abs [OF assms, of i v] ll_abs_range(1) [OF assms, of i v]
    by (cases s; cases "0 \<le> i \<and> i \<le> int (length xs)") auto
next
  case (OpRemove i)
  then show ?thesis
    using assms ll_Remove_abs [OF assms, of i] ll_abs_range(2) [OF assms, of i]
    by (cases s; cases "0 \<le> i \<and> i < int (length xs)") auto
next
  case (OpPushFront v)
  then show ?thesis using PushFront_abs [OF assms, of v] by auto
next
  case (OpPushBack v)
  then show ?thesis using PushBack_abs [OF assms, of v] by auto
qed (use assms in \<open>auto simp: ll_Get_abs ll_String_abs ll_Size_def ll_IsEmpty_def ll_abs_size\<close>)

lemma ll_run_refines:
  assumes "ll_abs s xs"
  shows "\<exists>s'. ll_run fmtv ops s = Some (fst (seq_run fmtv ops xs), s') \<and>
    ll_abs s' (snd (seq_run fmtv ops xs))"
  using assms
proof (induction ops arbitrary: s xs)
  case Nil
  then show ?case by simp
next
  case (Cons op ops)
  obtain s1 where s1: "ll_call fmtv op s = Some (fst (seq_call fmtv op xs), s1)"
    and abs1: "ll_abs s1 (snd (seq_call fmtv op xs))"
    using ll_call_refines [OF Cons.prems] by blast
  from Cons.IH [OF abs1] s1 show ?case
    by (auto simp: Let_def split_beta)
qed

text \<open>
  C1: any sequence of method calls on a new list returns (no nil dereference, every loop
  ends) and every value, error and printed form it observes is the one of the same calls on
  the plain sequence of values.
\<close>

theorem LinkedList_refines_sequence:
  "\<exists>s. ll_run fmtv ops (NewLinkedList, empty_heap) = Some (fst (seq_run fmtv ops []), s) \<and>
     ll_abs s (snd (seq_run fmtv ops []))"
  by (rule ll_run_refines) (simp add: NewLinkedList_abs)

end
