(* ===== verification/Queue_Stack.thy ===== *)
theory Queue_Stack
  imports Linked_List
begin

text \<open>
  The slice-backed \<open>Queue\<close> and \<open>Stack\<close> of \<^verbatim>\<open>pkg/data_struct/queue.go\<close> and \<^verbatim>\<open>stack.go\<close>, and
  the two contracts a sequence container of the package can offer: first-in first-out and
  last-in first-out. The contracts are locales; the queue, the stack and the four ends of the
  linked list are shown to meet them, and the order lemmas are proved once for all of them.
  The slices are private to their struct, so a slice is the list of its elements.
\<close>

section \<open>Queue\<close>

record 'a Queue =
  q_items :: "'a list"

definition NewQueue :: "'a Queue" where
  "NewQueue = \<lparr>q_items = []\<rparr>"

definition Enqueue :: "'a \<Rightarrow> 'a Queue \<Rightarrow> 'a Queue" where
  "Enqueue value q = q\<lparr>q_items := q_items q @ [value]\<rparr>"

definition Dequeue :: "'a Queue \<Rightarrow> 'a result \<times> 'a Queue" where
  "Dequeue q =
     (if length (q_items q) = 0 then (Inl ''empty queue'', q)
      else (Inr (q_items q ! 0), q\<lparr>q_items := drop 1 (q_items q)\<rparr>))"

definition q_Peek :: "'a Queue \<Rightarrow> 'a result" where
  "q_Peek q = (if length (q_items q) = 0 then Inl ''empty queue'' else Inr (q_items q ! 0))"

definition q_Size :: "'a Queue \<Rightarrow> nat" where
  "q_Size q = length (q_items q)"

definition q_IsEmpty :: "'a Queue \<Rightarrow> bool" where
  "q_IsEmpty q \<longleftrightarrow> length (q_items q) = 0"

section \<open>Stack\<close>

record 'a Stack =
  s_items :: "'a list"

definition NewStack :: "'a Stack" where
  "NewStack = \<lparr>s_items = []\<rparr>"

definition Push :: "'a \<Rightarrow> 'a Stack \<Rightarrow> 'a Stack" where
  "Push value s = s\<lparr>s_items := s_items s @ [value]\<rparr>"

definition Pop :: "'a Stack \<Rightarrow> 'a result \<times> 'a Stack" where
  "Pop s =
     (if length (s_items s) = 0 then (Inl ''empty stack'', s)
      else let topIndex = length (s_items s) - 1
           in (Inr (s_items s ! topIndex), s\<lparr>s_items := take topIndex (s_items s)\<rparr>))"

definition s_Peek :: "'a Stack \<Rightarrow> 'a result" where
  "s_Peek s = (if length (s_items s) = 0 then Inl ''empty stack''
     else Inr (s_items s ! (length (s_items s) - 1)))"

definition s_Size :: "'a Stack \<Rightarrow> nat" where
  "s_Size s = length (s_items s)"

definition s_IsEmpty :: "'a Stack \<Rightarrow> bool" where
  "s_IsEmpty s \<longleftrightarrow> length (s_items s) = 0"

section \<open>Clients: feeding and draining\<close>

fun feed :: "('a \<Rightarrow> 's \<Rightarrow> 's option) \<Rightarrow> 'a list \<Rightarrow> 's \<Rightarrow> 's option" where
  "feed put [] s = Some s"
| "feed put (x # xs) s = (case put x s of None \<Rightarrow> None | Some t \<Rightarrow> feed put xs t)"

fun drain :: "('s \<Rightarrow> ('a result \<times> 's) option) \<Rightarrow> nat \<Rightarrow> 's \<Rightarrow> ('a result list \<times> 's) option" where
  "drain get 0 s = Some ([], s)"
| "drain get (Suc n) s = (case get s of None \<Rightarrow> None
     | Some (r, t) \<Rightarrow> map_option (map_prod (Cons r) id) (drain get n t))"

section \<open>The contracts\<close>

text \<open>
  \<open>rep s xs\<close>: the container holds \<open>xs\<close>, in the order in which \<open>get\<close> will return them.
\<close>

locale drainable =
  fixes rep :: "'s \<Rightarrow> 'a list \<Rightarrow> bool"
    and get :: "'s \<Rightarrow> ('a result \<times> 's) option"
    and err :: string
  assumes get_empty: "rep s [] \<Longrightarrow> get s = Some (Inl err, s)"
    and get_cons: "rep s (x # xs) \<Longrightarrow> \<exists>t. get s = Some (Inr x, t) \<and> rep t xs"
begin

lemma drain_rep:
  assumes "rep s xs"
  shows "\<exists>t. drain get n s =
      Some (map Inr (take n xs) @ replicate (n - length xs) (Inl err), t) \<and> rep t (drop n xs)"
  using assms
proof (induction n arbitrary: s xs)
  case 0
  then show ?case by simp
next
  case (Suc n)
  show ?case
  proof (cases xs)
    case Nil
    with Suc.prems have "get s = Some (Inl err, s)" by (simp add: get_empty)
    with Nil Suc.IH [OF Suc.prems] show ?thesis by auto
  next
    case (Cons y ys)
    with Suc.prems obtain t where t: "get s = Some (Inr y, t)" "rep t ys"
      using get_cons by blast
    from Suc.IH [OF t(2)] t(1) Cons show ?thesis by auto
  qed
qed

end

locale fifo = drainable rep get err
  for rep :: "'s \<Rightarrow> 'a list \<Rightarrow> bool" and get and err +
  fixes put :: "'a \<Rightarrow> 's \<Rightarrow> 's option"
  assumes put_back: "rep s xs \<Longrightarrow> \<exists>t. put x s = Some t \<and> rep t (xs @ [x])"
begin

lemma feed_back: "rep s ys \<Longrightarrow> \<exists>t. feed put xs s = Some t \<and> rep t (ys @ xs)"
proof (induction xs arbitrary: s ys)
  case (Cons x xs)
  then obtain t where "put x s = Some t" "rep t (ys @ [x])"
    using put_back by blast
  with Cons.IH show ?case by fastforce
qed simp

lemma fifo_order:
  assumes "rep s ys"
  shows "\<exists>t u. feed put xs s = Some t \<and>
    drain get n t = Some (map Inr (take n (ys @ xs)) @ replicate (n - length (ys @ xs)) (Inl err), u)
    \<and> rep u (drop n (ys @ xs))"
  using feed_back [OF assms, of xs] drain_rep by blast

end

locale lifo = drainable rep get err
  for rep :: "'s \<Rightarrow> 'a list \<Rightarrow> bool" and get and err +
  fixes put :: "'a \<Rightarrow> 's \<Rightarrow> 's option"
  assumes put_front: "rep s xs \<Longrightarrow> \<exists>t. put x s = Some t \<and> rep t (x # xs)"
begin

lemma feed_front: "rep s ys \<Longrightarrow> \<exists>t. feed put xs s = Some t \<and> rep t (rev xs @ ys)"
proof (induction xs arbitrary: s ys)
  case (Cons x xs)
  then obtain t where "put x s = Some t" "rep t (x # ys)"
    using put_front by blast
  with Cons.IH show ?case by fastforce
qed simp

lemma lifo_order:
  assumes "rep s ys"
  shows "\<exists>t u. feed put xs s = Some t \<and>
    drain get n t =
      Some (map Inr (take n (rev xs @ ys)) @ replicate (n - length (rev xs @ ys)) (Inl err), u)
    \<and> rep u (drop n (rev xs @ ys))"
  using feed_front [OF assms, of xs] drain_rep by blast

end

section \<open>The containers meet the contracts\<close>

interpretation queue_fifo:
  fifo "\<lambda>q xs. q_items q = xs" "\<lambda>q. Some (Dequeue q)" "''empty queue''" "\<lambda>x q. Some (Enqueue x q)"
  by unfold_locales (auto simp: Dequeue_def Enqueue_def)

interpretation stack_lifo:
  lifo "\<lambda>s xs. s_items s = rev xs" "\<lambda>s. Some (Pop s)" "''empty stack''" "\<lambda>x s. Some (Push x s)"
  by unfold_locales (auto simp: Pop_def Push_def nth_append)

interpretation ll_fifo: fifo ll_abs PopFront "''linked list is empty''" PushBack
  by unfold_locales (simp_all add: PopFront_abs_Nil PopFront_abs_Cons PushBack_abs del: split_paired_Ex)

interpretation ll_lifo_front: lifo ll_abs PopFront "''linked list is empty''" PushFront
  by unfold_locales (simp_all add: PushFront_abs del: split_paired_Ex)

interpretation ll_lifo_back:
  lifo "\<lambda>s xs. ll_abs s (rev xs)" PopBack "''linked list is empty''" PushBack
  by unfold_locales (simp_all add: PopBack_abs_Nil PopBack_abs_snoc PushBack_abs del: split_paired_Ex)

interpretation ll_fifo_back:
  fifo "\<lambda>s xs. ll_abs s (rev xs)" PopBack "''linked list is empty''" PushFront
  by unfold_locales (simp_all add: PushFront_abs del: split_paired_Ex)

section \<open>Order of the elements\<close>

lemma Queue_first_in_first_out:
  "\<exists>q. feed (\<lambda>x q. Some (Enqueue x q)) xs NewQueue = Some q \<and> q_Size q = length xs \<and>
     (\<exists>q'. drain (\<lambda>q. Some (Dequeue q)) n q =
       Some (map Inr (take n xs) @ replicate (n - length xs) (Inl ''empty queue''), q') \<and>
       q_Size q' = length xs - n)"
  using queue_fifo.fifo_order [of NewQueue "[]" xs n] queue_fifo.feed_back [of NewQueue "[]" xs]
  by (auto simp: NewQueue_def q_Size_def)

lemma Stack_last_in_first_out:
  "\<exists>s. feed (\<lambda>x s. Some (Push x s)) xs NewStack = Some s \<and> s_Peek s = fst (Pop s) \<and>
     (\<exists>s'. drain (\<lambda>s. Some (Pop s)) n s =
       Some (map Inr (take n (rev xs)) @ replicate (n - length xs) (Inl ''empty stack''), s') \<and>
       s_Size s' = length xs - n)"
proof -
  have "\<And>s :: 'a Stack. s_Peek s = fst (Pop s)"
    by (simp add: s_Peek_def Pop_def Let_def)
  moreover have "\<And>(s :: 'a Stack) ys. s_items s = rev ys \<Longrightarrow> s_Size s = length ys"
    by (simp add: s_Size_def)
  ultimately show ?thesis
    using stack_lifo.lifo_order [of NewStack "[]" xs n] by (fastforce simp: NewStack_def)
qed

text \<open>
  C15: the values enqueued on a new queue are dequeued in the same order, each once, and a dequeue
  beyond them reports the empty queue; the values pushed on a new stack are popped in the
  opposite order, each once, a pop beyond them reports the empty stack, and \<open>Peek\<close> shows what the
  next \<open>Pop\<close> returns.
\<close>

theorem Queue_and_Stack_order:
  "(\<exists>q. feed (\<lambda>x q. Some (Enqueue x q)) xs NewQueue = Some q \<and> q_Size q = length xs \<and>
     (\<exists>q'. drain (\<lambda>q. Some (Dequeue q)) n q =
       Some (map Inr (take n xs) @ replicate (n - length xs) (Inl ''empty queue''), q') \<and>
       q_Size q' = length xs - n)) \<and>
   (\<exists>s. feed (\<lambda>x s. Some (Push x s)) xs NewStack = Some s \<and> s_Peek s = fst (Pop s) \<and>
     (\<exists>s'. drain (\<lambda>s. Some (Pop s)) n s =
       Some (map Inr (take n (rev xs)) @ replicate (n - length xs) (Inl ''empty stack''), s') \<and>
       s_Size s' = length xs - n))"
  by (intro conjI Queue_first_in_first_out Stack_last_in_first_out)

end
