(* ===== verification/App_Shutdown.thy ===== *)
theory App_Shutdown
  imports Prelude "HOL-Library.Multiset"
begin

text \<open>
  The application of \<^verbatim>\<open>application/application.go\<close>: the registry of shutdown functions, a
  singly linked list kept in priority order, and the life of a process that uses it.

  The registry is modelled over a heap of \<open>shutdown\<close> nodes, as the code links them. Every
  method holds \<open>shutdownRWM\<close> from its first to its last statement, so a method is one atomic
  step of the model. A shutdown function acts on the rest of the program (\<open>'w\<close>) and may panic;
  it cannot change the registry, whose lock is held while it runs.

  The lemmas show that the registry refines a stable priority list, and what \<open>Stop\<close> and
  \<open>ShutdownByName\<close> run.
\<close>

section \<open>The structs\<close>

datatype os_signal = SIGTERM | SIGINT

type_synonym 'w shutdown_fn = "'w \<Rightarrow> 'w outcome"

record 'w shutdown =
  sd_priority :: int
  sd_name :: string
  sd_next :: ptr
  sd_func :: "'w shutdown_fn"

record 'w App =
  app_node :: ptr
  app_nodes :: "'w shutdown heap"
  app_logs :: "string list"
  app_sig :: "os_signal list"

definition NewApp :: "'w App" where
  "NewApp = \<lparr>app_node = None, app_nodes = empty_heap, app_logs = [], app_sig = []\<rparr>"

section \<open>The methods\<close>

text \<open>The loop of \<open>RegisterShutdown\<close>: advance while the next node's priority is not larger.\<close>

partial_function (option) register_scan :: "'w shutdown heap \<Rightarrow> int \<Rightarrow> ptr \<Rightarrow> ptr option" where
  "register_scan h priority current =
     (case load h current of None \<Rightarrow> None
      | Some c \<Rightarrow> (case sd_next c of None \<Rightarrow> Some current
          | Some b \<Rightarrow> (case cells h b of None \<Rightarrow> None
              | Some m \<Rightarrow> if sd_priority m \<le> priority
                          then register_scan h priority (Some b) else Some current)))"

definition RegisterShutdown ::
  "string \<Rightarrow> 'w shutdown_fn \<Rightarrow> int \<Rightarrow> 'w App \<Rightarrow> 'w App option" where
  "RegisterShutdown name fn priority app = do {
     let (newShutdown, h1) =
       new_obj \<lparr>sd_priority = priority, sd_name = name, sd_next = None, sd_func = fn\<rparr> (app_nodes app);
     first \<leftarrow> (case app_node app of None \<Rightarrow> Some True
       | Some a \<Rightarrow> map_option (\<lambda>n. sd_priority n > priority) (cells h1 a));
     if first
     then do {
       h2 \<leftarrow> assign newShutdown (sd_next_update (\<lambda>_. app_node app)) h1;
       Some (app\<lparr>app_node := newShutdown, app_nodes := h2\<rparr>)
     }
     else do {
       current \<leftarrow> register_scan h1 priority (app_node app);
       c \<leftarrow> load h1 current;
       h2 \<leftarrow> assign newShutdown (sd_next_update (\<lambda>_. sd_next c)) h1;
       h3 \<leftarrow> assign current (sd_next_update (\<lambda>_. newShutdown)) h2;
       Some (app\<lparr>app_nodes := h3\<rparr>)
     }
   }"

text \<open>The loop of \<open>ShutdownByName\<close> over the nodes after the first.\<close>

partial_function (option) byname_loop ::
  "string \<Rightarrow> ptr \<Rightarrow> 'w App \<Rightarrow> 'w \<Rightarrow> ('w App \<times> 'w) outcome option" where
  "byname_loop name current app w =
     (case load (app_nodes app) current of None \<Rightarrow> None
      | Some c \<Rightarrow> (case sd_next c of None \<Rightarrow> Some (Ok (app, w))
          | Some b \<Rightarrow> (case cells (app_nodes app) b of None \<Rightarrow> None
              | Some m \<Rightarrow>
                  if sd_name m = name
                  then (case sd_func m w of Panic w' \<Rightarrow> Some (Panic (app, w'))
                    | Ok w' \<Rightarrow> map_option (\<lambda>h. Ok (app\<lparr>app_nodes := h\<rparr>, w'))
                        (assign current (sd_next_update (\<lambda>_. sd_next m)) (app_nodes app)))
                  else byname_loop name (Some b) app w)))"

definition ShutdownByName ::
  "string \<Rightarrow> 'w App \<Rightarrow> 'w \<Rightarrow> ('w App \<times> 'w) outcome option" where
  "ShutdownByName name app w =
     (case app_node app of None \<Rightarrow> Some (Ok (app, w))
      | Some a \<Rightarrow> (case cells (app_nodes app) a of None \<Rightarrow> None
          | Some n \<Rightarrow>
              if sd_name n = name
              then (case sd_func n w of Panic w' \<Rightarrow> Some (Panic (app, w'))
                | Ok w' \<Rightarrow> Some (Ok (app\<lparr>app_node := sd_next n\<rparr>, w')))
              else byname_loop name (app_node app) app w))"

definition shutdown_log :: "string \<Rightarrow> int \<Rightarrow> string" where
  "shutdown_log name priority = ''shutdown func '' @ name @ '' with priority '' @ itoa priority"

partial_function (option) shutdownAllAndDeleteAllCanceled ::
  "'w App \<Rightarrow> 'w \<Rightarrow> ('w App \<times> 'w) outcome option" where
  "shutdownAllAndDeleteAllCanceled app w =
     (case app_node app of None \<Rightarrow> Some (Ok (app, w))
      | Some a \<Rightarrow> (case cells (app_nodes app) a of None \<Rightarrow> None
          | Some n \<Rightarrow> (case sd_func n w of Panic w' \<Rightarrow> Some (Panic (app, w'))
              | Ok w' \<Rightarrow> shutdownAllAndDeleteAllCanceled
                  (app\<lparr>app_logs := app_logs app @ [shutdown_log (sd_name n) (sd_priority n)],
                       app_node := sd_next n\<rparr>) w')))"

text \<open>One round of that loop, for an observer who sees the process between two of them.\<close>

definition shutdown_one :: "'w App \<Rightarrow> 'w \<Rightarrow> ('w App \<times> 'w) outcome option" where
  "shutdown_one app w =
     (case app_node app of None \<Rightarrow> None
      | Some a \<Rightarrow> (case cells (app_nodes app) a of None \<Rightarrow> None
          | Some n \<Rightarrow> (case sd_func n w of Panic w' \<Rightarrow> Some (Panic (app, w'))
              | Ok w' \<Rightarrow> Some (Ok (app\<lparr>app_logs := app_logs app @ [shutdown_log (sd_name n) (sd_priority n)],
                  app_node := sd_next n\<rparr>, w')))))"

definition Stop :: "'w App \<Rightarrow> 'w \<Rightarrow> ('w App \<times> 'w) outcome option" where
  "Stop app w = shutdownAllAndDeleteAllCanceled (app\<lparr>app_logs := app_logs app @ [''Stop()'']\<rparr>) w"

section \<open>The abstract registry\<close>

text \<open>A registration is a name, a priority and a function; the registry is a list of them.\<close>

type_synonym 'w reg = "string \<times> int \<times> 'w shutdown_fn"

abbreviation reg_name :: "'w reg \<Rightarrow> string" where
  "reg_name r \<equiv> fst r"

abbreviation reg_priority :: "'w reg \<Rightarrow> int" where
  "reg_priority r \<equiv> fst (snd r)"

abbreviation reg_fn :: "'w reg \<Rightarrow> 'w shutdown_fn" where
  "reg_fn r \<equiv> snd (snd r)"

definition spec_register :: "'w reg \<Rightarrow> 'w reg list \<Rightarrow> 'w reg list" where
  "spec_register r rs = takeWhile (\<lambda>x. reg_priority x \<le> reg_priority r) rs @ r #
     dropWhile (\<lambda>x. reg_priority x \<le> reg_priority r) rs"

text \<open>Run in order until one panics; the panicking function and those after it remain.\<close>

fun spec_stop :: "'w reg list \<Rightarrow> 'w \<Rightarrow> ('w reg list \<times> 'w) outcome" where
  "spec_stop [] w = Ok ([], w)"
| "spec_stop (r # rs) w =
     (case reg_fn r w of Panic w' \<Rightarrow> Panic (r # rs, w') | Ok w' \<Rightarrow> spec_stop rs w')"

fun spec_byname :: "string \<Rightarrow> 'w reg list \<Rightarrow> 'w \<Rightarrow> ('w reg list \<times> 'w) outcome" where
  "spec_byname name [] w = Ok ([], w)"
| "spec_byname name (r # rs) w =
     (if reg_name r = name
      then (case reg_fn r w of Panic w' \<Rightarrow> Panic (r # rs, w') | Ok w' \<Rightarrow> Ok (rs, w'))
      else (case spec_byname name rs w of
          Panic (rs', w') \<Rightarrow> Panic (r # rs', w') | Ok (rs', w') \<Rightarrow> Ok (r # rs', w')))"

fun register_all :: "'w reg list \<Rightarrow> 'w App \<Rightarrow> 'w App option" where
  "register_all [] app = Some app"
| "register_all (r # rs) app =
     (case RegisterShutdown (reg_name r) (reg_fn r) (reg_priority r) app of None \<Rightarrow> None
      | Some app' \<Rightarrow> register_all rs app')"

section \<open>What a registry stands for\<close>

definition sd_reg :: "'w shutdown \<Rightarrow> 'w reg" where
  "sd_reg n = (sd_name n, sd_priority n, sd_func n)"

definition app_rep :: "'w App \<Rightarrow> (addr \<times> 'w reg) list \<Rightarrow> bool" where
  "app_rep app ars \<longleftrightarrow> heap_ok (app_nodes app) \<and> distinct (map fst ars) \<and>
     segment sd_next sd_reg (app_nodes app) (app_node app) ars None"

definition app_regs :: "'w App \<Rightarrow> 'w reg list \<Rightarrow> bool" where
  "app_regs app rs \<longleftrightarrow> (\<exists>ars. app_rep app ars \<and> map snd ars = rs)"

text \<open>A result of the model agrees with a result of the abstract registry.\<close>

fun app_agrees :: "('w App \<times> 'w) outcome \<Rightarrow> ('w reg list \<times> 'w) outcome \<Rightarrow> bool" where
  "app_agrees (Ok (app, w)) (Ok (rs, v)) \<longleftrightarrow> app_regs app rs \<and> w = v"
| "app_agrees (Panic (app, w)) (Panic (rs, v)) \<longleftrightarrow> app_regs app rs \<and> w = v"
| "app_agrees _ _ \<longleftrightarrow> False"

interpretation sd_chain: pointer_chain sd_next "\<lambda>p. sd_next_update (\<lambda>_. p)" sd_reg
  by unfold_locales (auto simp: sd_reg_def)

lemma app_regsI: "app_rep app ars \<Longrightarrow> map snd ars = rs \<Longrightarrow> app_regs app rs"
  by (auto simp: app_regs_def)

lemma sd_reg_simps [simp]:
  "fst (sd_reg n) = sd_name n" "fst (snd (sd_reg n)) = sd_priority n" "snd (snd (sd_reg n)) = sd_func n"
  by (simp_all add: sd_reg_def)

lemma NewApp_regs: "app_regs NewApp []"
  by (simp add: app_regs_def app_rep_def NewApp_def)

section \<open>Registration\<close>

text \<open>
  The scan ends at the node \<open>(a, r)\<close> after which the new node belongs: all nodes passed on
  the way, and the successor no longer, have a priority that is not larger.
\<close>

lemma register_scan_stops:
  assumes "segment sd_next sd_reg h (Some b) ((b, r0) # xs @ ys) None"
    and "\<forall>x \<in> set xs. reg_priority (snd x) \<le> priority"
    and "ys = [] \<or> priority < reg_priority (snd (hd ys))"
  shows "register_scan h priority (Some b) = Some (Some (fst (last ((b, r0) # xs))))"
  using assms
proof (induction xs arbitrary: b r0)
  case Nil
  then show ?case
    by (cases ys) (auto simp: register_scan.simps [of h priority "Some b"] sd_reg_def)
next
  case (Cons x xs)
  obtain c r1 where x: "x = (c, r1)" by (cases x)
  from Cons.prems(1) x obtain n m where n: "cells h b = Some n" "sd_next n = Some c"
    and m: "cells h c = Some m" "sd_reg m = r1"
    and rest: "segment sd_next sd_reg h (Some c) ((c, r1) # xs @ ys) None"
    by auto
  have "sd_priority m \<le> priority"
    using Cons.prems(2) m x by auto
  with n m Cons.IH [OF rest] Cons.prems x show ?case
    by (simp add: register_scan.simps [of h priority "Some b"])
qed


text \<open>Linking a new node behind the node \<open>(a, u)\<close>: the general step of the registration.\<close>

lemma link_behind:
  fixes h :: "'w shutdown heap"
  assumes seg: "segment sd_next sd_reg h p (xs @ (a, u) # ys) None"
    and dist: "distinct (map fst (xs @ (a, u) # ys))" and ok: "heap_ok h"
    and n: "cells h a = Some n"
  shows "segment sd_next sd_reg
      (hput a (sd_next_update (\<lambda>_. Some (brk h)) n)
        (halloc \<lparr>sd_priority = pr, sd_name = nm, sd_next = sd_next n, sd_func = fn\<rparr> h))
      p (xs @ (a, u) # (brk h, (nm, pr, fn)) # ys) None"
proof -
  let ?h2 = "halloc \<lparr>sd_priority = pr, sd_name = nm, sd_next = sd_next n, sd_func = fn\<rparr> h"
  have fresh: "brk h \<noteq> a" "brk h \<notin> fst ` set xs" "brk h \<notin> fst ` set ys"
    using sd_chain.segment_fresh [OF seg ok] by auto
  have "segment sd_next sd_reg h p xs (Some a)" "sd_reg n = u"
    and post: "segment sd_next sd_reg h (sd_next n) ys None"
    using seg n by (auto simp: sd_chain.segment_append)
  then have "segment sd_next sd_reg ?h2 p (xs @ [(a, u)]) (sd_next n)"
    using n fresh by (simp add: sd_chain.segment_append sd_chain.segment_halloc)
  moreover have "segment sd_next sd_reg ?h2 (Some (brk h)) ((brk h, (nm, pr, fn)) # ys) None"
    using post fresh by (simp add: sd_chain.segment_halloc sd_reg_def)
  ultimately show ?thesis
    using dist fresh n by (intro sd_chain.segment_relink) auto
qed

lemma RegisterShutdown_first:
  assumes "app_rep app ars" and "ars = [] \<or> priority < reg_priority (snd (hd ars))"
  shows "\<exists>app'. RegisterShutdown name fn priority app = Some app' \<and>
    app_rep app' ((brk (app_nodes app), (name, priority, fn)) # ars)"
proof -
  let ?b = "brk (app_nodes app)"
  let ?h1 = "halloc \<lparr>sd_priority = priority, sd_name = name, sd_next = app_node app, sd_func = fn\<rparr>
    (app_nodes app)"
  have seg: "segment sd_next sd_reg (app_nodes app) (app_node app) ars None"
    and dist: "distinct (map fst ars)" and ok: "heap_ok (app_nodes app)"
    using assms(1) by (auto simp: app_rep_def)
  have fresh: "?b \<notin> fst ` set ars"
    using seg ok by (rule sd_chain.segment_fresh)
  have "RegisterShutdown name fn priority app = Some (app\<lparr>app_node := Some ?b, app_nodes := ?h1\<rparr>)"
    using seg fresh assms(2)
    by (cases ars) (auto simp: RegisterShutdown_def new_obj_def sd_reg_def)
  moreover have "app_rep (app\<lparr>app_node := Some ?b, app_nodes := ?h1\<rparr>) ((?b, (name, priority, fn)) # ars)"
    using seg dist ok fresh by (auto simp: app_rep_def sd_chain.segment_halloc sd_reg_def)
  ultimately show ?thesis by blast
qed

lemma RegisterShutdown_behind:
  assumes "app_rep app (xs @ (a, u) # ys)"
    and low: "\<forall>x \<in> set (xs @ [(a, u)]). reg_priority (snd x) \<le> priority"
    and high: "ys = [] \<or> priority < reg_priority (snd (hd ys))"
  shows "\<exists>app'. RegisterShutdown name fn priority app = Some app' \<and>
    app_rep app' (xs @ (a, u) # (brk (app_nodes app), (name, priority, fn)) # ys)"
proof -
  let ?h = "app_nodes app" and ?b = "brk (app_nodes app)"
  let ?h1 = "halloc \<lparr>sd_priority = priority, sd_name = name, sd_next = None, sd_func = fn\<rparr> ?h"
  have seg: "segment sd_next sd_reg ?h (app_node app) (xs @ (a, u) # ys) None"
    and dist: "distinct (map fst (xs @ (a, u) # ys))" and ok: "heap_ok ?h"
    using assms(1) by (auto simp: app_rep_def)
  have fresh: "?b \<noteq> a" "?b \<notin> fst ` set xs" "?b \<notin> fst ` set ys"
    using sd_chain.segment_fresh [OF seg ok] by auto
  obtain n where n: "cells ?h a = Some n"
    using seg by (auto simp: sd_chain.segment_append)
  let ?h3 = "hput a (sd_next_update (\<lambda>_. Some ?b) n)
    (halloc \<lparr>sd_priority = priority, sd_name = name, sd_next = sd_next n, sd_func = fn\<rparr> ?h)"
  obtain b0 r0 bs where t: "xs @ [(a, u)] = (b0, r0) # bs" by (cases "xs @ [(a, u)]") auto
  then have split: "xs @ (a, u) # ys = (b0, r0) # bs @ ys" and "fst (last ((b0, r0) # bs)) = a"
    by (metis append_Cons append_Nil append_assoc, metis fst_conv last_snoc)
  have seg0: "segment sd_next sd_reg ?h1 (app_node app) ((b0, r0) # bs @ ys) None"
    unfolding split [symmetric] using seg fresh by (subst sd_chain.segment_halloc) auto
  then have head: "app_node app = Some b0" by simp
  have seg1: "segment sd_next sd_reg ?h1 (Some b0) ((b0, r0) # bs @ ys) None"
    using seg0 by (simp only: head)
  have scan: "register_scan ?h1 priority (Some b0) = Some (Some a)"
    using register_scan_stops [OF seg1, of priority] low high t \<open>fst (last ((b0, r0) # bs)) = a\<close>
    by (metis list.set_intros(2))
  obtain n0 where n0: "cells ?h1 b0 = Some n0" "sd_reg n0 = r0"
    using seg1 by auto
  have "sd_priority n0 \<le> priority"
    using low t n0 by (metis list.set_intros(1) sd_reg_simps(2) snd_conv)
  then have "RegisterShutdown name fn priority app = Some (app\<lparr>app_nodes := ?h3\<rparr>)"
    using head scan n n0 fresh by (simp add: RegisterShutdown_def new_obj_def)
  moreover have "app_rep (app\<lparr>app_nodes := ?h3\<rparr>) (xs @ (a, u) # (?b, (name, priority, fn)) # ys)"
    using link_behind [OF seg dist ok n] dist fresh ok n by (simp add: app_rep_def)
  ultimately show ?thesis by blast
qed

lemma RegisterShutdown_regs:
  assumes "app_regs app rs"
  shows "\<exists>app'. RegisterShutdown name fn priority app = Some app' \<and>
    app_regs app' (spec_register (name, priority, fn) rs)"
proof -
  let ?lo = "\<lambda>x. reg_priority (snd x) \<le> priority"
  obtain ars where rep: "app_rep app ars" and rs: "rs = map snd ars"
    using assms by (auto simp: app_regs_def)
  let ?t = "takeWhile ?lo ars" and ?d = "dropWhile ?lo ars"
  have high: "?d = [] \<or> priority < reg_priority (snd (hd ?d))"
    using hd_dropWhile [of ?lo ars] by fastforce
  have "\<exists>app'. RegisterShutdown name fn priority app = Some app' \<and>
      app_rep app' (?t @ (brk (app_nodes app), (name, priority, fn)) # ?d)"
  proof (cases ?t rule: rev_cases)
    case Nil
    then have "?d = ars" by (metis takeWhile_dropWhile_id append_Nil)
    with Nil RegisterShutdown_first [OF rep] high show ?thesis by simp
  next
    case (snoc xs au)
    then have "ars = xs @ au # ?d"
      by (metis append_Cons append_Nil append_assoc takeWhile_dropWhile_id)
    moreover have "\<forall>x \<in> set (xs @ [au]). ?lo x"
      using snoc by (metis set_takeWhileD)
    ultimately show ?thesis
      using RegisterShutdown_behind [of app xs "fst au" "snd au" ?d] rep high snoc by simp
  qed
  moreover have "map snd (?t @ (brk (app_nodes app), (name, priority, fn)) # ?d) =
      spec_register (name, priority, fn) rs"
    by (simp add: spec_register_def rs takeWhile_map dropWhile_map comp_def)
  ultimately show ?thesis by (metis app_regsI)
qed

lemma register_all_regs:
  assumes "app_regs app rs"
  shows "\<exists>app'. register_all news app = Some app' \<and>
    app_regs app' (foldl (\<lambda>acc r. spec_register r acc) rs news)"
  using assms
proof (induction news arbitrary: app rs)
  case Nil
  then show ?case by simp
next
  case (Cons r news)
  then obtain app1 where "RegisterShutdown (reg_name r) (reg_fn r) (reg_priority r) app = Some app1"
    and "app_regs app1 (spec_register r rs)"
    using RegisterShutdown_regs [of app rs "reg_name r" "reg_fn r" "reg_priority r"] by auto
  with Cons.IH show ?case by simp
qed


section \<open>Stable priority order\<close>

lemma spec_register_mset: "mset (spec_register r rs) = add_mset r (mset rs)"
proof -
  have "mset (spec_register r rs) = add_mset r (mset (takeWhile (\<lambda>x. reg_priority x \<le> reg_priority r) rs @
      dropWhile (\<lambda>x. reg_priority x \<le> reg_priority r) rs))"
    by (simp add: spec_register_def del: takeWhile_dropWhile_id)
  then show ?thesis by (simp only: takeWhile_dropWhile_id)
qed

lemma spec_register_sorted:
  "sorted (map reg_priority rs) \<Longrightarrow> sorted (map reg_priority (spec_register r rs))"
  unfolding spec_register_def by (rule takeWhile_dropWhile_sorted)

lemma spec_register_stable:
  assumes "sorted (map reg_priority rs)"
  shows "filter (\<lambda>x. k = reg_priority x) (spec_register r rs) =
    filter (\<lambda>x. k = reg_priority x) rs @ (if k = reg_priority r then [r] else [])"
proof -
  let ?lo = "\<lambda>x. reg_priority x \<le> reg_priority r"
  let ?t = "takeWhile ?lo rs" and ?d = "dropWhile ?lo rs"
  have "\<forall>x \<in> set ?d. reg_priority r < reg_priority x"
    using sorted_dropWhile_gt [OF assms] by blast
  then have "k = reg_priority r \<Longrightarrow> filter (\<lambda>x. k = reg_priority x) ?d = []"
    by (auto simp: filter_empty_conv)
  moreover have "filter (\<lambda>x. k = reg_priority x) rs =
      filter (\<lambda>x. k = reg_priority x) ?t @ filter (\<lambda>x. k = reg_priority x) ?d"
    by (metis filter_append takeWhile_dropWhile_id)
  ultimately show ?thesis by (auto simp: spec_register_def)
qed

lemma spec_register_fold:
  assumes "sorted (map reg_priority rs)"
  shows "sorted (map reg_priority (foldl (\<lambda>acc r. spec_register r acc) rs news))"
    and "mset (foldl (\<lambda>acc r. spec_register r acc) rs news) = mset rs + mset news"
    and "filter (\<lambda>x. k = reg_priority x) (foldl (\<lambda>acc r. spec_register r acc) rs news) =
      filter (\<lambda>x. k = reg_priority x) (rs @ news)"
  using assms
  by (induction news arbitrary: rs)
    (simp_all add: spec_register_sorted spec_register_mset spec_register_stable)

text \<open>Registering one after the other is sorting by priority, stably.\<close>

lemma register_order: "foldl (\<lambda>acc r. spec_register r acc) [] news = sort_key reg_priority news"
  by (rule properties_for_sort_key [symmetric])
    (simp_all add: spec_register_fold [of "[]", simplified])


section \<open>Stopping\<close>

lemma app_rep_pop:
  assumes "app_rep app ((a, r) # ars)"
  obtains n where "app_node app = Some a" "cells (app_nodes app) a = Some n" "sd_reg n = r"
    "app_rep (app\<lparr>app_node := sd_next n\<rparr>) ars"
  using assms by (auto simp: app_rep_def)

lemma app_rep_logs [simp]: "app_rep (app\<lparr>app_logs := l\<rparr>) ars = app_rep app ars"
  by (simp add: app_rep_def)

lemma app_regs_logs [simp]: "app_regs (app\<lparr>app_logs := l\<rparr>) rs = app_regs app rs"
  by (simp add: app_regs_def)

lemma shutdownAll_rep:
  assumes "app_rep app ars"
  shows "\<exists>r. shutdownAllAndDeleteAllCanceled app w = Some r \<and>
    app_agrees r (spec_stop (map snd ars) w) \<and>
    (\<forall>app' w'. r = Ok (app', w') \<longrightarrow> app_logs app' =
       app_logs app @ map (\<lambda>x. shutdown_log (reg_name (snd x)) (reg_priority (snd x))) ars)"
  using assms
proof (induction ars arbitrary: app w)
  case Nil
  then have "app_node app = None" by (simp add: app_rep_def)
  with Nil show ?case
    by (auto simp: shutdownAllAndDeleteAllCanceled.simps [of app] intro: app_regsI)
next
  case (Cons x ars)
  obtain a u where x: "x = (a, u)" by (cases x)
  with Cons.prems obtain n where n: "app_node app = Some a" "cells (app_nodes app) a = Some n"
    "sd_reg n = u" and rest: "app_rep (app\<lparr>app_node := sd_next n\<rparr>) ars"
    using app_rep_pop by blast
  let ?app1 = "app\<lparr>app_logs := app_logs app @ [shutdown_log (sd_name n) (sd_priority n)],
    app_node := sd_next n\<rparr>"
  have rep1: "app_rep ?app1 ars" using rest by (simp add: app_rep_def)
  show ?case
  proof (cases "sd_func n w")
    case (Panic w')
    with n x Cons.prems show ?thesis
      by (auto simp: shutdownAllAndDeleteAllCanceled.simps [of app] intro!: app_regsI)
  next
    case (Ok w')
    from Cons.IH [OF rep1, of w'] n x Ok show ?thesis
      by (auto simp: shutdownAllAndDeleteAllCanceled.simps [of app])
  qed
qed

lemma shutdownAll_rounds:
  "shutdownAllAndDeleteAllCanceled app w =
     (if app_node app = None then Some (Ok (app, w))
      else case shutdown_one app w of
          Some (Ok (app', w')) \<Rightarrow> shutdownAllAndDeleteAllCanceled app' w'
        | r \<Rightarrow> r)"
  by (subst shutdownAllAndDeleteAllCanceled.simps) (simp add: shutdown_one_def split: option.split outcome.split)

lemma shutdown_one_regs:
  assumes "app_regs app (r # rs)"
  obtains app' where "app_regs app' rs" "shutdown_one app w = Some (case reg_fn r w of
    Panic w' \<Rightarrow> Panic (app, w') | Ok w' \<Rightarrow> Ok (app', w'))"
proof -
  obtain a ars where rep: "app_rep app ((a, r) # ars)" and rs: "rs = map snd ars"
    using assms by (fastforce simp: app_regs_def)
  from rep obtain n where n: "app_node app = Some a" "cells (app_nodes app) a = Some n" "sd_reg n = r"
    and rest: "app_rep (app\<lparr>app_node := sd_next n\<rparr>) ars"
    using app_rep_pop by blast
  let ?app = "app\<lparr>app_logs := app_logs app @ [shutdown_log (sd_name n) (sd_priority n)], app_node := sd_next n\<rparr>"
  have "app_regs ?app rs" using rest rs by (intro app_regsI [of _ ars]) (simp_all add: app_rep_def)
  with that show thesis using n by (auto simp: shutdown_one_def split: outcome.splits)
qed

lemma Stop_regs:
  assumes "app_regs app rs"
  shows "\<exists>r. Stop app w = Some r \<and> app_agrees r (spec_stop rs w) \<and>
    (\<forall>app' w'. r = Ok (app', w') \<longrightarrow> app_logs app' =
       app_logs app @ ''Stop()'' # map (\<lambda>x. shutdown_log (reg_name x) (reg_priority x)) rs)"
proof -
  obtain ars where "app_rep (app\<lparr>app_logs := app_logs app @ [''Stop()'']\<rparr>) ars" "map snd ars = rs"
    using assms by (auto simp: app_regs_def)
  with shutdownAll_rep [OF this(1), of w] show ?thesis
    by (auto simp: Stop_def comp_def)
qed

section \<open>Shutting down one function\<close>

lemma spec_byname_skip:
  assumes "\<forall>x \<in> set xs. reg_name x \<noteq> name"
  shows "spec_byname name (xs @ ys) w =
    map_outcome (map_prod ((@) xs) id) (spec_byname name ys w)"
  using assms
  by (induction xs; cases "spec_byname name ys w") (auto split: outcome.splits)

lemma app_agrees_unlink:
  assumes rep: "app_rep app (pre @ (a, u) # (b, v) # ars)"
    and a: "cells (app_nodes app) a = Some n" and b: "cells (app_nodes app) b = Some m"
  shows "app_regs (app\<lparr>app_nodes := hput a (sd_next_update (\<lambda>_. sd_next m) n) (app_nodes app)\<rparr>)
    (map snd (pre @ (a, u) # ars))"
proof -
  let ?h1 = "hput a (sd_next_update (\<lambda>_. sd_next m) n) (app_nodes app)"
  have seg: "segment sd_next sd_reg (app_nodes app) (app_node app) (pre @ (a, u) # (b, v) # ars) None"
    and dist: "distinct (map fst (pre @ (a, u) # (b, v) # ars))" and ok: "heap_ok (app_nodes app)"
    using rep by (auto simp: app_rep_def)
  have "segment sd_next sd_reg (app_nodes app) (app_node app) (pre @ [(a, u)]) (Some b)"
    and "segment sd_next sd_reg (app_nodes app) (sd_next m) ars None"
    using seg a b by (auto simp: sd_chain.segment_append)
  then have "segment sd_next sd_reg ?h1 (app_node app) (pre @ (a, u) # ars) None"
    using dist a by (intro sd_chain.segment_relink) auto
  with dist ok a have "app_rep (app\<lparr>app_nodes := ?h1\<rparr>) (pre @ (a, u) # ars)"
    by (simp add: app_rep_def)
  then show ?thesis by (rule app_regsI) simp
qed

lemma byname_loop_rep:
  assumes "app_rep app (pre @ (a, u) # ars)"
    and "\<forall>x \<in> set (pre @ [(a, u)]). reg_name (snd x) \<noteq> name"
  shows "\<exists>r. byname_loop name (Some a) app w = Some r \<and>
    app_agrees r (spec_byname name (map snd (pre @ (a, u) # ars)) w)"
  using assms
proof (induction ars arbitrary: pre a u)
  case Nil
  then obtain n where "cells (app_nodes app) a = Some n" "sd_next n = None"
    by (auto simp: app_rep_def sd_chain.segment_append)
  with Nil show ?case
    using spec_byname_skip [of "map snd (pre @ [(a, u)])" name "[]" w]
    by (auto simp: byname_loop.simps [of name "Some a"] intro!: app_regsI)
next
  case (Cons x ars)
  obtain b v where x: "x = (b, v)" by (cases x)
  from Cons.prems(1) x obtain n m where n: "cells (app_nodes app) a = Some n" "sd_next n = Some b"
    and m: "cells (app_nodes app) b = Some m" "sd_reg m = v"
    by (auto simp: app_rep_def sd_chain.segment_append)
  have skip: "spec_byname name (map snd (pre @ (a, u) # x # ars)) w =
      map_outcome (map_prod ((@) (map snd (pre @ [(a, u)]))) id) (spec_byname name (map snd (x # ars)) w)"
    using Cons.prems(2) spec_byname_skip [of "map snd (pre @ [(a, u)])" name "map snd (x # ars)" w]
    by simp
  show ?case
  proof (cases "sd_name m = name")
    case True
    with n m x skip Cons.prems(1) app_agrees_unlink [of app pre a u b v ars n m] show ?thesis
      by (cases "sd_func m w")
        (auto simp: byname_loop.simps [of name "Some a"] intro!: app_regsI)
  next
    case False
    then have "\<forall>y \<in> set ((pre @ [(a, u)]) @ [(b, v)]). reg_name (snd y) \<noteq> name"
      using Cons.prems(2) m by auto
    with Cons.IH [of "pre @ [(a, u)]" b v] Cons.prems(1) x n m False show ?thesis
      by (simp add: byname_loop.simps [of name "Some a"])
  qed
qed

lemma ShutdownByName_regs:
  assumes "app_regs app rs"
  shows "\<exists>r. ShutdownByName name app w = Some r \<and> app_agrees r (spec_byname name rs w)"
proof -
  obtain ars where rep: "app_rep app ars" and rs: "rs = map snd ars"
    using assms by (auto simp: app_regs_def)
  show ?thesis
  proof (cases ars)
    case Nil
    with rep rs assms show ?thesis by (simp add: ShutdownByName_def app_rep_def)
  next
    case (Cons x xs)
    obtain a u where x: "x = (a, u)" by (cases x)
    with rep Cons obtain n where n: "app_node app = Some a" "cells (app_nodes app) a = Some n"
      "sd_reg n = u" and rest: "app_rep (app\<lparr>app_node := sd_next n\<rparr>) xs"
      using app_rep_pop by blast
    show ?thesis
    proof (cases "sd_name n = name")
      case True
      with n x rs Cons rest assms show ?thesis
        by (cases "sd_func n w") (auto simp: ShutdownByName_def intro: app_regsI)
    next
      case False
      with n x Cons rs rep byname_loop_rep [of app "[]" a u xs name w] show ?thesis
        by (auto simp: ShutdownByName_def)
    qed
  qed
qed


section \<open>The registry as a whole\<close>

lemma register_all_sorted:
  "\<exists>app. register_all rs NewApp = Some app \<and> app_regs app (sort_key reg_priority rs)"
  using register_all_regs [OF NewApp_regs, of rs] unfolding register_order .

lemma spec_stop_Ok: "spec_stop rs w = Ok (rs', w') \<Longrightarrow> rs' = []"
  by (induction rs arbitrary: w) (auto split: outcome.splits)

lemma app_regs_Nil: "app_regs app [] \<Longrightarrow> app_node app = None"
  by (auto simp: app_regs_def app_rep_def)

lemma app_agrees_OkD:
  assumes "app_agrees r (Ok (rs, w))" obtains app where "r = Ok (app, w)" "app_regs app rs"
  using assms by (auto elim: app_agrees.elims)

lemma app_agrees_PanicD:
  assumes "app_agrees r (Panic (rs, w))" obtains app where "r = Panic (app, w)" "app_regs app rs"
  using assms by (auto elim: app_agrees.elims)

text \<open>
  C2: after any sequence of registrations on a new application, \<open>Stop\<close> returns; it calls the
  registered functions in the order of their priorities (0 first), functions of equal priority
  in the order of their registration, up to the first that panics, which stays registered with
  those after it; without a panic every function has run, the registry is empty and each run
  is logged.
\<close>

theorem Stop_runs_in_priority_order:
  "\<exists>app r. register_all rs NewApp = Some app \<and> Stop app w = Some r \<and>
     app_agrees r (spec_stop (sort_key reg_priority rs) w) \<and>
     (\<forall>app' w'. r = Ok (app', w') \<longrightarrow> app_node app' = None \<and> app_logs app' = app_logs app @
        ''Stop()'' # map (\<lambda>x. shutdown_log (reg_name x) (reg_priority x)) (sort_key reg_priority rs))"
proof -
  obtain app where app: "register_all rs NewApp = Some app" "app_regs app (sort_key reg_priority rs)"
    using register_all_sorted by blast
  obtain r where r: "Stop app w = Some r" "app_agrees r (spec_stop (sort_key reg_priority rs) w)"
    and logs: "\<forall>app' w'. r = Ok (app', w') \<longrightarrow> app_logs app' = app_logs app @
        ''Stop()'' # map (\<lambda>x. shutdown_log (reg_name x) (reg_priority x)) (sort_key reg_priority rs)"
    using Stop_regs [OF app(2), of w] by blast
  have "app_node app' = None" if "r = Ok (app', w')" for app' w'
    using r(2) that app_regs_Nil [of app'] spec_stop_Ok [of "sort_key reg_priority rs" w]
    by (cases "spec_stop (sort_key reg_priority rs) w") auto
  with app(1) r logs show ?thesis by blast
qed

theorem Stop_runs_in_priority_order_witness:
  "\<exists>app r. register_all [(''logger'', 101, \<lambda>w. Ok (w @ ''L'')), (''server'', 1, \<lambda>w. Ok (w @ ''S''))] NewApp
       = Some app \<and> Stop app [] = Some r \<and> app_agrees r (Ok ([], ''SL''))"
  using Stop_runs_in_priority_order
    [of "[(''logger'', 101, \<lambda>w. Ok (w @ ''L'')), (''server'', 1, \<lambda>w. Ok (w @ ''S''))]" "[]"]
  by fastforce

text \<open>
  C9: \<open>ShutdownByName\<close> returns. A name that is not registered changes nothing and runs
  nothing. Otherwise it runs the first function under the name in registry order and nothing
  else, and removes exactly that entry; when the function panics the registry is unchanged.
\<close>

theorem ShutdownByName_runs_one:
  assumes "app_regs app rs"
  shows "(name \<notin> fst ` set rs \<longrightarrow>
      (\<exists>app'. ShutdownByName name app w = Some (Ok (app', w)) \<and> app_regs app' rs)) \<and>
    (\<forall>before p fn after. rs = before @ (name, p, fn) # after \<and> name \<notin> fst ` set before \<longrightarrow>
      (\<exists>app'. case fn w of
          Ok w' \<Rightarrow> ShutdownByName name app w = Some (Ok (app', w')) \<and> app_regs app' (before @ after)
        | Panic w' \<Rightarrow> ShutdownByName name app w = Some (Panic (app', w')) \<and> app_regs app' rs))"
proof -
  obtain r where r: "ShutdownByName name app w = Some r" "app_agrees r (spec_byname name rs w)"
    using ShutdownByName_regs [OF assms] by blast
  have "spec_byname name rs w = Ok (rs, w)" if "name \<notin> fst ` set rs"
    using that spec_byname_skip [of rs name "[]" w] by force
  moreover have "spec_byname name rs w =
      (case fn w of Ok w' \<Rightarrow> Ok (before @ after, w') | Panic w' \<Rightarrow> Panic (rs, w'))"
    if "rs = before @ (name, p, fn) # after" "name \<notin> fst ` set before" for before p fn after
    using that spec_byname_skip [of before name "(name, p, fn) # after" w]
    by (force split: outcome.splits)
  ultimately show ?thesis
    using r by (auto split: outcome.splits elim!: app_agrees_OkD app_agrees_PanicD)
qed

theorem ShutdownByName_runs_one_witness:
  "\<exists>app app'. register_all [(''a'', 1, \<lambda>w. Ok (w + 1)), (''b'', 0, \<lambda>w. Ok (w * 2))] NewApp = Some app \<and>
     ShutdownByName ''a'' app (5 :: nat) = Some (Ok (app', 6)) \<and>
     app_regs app' [(''b'', 0, \<lambda>w. Ok (w * 2))]"
proof -
  let ?rs = "[(''a'', 1, \<lambda>w. Ok (w + 1)), (''b'', 0, \<lambda>w. Ok (w * 2))] :: nat reg list"
  let ?sorted = "[(''b'', 0, \<lambda>w. Ok (w * 2)), (''a'', 1, \<lambda>w. Ok (w + 1))] :: nat reg list"
  obtain app where app: "register_all ?rs NewApp = Some app" "app_regs app (sort_key reg_priority ?rs)"
    using register_all_sorted by blast
  have "app_regs app ?sorted" using app(2) by simp
  from ShutdownByName_runs_one [OF this, of "''a''" 5] app(1) show ?thesis
    by (fastforce dest: spec [of _ "[(''b'', 0, \<lambda>w. Ok (w * 2))] :: nat reg list"])
qed

end
