(* ===== verification/App_Lifecycle.thy ===== *)
theory App_Lifecycle
  imports App_Shutdown
begin

text \<open>
  The life of a process built on \<^verbatim>\<open>application/application.go\<close>: \<open>Start\<close> installs the signal
  channel (one slot) and a goroutine that waits for one signal and cancels the context; \<open>Run\<close>
  blocks until the context is cancelled; the deferred closure of \<open>RegisterRecovers\<close> turns a
  panic of the main goroutine into a SIGTERM on the same channel; the deferred \<open>Stop\<close> runs the
  shutdown functions. Every \<open>main\<close> under \<^verbatim>\<open>cmd/\<close> defers \<open>cancel\<close>, \<open>Stop\<close> and the recover
  closure in this order, so they run in the opposite order.

  The steps of the main goroutine, of the signal goroutine and of the operating system
  interleave freely: a step relation. A signal that arrives while the slot is full is dropped,
  as \<^verbatim>\<open>signal.Notify\<close> does, and is no step.
\<close>

datatype main_pc = MBody | MRun | MRecover | MStopping | MExit

datatype handler_pc = HWait | HCancel | HStopNotify | HDone

record proc =
  main_at :: main_pc
  handler_at :: handler_pc
  sig_chan :: "os_signal list"
  notifying :: bool
  cancelled :: bool
  stops :: nat

definition started :: proc where
  "started = \<lparr>main_at = MBody, handler_at = HWait, sig_chan = [], notifying = True,
     cancelled = False, stops = 0\<rparr>"

inductive app_step :: "proc \<Rightarrow> proc \<Rightarrow> bool" where
  deliver: "notifying s \<Longrightarrow> sig_chan s = [] \<Longrightarrow> app_step s (s\<lparr>sig_chan := [sg]\<rparr>)"
| receive: "handler_at s = HWait \<Longrightarrow> sig_chan s = sg # rest \<Longrightarrow>
    app_step s (s\<lparr>handler_at := HCancel, sig_chan := rest\<rparr>)"
| handler_cancel: "handler_at s = HCancel \<Longrightarrow>
    app_step s (s\<lparr>handler_at := HStopNotify, cancelled := True\<rparr>)"
| stop_notify: "handler_at s = HStopNotify \<Longrightarrow>
    app_step s (s\<lparr>handler_at := HDone, notifying := False\<rparr>)"
| enter_run: "main_at s = MBody \<Longrightarrow> app_step s (s\<lparr>main_at := MRun\<rparr>)"
| return_early: "main_at s = MBody \<Longrightarrow> app_step s (s\<lparr>main_at := MStopping\<rparr>)"
| body_panics: "main_at s = MBody \<Longrightarrow> app_step s (s\<lparr>main_at := MRecover\<rparr>)"
| recover_sends: "main_at s = MRecover \<Longrightarrow> sig_chan s = [] \<Longrightarrow>
    app_step s (s\<lparr>main_at := MStopping, sig_chan := [SIGTERM]\<rparr>)"
| run_returns: "main_at s = MRun \<Longrightarrow> cancelled s \<Longrightarrow> app_step s (s\<lparr>main_at := MStopping\<rparr>)"
| stop_and_exit: "main_at s = MStopping \<Longrightarrow>
    app_step s (s\<lparr>main_at := MExit, stops := Suc (stops s), cancelled := True\<rparr>)"

abbreviation app_steps :: "proc \<Rightarrow> proc \<Rightarrow> bool" where
  "app_steps \<equiv> app_step\<^sup>*\<^sup>*"

definition recover_blocked :: "proc \<Rightarrow> bool" where
  "recover_blocked s \<longleftrightarrow> main_at s = MRecover \<and> sig_chan s \<noteq> [] \<and> handler_at s \<noteq> HWait"

definition proc_inv :: "proc \<Rightarrow> bool" where
  "proc_inv s \<longleftrightarrow> length (sig_chan s) \<le> 1 \<and>
     (handler_at s \<in> {HStopNotify, HDone} \<longrightarrow> cancelled s) \<and>
     (handler_at s \<noteq> HDone \<longrightarrow> notifying s) \<and>
     stops s = (if main_at s = MExit then 1 else 0)"

lemma proc_inv_step: "app_step s t \<Longrightarrow> proc_inv s \<Longrightarrow> proc_inv t"
  by (induction rule: app_step.induct) (auto simp: proc_inv_def)

lemma proc_inv_started: "proc_inv started"
  by (simp add: proc_inv_def started_def)

interpretation proc_run: run_invariant app_step proc_inv started
  by unfold_locales (fact proc_inv_step proc_inv_started)+

lemma recover_blocked_step: "app_step s t \<Longrightarrow> recover_blocked s \<Longrightarrow> recover_blocked t"
  by (induction rule: app_step.induct) (auto simp: recover_blocked_def)

interpretation recover_trap: persistent app_step recover_blocked
  by unfold_locales (fact recover_blocked_step)

section \<open>Ways out\<close>

abbreviation can_exit :: "proc \<Rightarrow> bool" where
  "can_exit \<equiv> can_reach app_step (\<lambda>s. main_at s = MExit)"

lemmas can_exit_step = can_reach_step [of app_step]

lemma can_exit_stopping: "main_at s = MStopping \<Longrightarrow> can_exit s"
  by (rule can_exit_step [OF app_step.stop_and_exit]) (auto intro: can_reach_now)

lemma can_exit_run_cancelled: "main_at s = MRun \<Longrightarrow> cancelled s \<Longrightarrow> can_exit s"
  by (rule can_exit_step [OF app_step.run_returns]) (auto intro: can_exit_stopping)

lemma can_exit_run_received: "main_at s = MRun \<Longrightarrow> handler_at s = HCancel \<Longrightarrow> can_exit s"
  by (rule can_exit_step [OF app_step.handler_cancel]) (auto intro: can_exit_run_cancelled)

lemma can_exit_run_pending:
  "main_at s = MRun \<Longrightarrow> handler_at s = HWait \<Longrightarrow> sig_chan s = sg # rest \<Longrightarrow> can_exit s"
  by (rule can_exit_step [OF app_step.receive]) (auto intro: can_exit_run_received)

lemma can_exit_run: 
  assumes "proc_inv s" "main_at s = MRun" shows "can_exit s"
proof (cases "handler_at s")
  case HWait
  show ?thesis
  proof (cases "sig_chan s")
    case Nil
    have "app_step s (s\<lparr>sig_chan := [SIGTERM]\<rparr>)"
      using Nil HWait assms by (intro app_step.deliver) (auto simp: proc_inv_def)
    then show ?thesis
      by (rule can_exit_step) (use HWait assms in \<open>auto intro: can_exit_run_pending\<close>)
  qed (use HWait assms in \<open>auto intro: can_exit_run_pending\<close>)
qed (use assms in \<open>auto intro: can_exit_run_received can_exit_run_cancelled simp: proc_inv_def\<close>)

lemma can_exit_recover_free:
  "main_at s = MRecover \<Longrightarrow> sig_chan s = [] \<Longrightarrow> can_exit s"
  by (rule can_exit_step [OF app_step.recover_sends]) (auto intro: can_exit_stopping)

lemma can_exit_recover_waiting:
  assumes "main_at s = MRecover" "handler_at s = HWait" "proc_inv s" "sig_chan s \<noteq> []"
  shows "can_exit s"
proof -
  obtain sg where "sig_chan s = [sg]"
    using assms(3,4) by (cases "sig_chan s") (auto simp: proc_inv_def)
  with assms(2) have "app_step s (s\<lparr>handler_at := HCancel, sig_chan := []\<rparr>)"
    by (rule app_step.receive)
  then show ?thesis
    by (rule can_exit_step) (simp add: assms(1) can_exit_recover_free)
qed

text \<open>
  In every state the process can reach, \<open>Stop\<close> has run at most once, and the process can
  still run \<open>Stop\<close> and exit, with one exception: when the main goroutine has panicked while
  the signal goroutine has already taken a signal and a second one fills the channel, the
  deferred recover closure blocks on the channel for ever and \<open>Stop\<close> is never reached.
\<close>

lemma process_can_exit_unless_recover_blocks:
  assumes "app_steps started s"
  shows "stops s = (if main_at s = MExit then 1 else 0) \<and>
    (if recover_blocked s then \<forall>t. app_steps s t \<longrightarrow> main_at t = MRecover else can_exit s)"
proof -
  have inv: "proc_inv s" using assms by (rule proc_run.reachable)
  have "can_exit s" if "\<not> recover_blocked s"
  proof (cases "main_at s")
    case MBody
    then show ?thesis
      by (rule can_exit_step [OF app_step.return_early]) (auto intro: can_exit_stopping)
  next
    case MRecover
    with that inv show ?thesis
      by (cases "sig_chan s = []")
        (auto simp: recover_blocked_def intro: can_exit_recover_free can_exit_recover_waiting)
  next
    case MExit
    then show ?thesis by (rule can_reach_now)
  qed (auto intro: can_exit_run can_exit_stopping inv)
  moreover have "main_at t = MRecover" if "recover_blocked s" "app_steps s t" for t
    using recover_trap.kept_steps [OF that(2,1)] by (simp add: recover_blocked_def)
  ultimately show ?thesis using inv by (simp add: proc_inv_def)
qed

text \<open>The exception is real: two signals followed by a panic of the main goroutine.\<close>

definition double_signal_panic :: proc where
  "double_signal_panic = \<lparr>main_at = MRecover, handler_at = HDone, sig_chan = [SIGINT],
     notifying = False, cancelled = True, stops = 0\<rparr>"

lemma double_signal_panic_reachable: "app_steps started double_signal_panic"
proof -
  let ?s0 = started
  let ?s1 = "?s0\<lparr>sig_chan := [SIGTERM]\<rparr>"
  let ?s2 = "?s1\<lparr>handler_at := HCancel, sig_chan := []\<rparr>"
  let ?s3 = "?s2\<lparr>sig_chan := [SIGINT]\<rparr>"
  let ?s4 = "?s3\<lparr>handler_at := HStopNotify, cancelled := True\<rparr>"
  let ?s5 = "?s4\<lparr>handler_at := HDone, notifying := False\<rparr>"
  have "app_step ?s0 ?s1" "app_step ?s1 ?s2" "app_step ?s2 ?s3" "app_step ?s3 ?s4" "app_step ?s4 ?s5"
    by (rule app_step.deliver app_step.receive app_step.handler_cancel app_step.stop_notify;
        simp add: started_def)+
  moreover have "app_step ?s5 double_signal_panic"
    using app_step.body_panics [of ?s5] by (simp add: started_def double_signal_panic_def)
  ultimately show ?thesis
    by (meson converse_rtranclp_into_rtranclp rtranclp.rtrancl_refl)
qed

lemma double_signal_panic_is_final:
  "app_steps started double_signal_panic \<and> recover_blocked double_signal_panic \<and>
   main_at ` {t. app_steps double_signal_panic t} \<subseteq> {MRecover}"
proof -
  have "recover_blocked double_signal_panic"
    by (simp add: recover_blocked_def double_signal_panic_def)
  with process_can_exit_unless_recover_blocks [OF double_signal_panic_reachable]
    double_signal_panic_reachable show ?thesis by auto
qed

end
