(* ===== verification/Service_Container.thy ===== *)
theory Service_Container
  imports Prelude
begin

text \<open>
  The service locator of \<^verbatim>\<open>internal/container.go\<close>. A stored value is an \<open>any\<close>: \<open>nil\<close>, an
  object that implements the interface \<open>Containerized\<close>, or a value that does not. The interface
  has no implementation in the repository, so \<open>SetServiceLocator\<close> is a parameter: what the
  object does with its locator, as a change of the rest of the program \<open>'s\<close>.
  \<^verbatim>\<open>log.Fatalf\<close> ends the process: \<open>Inl\<close> of the message.
\<close>

datatype ('o, 'p) any = AnyNil | Cont 'o | Plain 'p

record ('o, 'p) Container =
  container_map :: "string \<rightharpoonup> ('o, 'p) any"
  requirements :: "string \<rightharpoonup> ('o, 'p) any"

type_synonym 'a or_fatal = "string + 'a"

definition not_found :: "string \<Rightarrow> string \<Rightarrow> string" where
  "not_found key suffix = ''Service '' @ key @ '' not found'' @ suffix"

definition setRequirements ::
  "string \<Rightarrow> ('o, 'p) any \<Rightarrow> ('o, 'p) Container \<Rightarrow> ('o, 'p) Container or_fatal" where
  "setRequirements key value c =
     (if requirements c key \<noteq> None then Inl (not_found key '' in requirements'')
      else Inr (c\<lparr>requirements := (requirements c)(key \<mapsto> value)\<rparr>))"

fun init_requirements ::
  "(string \<times> ('o, 'p) any) list \<Rightarrow> ('o, 'p) Container \<Rightarrow> ('o, 'p) Container or_fatal" where
  "init_requirements [] c = Inr c"
| "init_requirements ((name, service) # rest) c =
     (case setRequirements name service c of Inl m \<Rightarrow> Inl m | Inr c1 \<Rightarrow> init_requirements rest c1)"

definition NewContainer :: "(string \<times> ('o, 'p) any) list \<Rightarrow> ('o, 'p) Container or_fatal" where
  "NewContainer serviceInit =
     init_requirements serviceInit \<lparr>container_map = Map.empty, requirements = Map.empty\<rparr>"

definition cont_Get :: "string \<Rightarrow> ('o, 'p) Container \<Rightarrow> ('o, 'p) any" where
  "cont_Get key c = (case container_map c key of None \<Rightarrow> AnyNil | Some v \<Rightarrow> v)"

definition setForLocator ::
  "string \<Rightarrow> ('o, 'p) any \<Rightarrow> ('o, 'p) Container \<Rightarrow> ('o, 'p) Container or_fatal" where
  "setForLocator key cnt c =
     (if container_map c key \<noteq> None then Inl (not_found key '' in container'')
      else Inr (c\<lparr>container_map := (container_map c)(key \<mapsto> cnt)\<rparr>))"

definition getForLocator :: "string \<Rightarrow> ('o, 'p) Container \<Rightarrow> ('o, 'p) any or_fatal" where
  "getForLocator key c =
     (case container_map c key of Some value \<Rightarrow> Inr value
      | None \<Rightarrow> (case requirements c key of Some value \<Rightarrow> Inr value
          | None \<Rightarrow> Inl (not_found key [])))"

fun locator_loop ::
  "string list \<Rightarrow> ('o, 'p) Container \<Rightarrow> ('o, 'p) Container \<Rightarrow> ('o, 'p) Container or_fatal" where
  "locator_loop [] c localContainer = Inr localContainer"
| "locator_loop (serviceName # services) c localContainer =
     (case getForLocator serviceName c of Inl m \<Rightarrow> Inl m
      | Inr v \<Rightarrow> (case setForLocator serviceName v localContainer of Inl m \<Rightarrow> Inl m
          | Inr l \<Rightarrow> locator_loop services c l))"

definition NewServiceLocator ::
  "string list \<Rightarrow> ('o, 'p) Container \<Rightarrow> ('o, 'p) Container or_fatal" where
  "NewServiceLocator services c =
     (case NewContainer [] of Inl m \<Rightarrow> Inl m | Inr l \<Rightarrow> locator_loop services c l)"

fun allServicesAreAvailable :: "string list \<Rightarrow> ('o, 'p) Container \<Rightarrow> bool \<times> string" where
  "allServicesAreAvailable [] c = (True, [])"
| "allServicesAreAvailable (service # services) c =
     (if container_map c service = None \<and> requirements c service = None then (False, service)
      else allServicesAreAvailable services c)"

text \<open>
  \<open>cont_Set\<close>: the value stored under the key is the result of the type assertion, which is
  \<open>nil\<close> when the assertion fails.
\<close>

definition cont_Set ::
  "('o \<Rightarrow> ('o, 'p) Container \<Rightarrow> 's \<Rightarrow> 's) \<Rightarrow> string \<Rightarrow> ('o, 'p) any \<Rightarrow> string list \<Rightarrow>
   ('o, 'p) Container \<times> 's \<Rightarrow> (('o, 'p) Container \<times> 's) or_fatal" where
  "cont_Set SetServiceLocator key cnt services = (\<lambda>(c, s).
     if container_map c key \<noteq> None then Inl (not_found key '' in container'')
     else (case cnt of
         Cont o1 \<Rightarrow>
           (let (is, service) = allServicesAreAvailable services c in
            if is
            then (case NewServiceLocator services c of Inl m \<Rightarrow> Inl m
              | Inr newLocator \<Rightarrow>
                  Inr (c\<lparr>container_map := (container_map c)(key \<mapsto> Cont o1)\<rparr>,
                       SetServiceLocator o1 newLocator s))
            else Inl (not_found service []))
       | _ \<Rightarrow> Inr (c\<lparr>container_map := (container_map c)(key \<mapsto> AnyNil)\<rparr>, s)))"

section \<open>Lemmas\<close>

definition available :: "('o, 'p) Container \<Rightarrow> string \<rightharpoonup> ('o, 'p) any" where
  "available c = requirements c ++ container_map c"

lemma available_None: "available c k = None \<longleftrightarrow> container_map c k = None \<and> requirements c k = None"
  by (auto simp: available_def map_add_def split: option.splits)

lemma getForLocator_available:
  "getForLocator key c = (case available c key of None \<Rightarrow> Inl (not_found key []) | Some v \<Rightarrow> Inr v)"
  by (auto simp: getForLocator_def available_def map_add_def split: option.splits)

lemma allServices_available: "fst (allServicesAreAvailable services c) \<longleftrightarrow> set services \<subseteq> dom (available c)"
  by (induction services) (auto simp: available_None domIff)

lemma locator_loop_distinct:
  assumes "set services \<subseteq> dom (available c)" "distinct services"
    and "set services \<inter> dom (container_map l) = {}"
  shows "locator_loop services c l =
    Inr (l\<lparr>container_map := container_map l ++ (available c |` set services)\<rparr>)"
  using assms
proof (induction services arbitrary: l)
  case Nil
  then show ?case by simp
next
  case (Cons k services)
  then obtain v where v: "available c k = Some v" by auto
  have "container_map l k = None" using Cons.prems by auto
  then have "setForLocator k v l = Inr (l\<lparr>container_map := (container_map l)(k \<mapsto> v)\<rparr>)"
    by (simp add: setForLocator_def)
  moreover have "(container_map l)(k \<mapsto> v) ++ (available c |` set services) =
      container_map l ++ (available c |` set (k # services))"
    using v Cons.prems by (auto simp: fun_eq_iff map_add_def restrict_map_def split: option.splits)
  ultimately show ?case
    using Cons v by (auto simp: getForLocator_available)
qed

lemma locator_loop_repeated:
  assumes "set services \<subseteq> dom (available c)"
    and "\<not> (distinct services \<and> set services \<inter> dom (container_map l) = {})"
  shows "\<exists>m. locator_loop services c l = Inl m"
  using assms
proof (induction services arbitrary: l)
  case Nil
  then show ?case by simp
next
  case (Cons k services)
  then obtain v where v: "available c k = Some v" by auto
  show ?case
  proof (cases "container_map l k")
    case (Some w)
    with v show ?thesis by (simp add: getForLocator_available setForLocator_def)
  next
    case None
    with Cons.prems have "\<not> (distinct services \<and>
        set services \<inter> dom (container_map (l\<lparr>container_map := (container_map l)(k \<mapsto> v)\<rparr>)) = {})"
      by auto
    with Cons None v show ?thesis
      by (simp add: getForLocator_available setForLocator_def)
  qed
qed

lemma NewServiceLocator_ok:
  "set services \<subseteq> dom (available c) \<Longrightarrow> distinct services \<Longrightarrow>
     NewServiceLocator services c =
       Inr \<lparr>container_map = available c |` set services, requirements = Map.empty\<rparr>"
  by (simp add: NewServiceLocator_def NewContainer_def locator_loop_distinct)

lemma NewServiceLocator_repeated:
  "set services \<subseteq> dom (available c) \<Longrightarrow> \<not> distinct services \<Longrightarrow>
     \<exists>m. NewServiceLocator services c = Inl m"
  by (simp add: NewServiceLocator_def NewContainer_def locator_loop_repeated)

text \<open>The three ways \<open>Set\<close> can end for an object, and the one for any other value.\<close>

lemma cont_Set_duplicate:
  "key \<in> dom (container_map c) \<Longrightarrow>
     cont_Set ssl key cnt services (c, s) = Inl (not_found key '' in container'')"
  by (auto simp: cont_Set_def)

lemma cont_Set_unavailable:
  assumes "key \<notin> dom (container_map c)" "\<not> set services \<subseteq> dom (available c)"
  shows "\<exists>m. cont_Set ssl key (Cont o1) services (c, s) = Inl m"
  using assms allServices_available [of services c]
  by (auto simp: cont_Set_def split: prod.splits)

lemma cont_Set_object:
  assumes "key \<notin> dom (container_map c)" "set services \<subseteq> dom (available c)" "distinct services"
  shows "cont_Set ssl key (Cont o1) services (c, s) =
    Inr (c\<lparr>container_map := (container_map c)(key \<mapsto> Cont o1)\<rparr>,
         ssl o1 \<lparr>container_map = available c |` set services, requirements = Map.empty\<rparr> s)"
  using assms allServices_available [of services c] NewServiceLocator_ok [OF assms(2,3)]
  by (auto simp: cont_Set_def split: prod.splits)

lemma cont_Set_repeated:
  assumes "key \<notin> dom (container_map c)" "set services \<subseteq> dom (available c)" "\<not> distinct services"
  shows "\<exists>m. cont_Set ssl key (Cont o1) services (c, s) = Inl m"
  using assms allServices_available [of services c] NewServiceLocator_repeated [OF assms(2,3)]
  by (auto simp: cont_Set_def split: prod.splits)

text \<open>A value that does not implement \<open>Containerized\<close> is stored as \<open>nil\<close>.\<close>

lemma Set_plain_value_stores_nil:
  assumes "key \<notin> dom (container_map c)"
  shows "\<exists>c'. cont_Set ssl key (Plain p) services (c, s) = Inr (c', s) \<and> cont_Get key c' = AnyNil \<and>
    key \<in> dom (container_map c')"
  using assms by (auto simp: cont_Set_def cont_Get_def)

text \<open>
  C16: \<open>Set\<close> of an object succeeds exactly when the key is new and the named services are
  distinct and each is in the container or in the requirements; the object then receives a
  locator that holds exactly the named services, the container's value before the
  requirement's, \<open>Get\<close> returns the object and every other entry is unchanged. \<open>Set\<close> of a value
  that does not implement \<open>Containerized\<close> under a new key succeeds whatever services are named,
  available or not, and stores \<open>nil\<close>: \<open>Get\<close> of the key returns \<open>nil\<close>, the value is lost.
\<close>

theorem Set_object_iff:
  "(case cont_Set ssl key (Cont o1) services (c, s) of
      Inr (c', s') \<Rightarrow>
        key \<notin> dom (container_map c) \<and> set services \<subseteq> dom (available c) \<and> distinct services \<and>
        s' = ssl o1 \<lparr>container_map = available c |` set services, requirements = Map.empty\<rparr> s \<and>
        cont_Get key c' = Cont o1 \<and> requirements c' = requirements c \<and>
        (\<forall>k. k \<noteq> key \<longrightarrow> cont_Get k c' = cont_Get k c)
    | Inl m \<Rightarrow>
        key \<in> dom (container_map c) \<or> \<not> set services \<subseteq> dom (available c) \<or> \<not> distinct services) \<and>
   (key \<notin> dom (container_map c) \<longrightarrow>
     (\<exists>c'. cont_Set ssl key (Plain p) services (c, s) = Inr (c', s) \<and> cont_Get key c' = AnyNil \<and>
        key \<in> dom (container_map c')))"
proof (cases "key \<in> dom (container_map c)")
  case True
  then show ?thesis by (simp add: cont_Set_duplicate)
next
  case False
  consider "\<not> set services \<subseteq> dom (available c)"
    | "set services \<subseteq> dom (available c)" "distinct services"
    | "set services \<subseteq> dom (available c)" "\<not> distinct services"
    by blast
  then show ?thesis
  proof cases
    case 1
    with Set_plain_value_stores_nil [OF False, of ssl p services s]
      cont_Set_unavailable [OF False 1, of ssl o1 s] show ?thesis by auto
  next
    case 2
    with False Set_plain_value_stores_nil [OF False, of ssl p services s] show ?thesis
      by (simp add: cont_Set_object cont_Get_def)
  next
    case 3
    with Set_plain_value_stores_nil [OF False, of ssl p services s] cont_Set_repeated [OF False 3, of ssl o1 s] show ?thesis by auto
  qed
qed

theorem Set_object_iff_witness:
  "cont_Set (\<lambda>ob l s. s @ [(ob, cont_Get ''db'' l)]) ''srv'' (Cont 7) [''db'']
     (\<lparr>container_map = Map.empty, requirements = [''db'' \<mapsto> Plain True]\<rparr>, []) =
   Inr (\<lparr>container_map = [''srv'' \<mapsto> Cont (7 :: nat)], requirements = [''db'' \<mapsto> Plain True]\<rparr>,
     [(7, Plain True)])"
  using Set_object_iff [where ssl = "\<lambda>ob l s. s @ [(ob, cont_Get ''db'' l)]" and key = "''srv''"
      and ?o1.0 = "7 :: nat" and p = True and services = "[''db'']" and s = "[]"
      and c = "\<lparr>container_map = Map.empty, requirements = [''db'' \<mapsto> Plain True]\<rparr>"]
  by (simp add: cont_Set_def NewServiceLocator_def NewContainer_def getForLocator_def setForLocator_def
      cont_Get_def)

end
