(* ===== verification/Mem_Store.thy ===== *)
theory Mem_Store
  imports Prelude
begin

text \<open>
  The key-value store of \<^verbatim>\<open>pkg/map_store.go\<close> and the commands of \<^verbatim>\<open>pkg/worker_pool.go\<close> that
  act on it. Every store method holds the store's mutex, so it is one atomic function; a
  missing key reads as the empty string, Go's zero value. A command is built by \<open>Factory\<close> and
  applied through the interface \<open>Store\<close>, which is a locale here; \<open>MemStore\<close> interprets it.
\<close>

section \<open>The store\<close>

record MemStore =
  store_data :: "string \<rightharpoonup> string"

definition NewMemStore :: MemStore where
  "NewMemStore = \<lparr>store_data = Map.empty\<rparr>"

definition store_Put :: "string \<Rightarrow> string \<Rightarrow> MemStore \<Rightarrow> MemStore" where
  "store_Put key value m = m\<lparr>store_data := (store_data m)(key \<mapsto> value)\<rparr>"

definition store_Get :: "string \<Rightarrow> MemStore \<Rightarrow> string" where
  "store_Get key m = (case store_data m key of None \<Rightarrow> [] | Some v \<Rightarrow> v)"

definition store_Del :: "string \<Rightarrow> MemStore \<Rightarrow> MemStore" where
  "store_Del key m = m\<lparr>store_data := (store_data m)(key := None)\<rparr>"

section \<open>Commands\<close>

datatype Command =
    PutCommand (GetKey: string) (GetValue: string)
  | GetCommand (GetKey: string) (GetValue: string)
  | DelCommand (GetKey: string) (GetValue: string)

text \<open>\<open>command\<close> is of an integer type; only its value matters.\<close>

definition Factory :: "int \<Rightarrow> string \<Rightarrow> string \<Rightarrow> Command" where
  "Factory command key value =
     (if command = 0 then PutCommand key value
      else if command = 1 then GetCommand key value
      else if command = 2 then DelCommand key value
      else PutCommand key value)"

text \<open>The method \<open>Apply\<close> of a command, over any store, with the line it prints.\<close>

fun cmd_Apply ::
  "(string \<Rightarrow> string \<Rightarrow> 's \<Rightarrow> 's) \<Rightarrow> (string \<Rightarrow> 's \<Rightarrow> string) \<Rightarrow> (string \<Rightarrow> 's \<Rightarrow> 's) \<Rightarrow>
   Command \<Rightarrow> string \<Rightarrow> string \<Rightarrow> 's \<Rightarrow> 's \<times> string" where
  "cmd_Apply put get del (PutCommand _ _) key value s =
     (put key value s, ''put '' @ key @ '' : '' @ value)"
| "cmd_Apply put get del (GetCommand _ _) key value s =
     (s, ''get '' @ key @ '' : '' @ get key s)"
| "cmd_Apply put get del (DelCommand _ _) key value s =
     (del key s, ''del '' @ key)"

text \<open>What the handler of \<^verbatim>\<open>cmd/custom_worker_pool/main.go\<close> does with a command.\<close>

definition apply_handler ::
  "(string \<Rightarrow> string \<Rightarrow> 's \<Rightarrow> 's) \<Rightarrow> (string \<Rightarrow> 's \<Rightarrow> string) \<Rightarrow> (string \<Rightarrow> 's \<Rightarrow> 's) \<Rightarrow>
   Command \<Rightarrow> 's \<times> string list \<Rightarrow> ('s \<times> string list) outcome" where
  "apply_handler put get del cmd = (\<lambda>(s, out).
     let (s', line) = cmd_Apply put get del cmd (GetKey cmd) (GetValue cmd) s in Ok (s', out @ [line]))"

fun run_commands ::
  "(string \<Rightarrow> string \<Rightarrow> 's \<Rightarrow> 's) \<Rightarrow> (string \<Rightarrow> 's \<Rightarrow> string) \<Rightarrow> (string \<Rightarrow> 's \<Rightarrow> 's) \<Rightarrow>
   Command list \<Rightarrow> 's \<Rightarrow> 's" where
  "run_commands put get del [] s = s"
| "run_commands put get del (c # cs) s =
     run_commands put get del cs (fst (cmd_Apply put get del c (GetKey c) (GetValue c) s))"

text \<open>The value a key ends up with: the last write or delete of it decides.\<close>

fun last_write :: "Command list \<Rightarrow> string \<Rightarrow> string \<Rightarrow> string" where
  "last_write [] k v = v"
| "last_write (PutCommand k' v' # cs) k v = last_write cs k (if k' = k then v' else v)"
| "last_write (GetCommand _ _ # cs) k v = last_write cs k v"
| "last_write (DelCommand k' _ # cs) k v = last_write cs k (if k' = k then [] else v)"

section \<open>The interface\<close>

locale kv_store =
  fixes put :: "string \<Rightarrow> string \<Rightarrow> 's \<Rightarrow> 's"
    and get :: "string \<Rightarrow> 's \<Rightarrow> string"
    and del :: "string \<Rightarrow> 's \<Rightarrow> 's"
  assumes get_put: "get k (put k' v s) = (if k = k' then v else get k s)"
    and get_del: "get k (del k' s) = (if k = k' then [] else get k s)"
begin

lemma get_run_commands: "get k (run_commands put get del cs s) = last_write cs k (get k s)"
proof (induction cs arbitrary: s)
  case (Cons c cs)
  then show ?case by (cases c) (simp_all add: get_put get_del)
qed simp

text \<open>Commands on different keys commute, as far as reads can tell.\<close>

lemma get_commute:
  assumes "GetKey c \<noteq> GetKey d"
  shows "get k (run_commands put get del (c # d # cs) s) = get k (run_commands put get del (d # c # cs) s)"
  using assms by (cases c; cases d) (auto simp: get_run_commands get_put get_del)

end

interpretation mem_store: kv_store store_Put store_Get store_Del
  by unfold_locales (auto simp: store_Put_def store_Get_def store_Del_def)

text \<open>
  After any sequence of commands on a new store, reading a key gives the value of the last
  put or delete of that key, and the empty string if there is none; reads change nothing.
\<close>

lemma MemStore_last_write_wins:
  "store_Get k (run_commands store_Put store_Get store_Del cs NewMemStore) = last_write cs k []"
  using mem_store.get_run_commands [of k cs NewMemStore]
  by (simp add: store_Get_def NewMemStore_def)

end
