(* ===== verification/Worker_Pool.thy ===== *)
theory Worker_Pool
  imports Mem_Store "HOL-Library.Multiset"
begin

text \<open>
  The command pool of \<^verbatim>\<open>pkg/worker_pool.go\<close>: a buffered channel of commands, as many workers
  as the channel has slots, and the operations \<open>Run\<close>, \<open>Apply\<close>, \<open>Stop\<close> and \<open>Reconnect\<close>, called
  one after the other by one goroutine, as \<^verbatim>\<open>cmd/custom_worker_pool/main.go\<close> does. The workers
  run concurrently with it and with each other: \<open>pool_step\<close> is a step relation in which any
  goroutine may move next. A step is one access to the shared state (a channel operation, an
  atomic load or store, the wait group); the handler is one step, since each command does one
  operation on a store that locks itself. The handler may panic.

  \<open>accepted\<close> and \<open>executed\<close> record which commands were sent and which were given to the
  handler; \<open>leaked\<close> counts the handler panics since the last successful stop. They are not
  read by any step.
\<close>

section \<open>State\<close>

text \<open>Where a worker is in the loop of \<open>Run\<close>.\<close>

datatype worker =
    WTop                \<comment> \<open>about to load the channel\<close>
  | WFrozen             \<comment> \<open>the channel was nil\<close>
  | is_WSelect: WSelect nat         \<comment> \<open>in the select on this channel\<close>
  | WGot Command        \<comment> \<open>received, before \<open>inWork.Add(1)\<close>\<close>
  | WHandle Command     \<comment> \<open>in the handler\<close>
  | WReturned Command   \<comment> \<open>handler returned, before \<open>inWork.Add(-1)\<close>\<close>
  | WDefer              \<comment> \<open>leaving, before \<open>wg.Done()\<close>\<close>
  | WExit

text \<open>Where the calling goroutine is: outside the pool, in \<open>Apply\<close>'s send, or in \<open>Stop\<close>.\<close>

datatype control =
    CIdle
  | CSend Command nat
  | SLoop | SPoll nat | SLen nat | SCancel nat | SClose nat | SNil nat | SWait

record 'st pool =
  pool_size :: nat
  running :: bool
  task :: "nat option"
  caps :: "nat \<Rightarrow> nat"
  bufs :: "nat \<Rightarrow> Command list"
  closed :: "nat \<Rightarrow> bool"
  next_chan :: nat
  pool_ctx :: "bool option"   \<comment> \<open>nil, or whether it was cancelled\<close>
  parent_done :: bool
  inWork :: int
  wg :: int
  workers :: "worker list"
  control :: control
  store :: "'st"
  rets :: "unit result list"
  accepted :: "Command list"
  executed :: "Command list"
  leaked :: nat

definition NewPoolStore :: "'st \<Rightarrow> nat \<Rightarrow> 'st pool" where
  "NewPoolStore st n = \<lparr>pool_size = n, running = False, task = Some 0,
     caps = (\<lambda>_. 0)(0 := n), bufs = (\<lambda>_. []), closed = (\<lambda>_. False), next_chan = 1,
     pool_ctx = Some False, parent_done = False, inWork = 0, wg = 0, workers = [],
     control = CIdle, store = st, rets = [], accepted = [], executed = [], leaked = 0\<rparr>"

text \<open>The pool's context is derived from the parent's: it is done when either is cancelled.\<close>

definition ctx_done :: "'st pool \<Rightarrow> bool" where
  "ctx_done s \<longleftrightarrow> pool_ctx s = Some True \<or> parent_done s"

section \<open>The calls of the pool's user\<close>

text \<open>\<open>Run\<close>: one worker per slot of the channel that is current now (none for a nil channel).\<close>

definition pool_Run :: "'st pool \<Rightarrow> 'st pool" where
  "pool_Run s =
     (if running s then s
      else let n = (case task s of None \<Rightarrow> 0 | Some c \<Rightarrow> caps s c)
           in s\<lparr>wg := wg s + int n, workers := workers s @ replicate n WTop, running := True\<rparr>)"

definition pool_Reconnect :: "'st pool \<Rightarrow> 'st pool" where
  "pool_Reconnect s =
     (if running s then s\<lparr>rets := rets s @ [Inl ''pool is already running'']\<rparr>
      else let s1 = s\<lparr>pool_ctx := Some False, task := Some (next_chan s),
               caps := (caps s)(next_chan s := pool_size s),
               bufs := (bufs s)(next_chan s := []), closed := (closed s)(next_chan s := False),
               next_chan := Suc (next_chan s)\<rparr>;
             s2 = pool_Run s1
           in s2\<lparr>rets := rets s2 @ [Inr ()]\<rparr>)"

text \<open>\<open>Apply\<close> up to its blocking send: the guards in the order of the code.\<close>

definition pool_Apply :: "int \<Rightarrow> string \<Rightarrow> string \<Rightarrow> 'st pool \<Rightarrow> 'st pool" where
  "pool_Apply command key value s =
     (if \<not> running s then s\<lparr>rets := rets s @ [Inl ''pool is not running'']\<rparr>
      else (case task s of
          None \<Rightarrow> s\<lparr>rets := rets s @ [Inl ''pool is stopped (frozen)'']\<rparr>
        | Some c \<Rightarrow>
            if ctx_done s then s\<lparr>rets := rets s @ [Inl ''context canceled'']\<rparr>
            else s\<lparr>control := CSend (Factory command key value) c\<rparr>))"

definition pool_Stop_enter :: "'st pool \<Rightarrow> 'st pool" where
  "pool_Stop_enter s =
     (if \<not> running s then s\<lparr>rets := rets s @ [Inl ''pool is not running'']\<rparr>
      else s\<lparr>control := SLoop\<rparr>)"

inductive control_step :: "'st pool \<Rightarrow> 'st pool \<Rightarrow> bool" where
  call_run: "control s = CIdle \<Longrightarrow> control_step s (pool_Run s)"
| call_reconnect: "control s = CIdle \<Longrightarrow> control_step s (pool_Reconnect s)"
| call_apply: "control s = CIdle \<Longrightarrow> control_step s (pool_Apply command key value s)"
| send: "control s = CSend x c \<Longrightarrow> length (bufs s c) < caps s c \<Longrightarrow> \<not> closed s c \<Longrightarrow>
    control_step s (s\<lparr>control := CIdle, bufs := (bufs s)(c := bufs s c @ [x]),
      accepted := accepted s @ [x], rets := rets s @ [Inr ()]\<rparr>)"
| call_stop: "control s = CIdle \<Longrightarrow> control_step s (pool_Stop_enter s)"
| stop_nil: "control s = SLoop \<Longrightarrow> task s = None \<Longrightarrow>
    control_step s (s\<lparr>control := CIdle, rets := rets s @ [Inl ''pool is stopped'']\<rparr>)"
| stop_load: "control s = SLoop \<Longrightarrow> task s = Some c \<Longrightarrow> control_step s (s\<lparr>control := SPoll c\<rparr>)"
| stop_busy: "control s = SPoll c \<Longrightarrow> inWork s \<noteq> 0 \<Longrightarrow> control_step s (s\<lparr>control := SLoop\<rparr>)"
| stop_idle: "control s = SPoll c \<Longrightarrow> inWork s = 0 \<Longrightarrow> control_step s (s\<lparr>control := SLen c\<rparr>)"
| stop_queued: "control s = SLen c \<Longrightarrow> bufs s c \<noteq> [] \<Longrightarrow> control_step s (s\<lparr>control := SLoop\<rparr>)"
| stop_empty: "control s = SLen c \<Longrightarrow> bufs s c = [] \<Longrightarrow> control_step s (s\<lparr>control := SCancel c\<rparr>)"
| stop_cancel: "control s = SCancel c \<Longrightarrow>
    control_step s (s\<lparr>control := SClose c, pool_ctx := Some True\<rparr>)"
| stop_close: "control s = SClose c \<Longrightarrow>
    control_step s (s\<lparr>control := SNil c, closed := (closed s)(c := True)\<rparr>)"
| stop_store_nil: "control s = SNil c \<Longrightarrow> control_step s (s\<lparr>control := SWait, task := None\<rparr>)"
| stop_return: "control s = SWait \<Longrightarrow> wg s = 0 \<Longrightarrow>
    control_step s (s\<lparr>control := CIdle, pool_ctx := None, inWork := 0, running := False,
      rets := rets s @ [Inr ()], leaked := 0\<rparr>)"

section \<open>The workers\<close>

definition move :: "nat \<Rightarrow> worker \<Rightarrow> 'st pool \<Rightarrow> 'st pool" where
  "move i w s = s\<lparr>workers := (workers s)[i := w]\<rparr>"

text \<open>One step of worker \<open>i\<close>; \<open>handler\<close> is the function given to \<open>Run\<close>.\<close>

inductive worker_step ::
  "(Command \<Rightarrow> 'st \<Rightarrow> 'st outcome) \<Rightarrow> nat \<Rightarrow> 'st pool \<Rightarrow> 'st pool \<Rightarrow> bool" where
  load_nil: "workers s ! i = WTop \<Longrightarrow> task s = None \<Longrightarrow> worker_step h i s (move i WFrozen s)"
| load_chan: "workers s ! i = WTop \<Longrightarrow> task s = Some c \<Longrightarrow> worker_step h i s (move i (WSelect c) s)"
| frozen_done: "workers s ! i = WFrozen \<Longrightarrow> ctx_done s \<Longrightarrow> worker_step h i s (move i WDefer s)"
| frozen_retry: "workers s ! i = WFrozen \<Longrightarrow> \<not> ctx_done s \<Longrightarrow> worker_step h i s (move i WTop s)"
| select_done: "workers s ! i = WSelect c \<Longrightarrow> ctx_done s \<Longrightarrow> worker_step h i s (move i WDefer s)"
| select_recv: "workers s ! i = WSelect c \<Longrightarrow> bufs s c = x # xs \<Longrightarrow>
    worker_step h i s (move i (WGot x) (s\<lparr>bufs := (bufs s)(c := xs)\<rparr>))"
| select_closed: "workers s ! i = WSelect c \<Longrightarrow> bufs s c = [] \<Longrightarrow> closed s c \<Longrightarrow>
    worker_step h i s (move i WDefer s)"
| add_work: "workers s ! i = WGot x \<Longrightarrow>
    worker_step h i s (move i (WHandle x) (s\<lparr>inWork := inWork s + 1\<rparr>))"
| handler_ok: "workers s ! i = WHandle x \<Longrightarrow> h x (store s) = Ok st \<Longrightarrow>
    worker_step h i s (move i (WReturned x) (s\<lparr>store := st, executed := executed s @ [x]\<rparr>))"
| handler_panic: "workers s ! i = WHandle x \<Longrightarrow> h x (store s) = Panic st \<Longrightarrow>
    worker_step h i s (move i WDefer
      (s\<lparr>store := st, executed := executed s @ [x], leaked := Suc (leaked s)\<rparr>))"
| sub_work: "workers s ! i = WReturned x \<Longrightarrow>
    worker_step h i s (move i WTop (s\<lparr>inWork := inWork s - 1\<rparr>))"
| wg_done: "workers s ! i = WDefer \<Longrightarrow>
    worker_step h i s (move i WExit (s\<lparr>wg := wg s - 1\<rparr>))"

inductive pool_step ::
  "(Command \<Rightarrow> 'st \<Rightarrow> 'st outcome) \<Rightarrow> 'st pool \<Rightarrow> 'st pool \<Rightarrow> bool" for h where
  by_control: "control_step s t \<Longrightarrow> pool_step h s t"
| by_worker: "i < length (workers s) \<Longrightarrow> worker_step h i s t \<Longrightarrow> pool_step h s t"
| by_parent: "pool_step h s (s\<lparr>parent_done := True\<rparr>)"

abbreviation pool_steps ::
  "(Command \<Rightarrow> 'st \<Rightarrow> 'st outcome) \<Rightarrow> 'st pool \<Rightarrow> 'st pool \<Rightarrow> bool" where
  "pool_steps h \<equiv> (pool_step h)\<^sup>*\<^sup>*"

section \<open>Invariant\<close>

fun busy :: "worker \<Rightarrow> int" where
  "busy (WHandle _) = 1"
| "busy (WReturned _) = 1"
| "busy _ = 0"

definition alive :: "worker \<Rightarrow> int" where
  "alive w = (if w = WExit then 0 else 1)"

fun held :: "worker \<Rightarrow> Command multiset" where
  "held (WGot x) = {#x#}"
| "held (WHandle x) = {#x#}"
| "held _ = {#}"

definition queue :: "'st pool \<Rightarrow> Command list" where
  "queue s = (case task s of None \<Rightarrow> [] | Some c \<Rightarrow> bufs s c)"

text \<open>The counters: \<open>inWork\<close> counts the busy workers and the leaks, \<open>wg\<close> the living ones.\<close>

definition inv_count :: "'st pool \<Rightarrow> bool" where
  "inv_count s \<longleftrightarrow> inWork s = (\<Sum>w\<leftarrow>workers s. busy w) + int (leaked s) \<and>
     wg s = (\<Sum>w\<leftarrow>workers s. alive w)"

text \<open>Every accepted command is executed, in a worker's hand or queued, exactly once.\<close>

definition inv_commands :: "'st pool \<Rightarrow> bool" where
  "inv_commands s \<longleftrightarrow>
     mset (accepted s) = mset (executed s) + (\<Sum>w\<leftarrow>workers s. held w) + mset (queue s)"

definition inv_control :: "'st pool \<Rightarrow> bool" where
  "inv_control s \<longleftrightarrow> (\<forall>c. task s \<noteq> Some c \<longrightarrow> bufs s c = []) \<and>
     (pool_ctx s = None \<longrightarrow> task s = None \<and> (\<forall>w \<in> set (workers s). w = WExit)) \<and>
     (\<not> running s \<longrightarrow> (\<forall>w \<in> set (workers s). w = WExit) \<and> queue s = [] \<and> leaked s = 0 \<and> control s = CIdle) \<and>
     (case control s of
        CIdle \<Rightarrow> True
      | CSend x c \<Rightarrow> task s = Some c
      | SLoop \<Rightarrow> True
      | SPoll c \<Rightarrow> task s = Some c
      | SLen c \<Rightarrow> task s = Some c
      | SCancel c \<Rightarrow> task s = Some c \<and> bufs s c = []
      | SClose c \<Rightarrow> task s = Some c \<and> bufs s c = []
      | SNil c \<Rightarrow> task s = Some c \<and> bufs s c = []
      | SWait \<Rightarrow> task s = None)"

lemmas inv_defs = inv_count_def inv_commands_def inv_control_def queue_def

lemmas call_defs = pool_Run_def pool_Reconnect_def pool_Apply_def pool_Stop_enter_def Let_def

lemma held_replicate [simp]: "sum_list (replicate n ({#} :: Command multiset)) = {#}"
  by (induction n) auto

lemma alive_sum_zero:
  "(\<Sum>w\<leftarrow>ws. alive w) = 0 \<longleftrightarrow> (\<forall>w \<in> set ws. w = WExit)"
proof -
  have "0 \<le> (\<Sum>w\<leftarrow>vs. alive w)" for vs by (induction vs) (auto simp: alive_def)
  then show ?thesis by (induction ws) (auto simp: alive_def add_nonneg_eq_0_iff)
qed

lemma exited_sums [simp]:
  assumes "\<forall>w \<in> set ws. w = WExit"
  shows "(\<Sum>w\<leftarrow>ws. busy w) = 0" "(\<Sum>w\<leftarrow>ws. held w) = {#}"
  using assms by (induction ws) auto

definition inv_pool :: "'st pool \<Rightarrow> bool" where
  "inv_pool s \<longleftrightarrow> inv_count s \<and> inv_commands s \<and> inv_control s"

lemma inv_count_control:
  "control_step s t \<Longrightarrow> inv_count s \<Longrightarrow> inv_control s \<Longrightarrow> inv_count t"
proof (induction rule: control_step.induct)
  case (stop_return s)
  then have "\<forall>w \<in> set (workers s). w = WExit" by (simp add: inv_count_def alive_sum_zero)
  then show ?case using stop_return by (simp add: inv_count_def)
qed (auto simp: inv_defs call_defs alive_def sum_list_replicate split: option.splits)

lemma inv_commands_control:
  "control_step s t \<Longrightarrow> inv_commands s \<Longrightarrow> inv_control s \<Longrightarrow> inv_commands t"
  by (induction rule: control_step.induct)
    (auto simp: inv_commands_def inv_control_def queue_def call_defs split: option.splits)

lemma inv_control_control:
  "control_step s t \<Longrightarrow> inv_count s \<Longrightarrow> inv_control s \<Longrightarrow> inv_control t"
proof (induction rule: control_step.induct)
  case (stop_return s)
  then have "\<forall>w \<in> set (workers s). w = WExit" by (simp add: inv_count_def alive_sum_zero)
  then show ?case using stop_return by (auto simp: inv_control_def queue_def)
qed (auto simp: inv_control_def queue_def call_defs split: option.splits, metis+)

lemma sum_map_move:
  fixes f :: "worker \<Rightarrow> 'b::ab_group_add"
  assumes "i < length ws"
  shows "(\<Sum>v\<leftarrow>ws[i := w]. f v) = (\<Sum>v\<leftarrow>ws. f v) + f w - f (ws ! i)"
  using sum_list_map_update [OF assms, of f w] by (simp add: algebra_simps)

lemma inv_count_worker:
  "worker_step h i s t \<Longrightarrow> i < length (workers s) \<Longrightarrow> inv_count s \<Longrightarrow> inv_count t"
  by (induction rule: worker_step.induct) (auto simp: inv_count_def move_def sum_map_move alive_def)


lemma held_move:
  assumes "i < length ws"
  shows "(\<Sum>v\<leftarrow>ws[i := w]. held v) + held (ws ! i) = (\<Sum>v\<leftarrow>ws. held v) + held w"
  by (rule sum_list_map_update [OF assms])

lemma held_take:
  assumes "i < length ws" "held (ws ! i) = {#}"
  shows "(\<Sum>v\<leftarrow>ws[i := w]. held v) = (\<Sum>v\<leftarrow>ws. held v) + held w"
  using held_move [OF assms(1), of w] assms(2) by simp

lemma held_keep:
  assumes "i < length ws" "held (ws ! i) = held w"
  shows "(\<Sum>v\<leftarrow>ws[i := w]. held v) = (\<Sum>v\<leftarrow>ws. held v)"
  using held_move [OF assms(1), of w] assms(2) by simp

lemma held_drop:
  assumes "i < length ws" "held w = {#}"
  shows "(\<Sum>v\<leftarrow>ws. held v) = (\<Sum>v\<leftarrow>ws[i := w]. held v) + held (ws ! i)"
  using held_move [OF assms(1), of w] assms(2) by simp

lemma inv_commands_worker:
  "worker_step h i s t \<Longrightarrow> i < length (workers s) \<Longrightarrow> inv_commands s \<Longrightarrow> inv_control s \<Longrightarrow>
   inv_commands t"
proof (induction rule: worker_step.induct)
  case (select_recv s i c x xs)
  then have "task s = Some c" unfolding inv_control_def by (metis list.distinct(1))
  then show ?case
    using select_recv by (simp add: inv_commands_def queue_def move_def held_take)
next
  case (handler_ok s i x h st)
  then show ?case
    using held_drop [of i "workers s" "WReturned x"] 
    by (simp add: inv_commands_def queue_def move_def cong: option.case_cong)
next
  case (handler_panic s i x h st)
  then show ?case
    using held_drop [of i "workers s" WDefer] 
    by (simp add: inv_commands_def queue_def move_def cong: option.case_cong)
qed (simp_all add: inv_commands_def queue_def move_def held_keep cong: option.case_cong)

lemma inv_control_worker:
  assumes "worker_step h i s t" "i < length (workers s)" "inv_control s"
  shows "inv_control t"
proof -
  have "workers s ! i \<in> set (workers s)" using assms(2) by simp
  with assms show ?thesis
    by (induction rule: worker_step.induct)
      (auto simp: inv_control_def queue_def move_def split: option.splits control.splits)
qed


lemma inv_pool_new: "inv_pool (NewPoolStore st n)"
  by (simp add: inv_pool_def inv_defs NewPoolStore_def)

lemma inv_pool_step: "pool_step h s t \<Longrightarrow> inv_pool s \<Longrightarrow> inv_pool t"
proof (induction rule: pool_step.induct)
  case (by_control s t)
  then show ?case
    by (simp add: inv_pool_def inv_count_control inv_commands_control inv_control_control)
next
  case (by_worker i s t)
  then show ?case
    unfolding inv_pool_def using inv_count_worker inv_commands_worker inv_control_worker by blast
next
  case (by_parent s)
  then show ?case
    by (simp add: inv_pool_def inv_defs cong: option.case_cong control.case_cong)
qed

interpretation pool_run: run_invariant "pool_step h" inv_pool "NewPoolStore st n" for h st n
  by unfold_locales (fact inv_pool_step inv_pool_new)+

text \<open>The store is the fold of the handler over the executed commands.\<close>

definition run_handler :: "(Command \<Rightarrow> 'st \<Rightarrow> 'st outcome) \<Rightarrow> Command list \<Rightarrow> 'st \<Rightarrow> 'st" where
  "run_handler h xs st = foldl (\<lambda>st x. outcome_val (h x st)) st xs"

lemma run_handler_append [simp]:
  "run_handler h (xs @ [x]) st = outcome_val (h x (run_handler h xs st))"
  by (simp add: run_handler_def)

lemma control_step_store:
  "control_step s t \<Longrightarrow> store t = store s \<and> executed t = executed s"
  by (induction rule: control_step.induct) (auto simp: call_defs split: option.splits)

lemma worker_step_store:
  "worker_step h i s t \<Longrightarrow> store s = run_handler h (executed s) st \<Longrightarrow>
   store t = run_handler h (executed t) st"
  by (induction rule: worker_step.induct) (auto simp: move_def)

lemma store_reachable:
  assumes "pool_steps h (NewPoolStore st n) s"
  shows "store s = run_handler h (executed s) st"
  using assms
proof (induction rule: rtranclp_induct)
  case base
  then show ?case by (simp add: NewPoolStore_def run_handler_def)
next
  case (step s t)
  from step(2,3) show ?case
    by (induction rule: pool_step.induct) (auto simp: control_step_store worker_step_store)
qed

section \<open>Schedules\<close>

text \<open>
  A schedule names the goroutine that moves next, so that runs of the pool can be computed. A
  worker in its select takes a command when there is one, unless \<open>ALeave\<close> has it take the
  cancelled context.
\<close>

datatype act = ARun | AReconnect | AApply int string string | AStop | AControl | AWorker nat | ALeave nat | AParent

fun control_next :: "'st pool \<Rightarrow> control \<Rightarrow> 'st pool option" where
  "control_next s (CSend x c) =
     (if length (bufs s c) < caps s c \<and> \<not> closed s c
      then Some (s\<lparr>control := CIdle, bufs := (bufs s)(c := bufs s c @ [x]),
             accepted := accepted s @ [x], rets := rets s @ [Inr ()]\<rparr>)
      else None)"
| "control_next s SLoop = (case task s of
       None \<Rightarrow> Some (s\<lparr>control := CIdle, rets := rets s @ [Inl ''pool is stopped'']\<rparr>)
     | Some c \<Rightarrow> Some (s\<lparr>control := SPoll c\<rparr>))"
| "control_next s (SPoll c) = Some (s\<lparr>control := if inWork s = 0 then SLen c else SLoop\<rparr>)"
| "control_next s (SLen c) = Some (s\<lparr>control := if bufs s c = [] then SCancel c else SLoop\<rparr>)"
| "control_next s (SCancel c) = Some (s\<lparr>control := SClose c, pool_ctx := Some True\<rparr>)"
| "control_next s (SClose c) = Some (s\<lparr>control := SNil c, closed := (closed s)(c := True)\<rparr>)"
| "control_next s (SNil c) = Some (s\<lparr>control := SWait, task := None\<rparr>)"
| "control_next s SWait =
     (if wg s = 0
      then Some (s\<lparr>control := CIdle, pool_ctx := None, inWork := 0, running := False,
             rets := rets s @ [Inr ()], leaked := 0\<rparr>)
      else None)"
| "control_next s CIdle = None"

fun worker_next ::
  "(Command \<Rightarrow> 'st \<Rightarrow> 'st outcome) \<Rightarrow> nat \<Rightarrow> 'st pool \<Rightarrow> worker \<Rightarrow> 'st pool option" where
  "worker_next h i s WTop = (case task s of
       None \<Rightarrow> Some (move i WFrozen s) | Some c \<Rightarrow> Some (move i (WSelect c) s))"
| "worker_next h i s WFrozen = Some (move i (if ctx_done s then WDefer else WTop) s)"
| "worker_next h i s (WSelect c) = (case bufs s c of
       x # xs \<Rightarrow> Some (move i (WGot x) (s\<lparr>bufs := (bufs s)(c := xs)\<rparr>))
     | [] \<Rightarrow> if ctx_done s \<or> closed s c then Some (move i WDefer s) else None)"
| "worker_next h i s (WGot x) = Some (move i (WHandle x) (s\<lparr>inWork := inWork s + 1\<rparr>))"
| "worker_next h i s (WHandle x) = (case h x (store s) of
       Ok st \<Rightarrow> Some (move i (WReturned x) (s\<lparr>store := st, executed := executed s @ [x]\<rparr>))
     | Panic st \<Rightarrow> Some (move i WDefer
         (s\<lparr>store := st, executed := executed s @ [x], leaked := Suc (leaked s)\<rparr>)))"
| "worker_next h i s (WReturned x) = Some (move i WTop (s\<lparr>inWork := inWork s - 1\<rparr>))"
| "worker_next h i s WDefer = Some (move i WExit (s\<lparr>wg := wg s - 1\<rparr>))"
| "worker_next h i s WExit = None"

fun act_next ::
  "(Command \<Rightarrow> 'st \<Rightarrow> 'st outcome) \<Rightarrow> act \<Rightarrow> 'st pool \<Rightarrow> 'st pool option" where
  "act_next h ARun s = (if control s = CIdle then Some (pool_Run s) else None)"
| "act_next h AReconnect s = (if control s = CIdle then Some (pool_Reconnect s) else None)"
| "act_next h (AApply c k v) s = (if control s = CIdle then Some (pool_Apply c k v s) else None)"
| "act_next h AStop s = (if control s = CIdle then Some (pool_Stop_enter s) else None)"
| "act_next h AControl s = control_next s (control s)"
| "act_next h (AWorker i) s =
     (if i < length (workers s) then worker_next h i s (workers s ! i) else None)"
| "act_next h (ALeave i) s =
     (if i < length (workers s) \<and> ctx_done s \<and> is_WSelect (workers s ! i)
      then Some (move i WDefer s) else None)"
| "act_next h AParent s = Some (s\<lparr>parent_done := True\<rparr>)"

fun schedule ::
  "(Command \<Rightarrow> 'st \<Rightarrow> 'st outcome) \<Rightarrow> act list \<Rightarrow> 'st pool \<Rightarrow> 'st pool option" where
  "schedule h [] s = Some s"
| "schedule h (a # as) s = (case act_next h a s of None \<Rightarrow> None | Some t \<Rightarrow> schedule h as t)"

lemma control_next_step:
  "control_next s (control s) = Some t \<Longrightarrow> control_step s t"
  by (cases "control s") (auto intro: control_step.intros split: if_splits option.splits)

lemma worker_next_step:
  "worker_next h i s (workers s ! i) = Some t \<Longrightarrow> worker_step h i s t"
  by (cases "workers s ! i")
    (auto intro: worker_step.intros split: if_splits option.splits list.splits outcome.splits)

lemma act_next_step: "act_next h a s = Some t \<Longrightarrow> pool_step h s t"
  by (cases a)
    (auto intro: pool_step.intros control_step.intros control_next_step worker_next_step select_done
      simp: is_WSelect_def split: if_splits)

lemma schedule_steps: "schedule h as s = Some t \<Longrightarrow> pool_steps h s t"
proof (induction as arbitrary: s)
  case (Cons a as)
  then obtain u where "act_next h a s = Some u" "schedule h as u = Some t"
    by (auto split: option.splits)
  then show ?case using Cons.IH act_next_step by (metis converse_rtranclp_into_rtranclp)
qed simp

section \<open>What stopping guarantees\<close>

text \<open>
  C3: once \<open>Stop\<close> has returned without an error (the pool is no longer running), every
  accepted command has been given to the handler exactly once, however the goroutines were
  interleaved, in whatever order, over any number of earlier stops and reconnects; no worker
  is left, both counters are zero, and the store is the one that the handler makes of the
  executed commands.
\<close>

theorem Stop_loses_no_command:
  assumes "pool_steps h (NewPoolStore st n) s" "\<not> running s"
  shows "mset (executed s) = mset (accepted s) \<and> (\<forall>w \<in> set (workers s). w = WExit) \<and>
    inWork s = 0 \<and> wg s = 0 \<and> store s = run_handler h (executed s) st"
proof -
  have inv: "inv_count s" "inv_commands s" "inv_control s"
    using pool_run.reachable [OF assms(1)] by (simp_all add: inv_pool_def)
  then have exited: "\<forall>w \<in> set (workers s). w = WExit"
    using assms(2) by (auto simp: inv_control_def)
  moreover have "mset (executed s) = mset (accepted s)" "inWork s = 0"
    using inv exited assms(2) by (simp_all add: inv_commands_def inv_count_def inv_control_def)
  moreover have "wg s = 0" using inv(1) exited alive_sum_zero by (auto simp: inv_count_def)
  ultimately show ?thesis using store_reachable [OF assms(1)] by simp
qed

abbreviation mem_handler where
  "mem_handler \<equiv> apply_handler store_Put store_Get store_Del"

definition two_puts_run :: "(MemStore \<times> string list) pool option" where
  "two_puts_run = schedule mem_handler
     ([ARun, AApply 0 ''a'' ''1'', AControl, AApply 0 ''b'' ''2'', AControl,
       AWorker 0, AWorker 1, AWorker 1, AWorker 0, AWorker 0, AWorker 0, AWorker 1, AWorker 1,
       AWorker 1, AWorker 0, AStop] @ replicate 6 AControl @
      [AWorker 0, AWorker 1, AWorker 0, AWorker 1, AWorker 0, AWorker 1, AControl])
     (NewPoolStore (NewMemStore, []) 2)"

lemmas run_simps = move_def ctx_done_def NewPoolStore_def call_defs Factory_def apply_handler_def
  eval_nat_numeral

lemma two_puts_run_result:
  "case two_puts_run of None \<Rightarrow> False
   | Some s \<Rightarrow> \<not> running s \<and> accepted s = [PutCommand ''a'' ''1'', PutCommand ''b'' ''2''] \<and>
       executed s = [PutCommand ''b'' ''2'', PutCommand ''a'' ''1'']"
  by (simp add: two_puts_run_def run_simps)


theorem Stop_loses_no_command_witness:
  "\<exists>s. two_puts_run = Some s \<and> accepted s = [PutCommand ''a'' ''1'', PutCommand ''b'' ''2''] \<and>
     mset (executed s) = mset (accepted s) \<and> (\<forall>w \<in> set (workers s). w = WExit) \<and>
     inWork s = 0 \<and> wg s = 0 \<and>
     store s = run_handler mem_handler (executed s) (NewMemStore, [])"
proof -
  obtain s where s: "two_puts_run = Some s" "\<not> running s"
      "accepted s = [PutCommand ''a'' ''1'', PutCommand ''b'' ''2'']"
    using two_puts_run_result by (auto split: option.splits)
  then have "pool_steps mem_handler (NewPoolStore (NewMemStore, []) 2) s"
    unfolding two_puts_run_def by (blast intro: schedule_steps)
  from Stop_loses_no_command [OF this s(2)] s show ?thesis by (intro exI [of _ s]) simp
qed

section \<open>When stopping never returns\<close>

text \<open>
  A set of states that every step keeps and in which the pool runs: from it, no run of the
  goroutines stops the pool.
\<close>

locale trap =
  fixes h :: "Command \<Rightarrow> 'st \<Rightarrow> 'st outcome" and stuck :: "'st pool \<Rightarrow> bool"
  assumes stuck_inv: "stuck s \<Longrightarrow> inv_pool s"
    and stuck_running: "stuck s \<Longrightarrow> running s"
    and stuck_control: "control_step s t \<Longrightarrow> inv_pool t \<Longrightarrow> stuck s \<Longrightarrow> stuck t"
    and stuck_worker:
      "worker_step h i s t \<Longrightarrow> i < length (workers s) \<Longrightarrow> inv_pool t \<Longrightarrow> stuck s \<Longrightarrow> stuck t"
    and stuck_parent: "inv_pool (s\<lparr>parent_done := True\<rparr>) \<Longrightarrow> stuck s \<Longrightarrow> stuck (s\<lparr>parent_done := True\<rparr>)"
begin

lemma stuck_step: "pool_step h s t \<Longrightarrow> stuck s \<Longrightarrow> stuck t"
  using inv_pool_step [of h s t] stuck_inv [of s]
  by (elim pool_step.cases) (auto intro: stuck_control stuck_worker stuck_parent pool_step.intros)

end

sublocale trap \<subseteq> persistent "pool_step h" stuck
  by unfold_locales (fact stuck_step)

context trap
begin

lemma never_stops: "pool_steps h s t \<Longrightarrow> stuck s \<Longrightarrow> running t"
  using kept_steps stuck_running by blast

end

text \<open>The caller is outside the pool, sending, or in \<open>Stop\<close> before it has found \<open>inWork\<close> zero.\<close>

fun before_idle :: "control \<Rightarrow> bool" where
  "before_idle CIdle = True"
| "before_idle (CSend _ _) = True"
| "before_idle SLoop = True"
| "before_idle (SPoll _) = True"
| "before_idle _ = False"

definition leaking :: "'st pool \<Rightarrow> bool" where
  "leaking s \<longleftrightarrow> inv_pool s \<and> running s \<and> 0 < leaked s \<and> before_idle (control s)"

lemma leaking_inWork:
  assumes "leaking s"
  shows "inWork s \<noteq> 0"
proof -
  have "busy w \<ge> 0" for w by (cases w) auto
  then have "(\<Sum>w\<leftarrow>ws. busy w) \<ge> 0" for ws by (induction ws) (auto simp: add_nonneg_nonneg)
  from this [of "workers s"] show ?thesis using assms by (auto simp: leaking_def inv_pool_def inv_count_def)
qed

lemma leaking_control: "control_step s t \<Longrightarrow> inv_pool t \<Longrightarrow> leaking s \<Longrightarrow> leaking t"
proof (induction rule: control_step.induct)
  case (stop_idle s c)
  then show ?case using leaking_inWork by blast
qed (auto simp: leaking_def call_defs split: option.splits)

lemma leaking_worker: "worker_step h i s t \<Longrightarrow> inv_pool t \<Longrightarrow> leaking s \<Longrightarrow> leaking t"
  by (induction rule: worker_step.induct) (auto simp: leaking_def move_def)

interpretation leak_trap: trap h leaking for h
proof unfold_locales
  fix i s t
  assume "worker_step h i s t" "inv_pool t" "leaking s"
  then show "leaking t" by (rule leaking_worker)
qed (use leaking_control in \<open>auto simp: leaking_def\<close>)

text \<open>All workers have left, but commands are queued: nobody will empty the channel.\<close>

fun before_cancel :: "control \<Rightarrow> bool" where
  "before_cancel (SLen _) = True"
| "before_cancel k = before_idle k"

definition abandoned :: "'st pool \<Rightarrow> bool" where
  "abandoned s \<longleftrightarrow> inv_pool s \<and> running s \<and> (\<forall>w \<in> set (workers s). w = WExit) \<and> queue s \<noteq> [] \<and>
     before_cancel (control s)"

lemma abandoned_control: "control_step s t \<Longrightarrow> inv_pool t \<Longrightarrow> abandoned s \<Longrightarrow> abandoned t"
  by (induction rule: control_step.induct)
    (auto simp: abandoned_def queue_def inv_pool_def inv_control_def call_defs split: option.splits)

lemma worker_step_not_exit: "worker_step h i s t \<Longrightarrow> workers s ! i \<noteq> WExit"
  by (induction rule: worker_step.induct) auto

interpretation abandon_trap: trap h abandoned for h
proof unfold_locales
  fix i s t
  assume "worker_step h i s t" "i < length (workers s)" "abandoned s"
  then show "abandoned t" using worker_step_not_exit by (fastforce simp: abandoned_def)
qed (use abandoned_control in \<open>auto simp: abandoned_def queue_def cong: option.case_cong\<close>)

text \<open>\<open>Run\<close> was called on a stopped pool: it runs without a channel and without workers.\<close>

definition wedged :: "Command list \<Rightarrow> 'st pool \<Rightarrow> bool" where
  "wedged xs s \<longleftrightarrow> inv_pool s \<and> running s \<and> task s = None \<and> (\<forall>w \<in> set (workers s). w = WExit) \<and>
     (control s = CIdle \<or> control s = SLoop) \<and> accepted s = xs"

lemma wedged_control: "control_step s t \<Longrightarrow> inv_pool t \<Longrightarrow> wedged xs s \<Longrightarrow> wedged xs t"
  by (induction rule: control_step.induct) (auto simp: wedged_def call_defs)

interpretation wedge_trap: trap h "wedged xs" for h xs
proof unfold_locales
  fix i s t
  assume "worker_step h i s t" "i < length (workers s)" "wedged xs s"
  then show "wedged xs t" using worker_step_not_exit by (fastforce simp: wedged_def)
qed (use wedged_control in \<open>auto simp: wedged_def\<close>)

lemma schedule_reachable:
  "schedule h as (NewPoolStore st n) = Some s \<Longrightarrow> pool_steps h (NewPoolStore st n) s"
  by (rule schedule_steps)

lemma handler_panic_blocks_Stop:
  assumes "pool_steps h (NewPoolStore st n) s" "running s" "0 < leaked s"
    "before_idle (control s)" "pool_steps h s t"
  shows "running t \<and> inWork t \<noteq> 0"
  using leak_trap.kept_steps [OF assms(5)] pool_run.reachable [OF assms(1)] assms(2-4)
    leaking_inWork [of t] leak_trap.stuck_running [of t]
  by (simp add: leaking_def)

lemma abandoned_queue_blocks_Stop:
  assumes "pool_steps h (NewPoolStore st n) s" "running s" "\<forall>w \<in> set (workers s). w = WExit"
    "queue s \<noteq> []" "before_cancel (control s)" "pool_steps h s t"
  shows "running t \<and> queue t \<noteq> [] \<and> mset (executed t) \<noteq> mset (accepted t)"
proof -
  have "abandoned t"
    using abandon_trap.kept_steps [OF assms(6)] pool_run.reachable [OF assms(1)] assms(2-5)
    by (simp add: abandoned_def)
  then show ?thesis by (auto simp: abandoned_def inv_pool_def inv_commands_def)
qed

text \<open>
  C17: what keeps \<open>Stop\<close> from ever returning. A handler panic skips \<open>inWork.Add(-1)\<close> (the recover
  is outside the loop), so if one happens before \<open>Stop\<close> has seen \<open>inWork\<close> at zero, then no
  continuation stops the pool: it can be neither reconnected nor restarted. If the parent context
  ends and the workers leave while commands are still queued, \<open>Stop\<close> waits for a channel that
  nobody empties: no continuation stops the pool either, and the queued commands stay
  unexecuted.
\<close>

theorem Stop_blocks_for_ever:
  assumes "pool_steps h (NewPoolStore st n) s" "running s" "pool_steps h s t"
  shows "(0 < leaked s \<and> before_idle (control s) \<longrightarrow> running t \<and> inWork t \<noteq> 0) \<and>
    ((\<forall>w \<in> set (workers s). w = WExit) \<and> queue s \<noteq> [] \<and> before_cancel (control s) \<longrightarrow>
      running t \<and> queue t \<noteq> [] \<and> mset (executed t) \<noteq> mset (accepted t))"
  using handler_panic_blocks_Stop [OF assms(1,2) _ _ assms(3)]
    abandoned_queue_blocks_Stop [OF assms(1,2) _ _ _ assms(3)] by blast

definition panic_run :: "unit pool option" where
  "panic_run = schedule (\<lambda>_. Panic)
     [ARun, AApply 0 ''a'' ''1'', AControl, AWorker 0, AWorker 0, AWorker 0, AWorker 0, AStop]
     (NewPoolStore () 1)"

theorem Stop_blocks_for_ever_witness:
  "\<exists>s. panic_run = Some s \<and> control s = SLoop \<and> inWork s \<noteq> 0"
proof -
  obtain s where s: "panic_run = Some s" "running s" "leaked s = 1" "control s = SLoop"
    by (simp add: panic_run_def run_simps)
  then have "pool_steps (\<lambda>_. Panic) (NewPoolStore () 1) s"
    unfolding panic_run_def by (blast intro: schedule_reachable)
  from Stop_blocks_for_ever [OF this s(2), of s] s show ?thesis by (intro exI [of _ s]) simp
qed

definition abandoned_run :: "unit pool option" where
  "abandoned_run = schedule (\<lambda>_. Ok)
     [ARun, AApply 2 ''a'' [], AControl, AWorker 0, AParent, ALeave 0, AWorker 0, AStop]
     (NewPoolStore () 1)"

lemma abandoned_example:
  "\<exists>s. abandoned_run = Some s \<and> control s = SLoop \<and> executed s = [] \<and>
     mset (executed s) \<noteq> mset (accepted s)"
proof -
  obtain s where s: "abandoned_run = Some s" "running s" "\<forall>w \<in> set (workers s). w = WExit"
      "queue s \<noteq> []" "control s = SLoop" "executed s = []"
    by (simp add: abandoned_run_def run_simps queue_def)
  then have "pool_steps (\<lambda>_. Ok) (NewPoolStore () 1) s"
    unfolding abandoned_run_def by (blast intro: schedule_reachable)
  from abandoned_queue_blocks_Stop [OF this s(2-4), of s] s show ?thesis
    by (intro exI [of _ s]) simp
qed

text \<open>
  \<open>Run\<close> on a stopped pool, without \<open>Reconnect\<close>, finds no channel: the pool counts as
  running from then on, for ever, and accepts no command any more.
\<close>

lemma Run_after_Stop_wedges:
  assumes "pool_steps h (NewPoolStore st n) s" "\<not> running s" "task s = None"
    "pool_steps h (pool_Run s) t"
  shows "running t \<and> task t = None \<and> accepted t = accepted s"
proof -
  have inv: "inv_pool s" by (rule pool_run.reachable [OF assms(1)])
  then have "pool_step h s (pool_Run s)"
    using assms(2) by (auto simp: inv_pool_def inv_control_def intro: by_control call_run)
  then have "wedged (accepted s) (pool_Run s)"
    using inv inv_pool_step [of h s "pool_Run s"] assms(2,3)
    by (auto simp: wedged_def inv_pool_def inv_control_def pool_Run_def)
  from wedge_trap.kept_steps [OF assms(4) this] show ?thesis by (simp add: wedged_def)
qed

definition stopped_run :: "unit pool option" where
  "stopped_run = schedule (\<lambda>_. Ok)
     ([ARun, AWorker 0, AStop] @ replicate 6 AControl @ [AWorker 0, AWorker 0, AControl])
     (NewPoolStore () 1)"

lemma wedged_example:
  "\<exists>s t. stopped_run = Some s \<and>
     schedule (\<lambda>_. Ok) [AReconnect, AApply 0 ''k'' ''v'', AStop, AControl] (pool_Run s) = Some t \<and>
     running t \<and> task t = None \<and> accepted t = []"
proof -
  obtain s t where s: "stopped_run = Some s" "\<not> running s" "task s = None" "accepted s = []"
      "schedule (\<lambda>_. Ok) [AReconnect, AApply 0 ''k'' ''v'', AStop, AControl] (pool_Run s) = Some t"
    by (simp add: stopped_run_def run_simps)
  then have "pool_steps (\<lambda>_. Ok) (NewPoolStore () 1) s"
    unfolding stopped_run_def by (blast intro: schedule_reachable)
  from Run_after_Stop_wedges [OF this s(2,3) schedule_steps [OF s(5)]] s(1,4,5) show ?thesis
    by (intro exI [of _ s] exI [of _ t]) (simp only: simp_thms)
qed

end
