(* ===== verification/Pool_Progress.thy ===== *)
theory Pool_Progress
  imports Worker_Pool
begin

text \<open>
  When \<open>Stop\<close> of the command pool can return: as long as no handler panics and the parent
  context lives, always, except on a pool that was started again after a stop without
  \<open>Reconnect\<close>. The proof follows the goroutines: the workers empty the queue, the caller then
  finds \<open>inWork\<close> and the channel at zero and cancels, and the workers leave.
\<close>

section \<open>The live part of a pool\<close>

abbreviation no_panics :: "(Command \<Rightarrow> 'st \<Rightarrow> 'st outcome) \<Rightarrow> bool" where
  "no_panics h \<equiv> \<forall>x st. \<exists>st'. h x st = Ok st'"

text \<open>A worker that serves the channel \<open>c\<close>, or will load it.\<close>

fun serves :: "nat \<Rightarrow> worker \<Rightarrow> bool" where
  "serves c WDefer = False"
| "serves c WExit = False"
| "serves c (WSelect c') = (c' = c)"
| "serves c _ = True"

fun cancelling :: "control \<Rightarrow> bool" where
  "cancelling (SClose _) = True"
| "cancelling (SNil _) = True"
| "cancelling SWait = True"
| "cancelling _ = False"

definition serving :: "'st pool \<Rightarrow> nat \<Rightarrow> bool" where
  "serving s c \<longleftrightarrow> pool_ctx s = Some False \<and> \<not> closed s c \<and> 0 < caps s c \<and>
     (\<forall>w \<in> set (workers s). w = WExit \<or> serves c w) \<and> (\<exists>w \<in> set (workers s). serves c w)"

definition inv_live :: "'st pool \<Rightarrow> bool" where
  "inv_live s \<longleftrightarrow> leaked s = 0 \<and> 0 < pool_size s \<and>
     (cancelling (control s) \<longrightarrow> pool_ctx s = Some True) \<and>
     (task s = None \<and> control s \<noteq> SWait \<longrightarrow> pool_ctx s = None) \<and>
     (\<forall>c. \<not> running s \<and> task s = Some c \<longrightarrow>
        pool_ctx s = Some False \<and> \<not> closed s c \<and> caps s c = pool_size s) \<and>
     (\<forall>c. running s \<and> task s = Some c \<and> \<not> parent_done s \<and> \<not> cancelling (control s) \<longrightarrow> serving s c)"

lemma inv_live_new: "0 < n \<Longrightarrow> inv_live (NewPoolStore st n)"
  by (simp add: inv_live_def NewPoolStore_def)

lemma inv_live_run:
  assumes "inv_pool s" "inv_live s" "control s = CIdle"
  shows "inv_live (pool_Run s)"
proof (cases "running s \<or> task s = None")
  case True
  then show ?thesis using assms by (auto simp: inv_live_def pool_Run_def serving_def Let_def)
next
  case False
  then obtain c where c: "task s = Some c" by auto
  have "\<forall>w \<in> set (workers s). w = WExit" using False assms(1) by (auto simp: inv_pool_def inv_control_def)
  then show ?thesis
    using False assms(2,3) c by (auto simp: inv_live_def pool_Run_def serving_def Let_def)
qed

lemma inv_live_reconnect:
  assumes "inv_pool s" "inv_live s" "control s = CIdle"
  shows "inv_live (pool_Reconnect s)"
proof (cases "running s")
  case False
  then have "\<forall>w \<in> set (workers s). w = WExit" using assms(1) by (auto simp: inv_pool_def inv_control_def)
  then show ?thesis
    using False assms(2,3) by (auto simp: inv_live_def pool_Reconnect_def pool_Run_def serving_def Let_def)
qed (use assms in \<open>auto simp: inv_live_def pool_Reconnect_def serving_def\<close>)

lemma inv_live_control:
  "control_step s t \<Longrightarrow> inv_pool s \<Longrightarrow> inv_live s \<Longrightarrow> inv_live t"
proof (induction rule: control_step.induct)
  case (call_run s)
  then show ?case by (simp add: inv_live_run)
next
  case (call_reconnect s)
  then show ?case by (simp add: inv_live_reconnect)
next
  case (stop_cancel s c)
  then have "running s" "task s = Some c" by (auto simp: inv_pool_def inv_control_def)
  then show ?case using stop_cancel by (auto simp: inv_live_def)
next
  case (stop_return s)
  then show ?case by (auto simp: inv_live_def inv_pool_def inv_control_def)
qed (auto simp: inv_live_def serving_def call_defs split: option.splits)

text \<open>While nothing is cancelled, a worker that moves goes on serving.\<close>

lemma worker_step_serves:
  assumes "worker_step h i s t" "i < length (workers s)" "no_panics h" "serving s c"
    "\<not> parent_done s" "task s = Some c"
  shows "serves c (workers t ! i) \<and> workers t = (workers s)[i := workers t ! i] \<and>
    pool_ctx t = pool_ctx s \<and> closed t = closed s \<and> caps t = caps s"
proof -
  have i: "workers s ! i = WExit \<or> serves c (workers s ! i)"
    using assms(2,4) by (auto simp: serving_def)
  have nd: "\<not> ctx_done s" using assms(4,5) by (auto simp: serving_def ctx_done_def)
  from assms(1) show ?thesis
  proof cases
    case (select_closed c')
    then show ?thesis using i assms(4) by (auto simp: serving_def)
  next
    case (handler_panic x st)
    then show ?thesis using assms(3) by (metis outcome.distinct(1))
  qed (use i nd assms(2,6) in \<open>auto simp: move_def\<close>)
qed

lemma serving_worker:
  assumes "worker_step h i s t" "i < length (workers s)" "no_panics h" "serving s c"
    "\<not> parent_done s" "task s = Some c"
  shows "serving t c"
proof -
  let ?w = "workers t ! i"
  have w: "serves c ?w" "workers t = (workers s)[i := ?w]" "pool_ctx t = pool_ctx s"
    "closed t = closed s" "caps t = caps s" using worker_step_serves [OF assms] by auto
  have "?w \<in> set (workers t)" using w(2) assms(2) by (metis length_list_update nth_mem)
  moreover have "\<forall>v \<in> set (workers t). v = WExit \<or> serves c v"
    using assms(4) w(1,2) set_update_subset_insert [of "workers s" i ?w] by (auto simp: serving_def)
  ultimately show ?thesis using assms(4) w by (auto simp: serving_def)
qed

text \<open>What a worker leaves alone.\<close>

lemma worker_step_frame:
  "worker_step h i s t \<Longrightarrow> no_panics h \<Longrightarrow> leaked t = leaked s \<and> pool_size t = pool_size s \<and>
   control t = control s \<and> running t = running s \<and> task t = task s \<and> pool_ctx t = pool_ctx s \<and>
   closed t = closed s \<and> caps t = caps s \<and> parent_done t = parent_done s"
proof (induction rule: worker_step.induct)
  case (handler_panic s i x h st)
  then show ?case by (metis outcome.distinct(1))
qed (auto simp: move_def)

lemma inv_live_worker:
  assumes "worker_step h i s t" "i < length (workers s)" "no_panics h" "inv_live s"
  shows "inv_live t"
  using worker_step_frame [OF assms(1,3)] serving_worker [OF assms(1-3)] assms(4)
  by (auto simp: inv_live_def)

lemma inv_live_step:
  assumes "pool_step h s t" "no_panics h" "inv_pool s \<and> inv_live s"
  shows "inv_pool t \<and> inv_live t"
proof
  show "inv_pool t" using inv_pool_step [OF assms(1)] assms(3) by simp
  from assms(1) show "inv_live t"
  proof cases
    case by_control
    then show ?thesis using inv_live_control assms(3) by blast
  next
    case (by_worker i)
    then show ?thesis using inv_live_worker [OF by_worker(2,1) assms(2)] assms(3) by simp
  next
    case by_parent
    then show ?thesis using assms(3) by (auto simp: inv_live_def)
  qed
qed

lemma inv_live_reachable:
  assumes "no_panics h" "0 < n" "pool_steps h (NewPoolStore st n) s"
  shows "inv_pool s \<and> inv_live s"
  using assms(3)
proof (induction rule: rtranclp_induct)
  case base
  then show ?case by (simp add: inv_pool_new inv_live_new assms(2))
next
  case (step s t)
  then show ?case using inv_live_step [OF step(2) assms(1)] by blast
qed

section \<open>The way to a stopped pool\<close>

text \<open>The steps of the pool's own goroutines: those that do not cancel the parent context.\<close>

inductive own_step :: "(Command \<Rightarrow> 'st \<Rightarrow> 'st outcome) \<Rightarrow> 'st pool \<Rightarrow> 'st pool \<Rightarrow> bool" for h where
  own_control: "control_step s t \<Longrightarrow> own_step h s t"
| own_worker: "i < length (workers s) \<Longrightarrow> worker_step h i s t \<Longrightarrow> own_step h s t"

text \<open>Steps of the workers alone.\<close>

definition any_worker :: "(Command \<Rightarrow> 'st \<Rightarrow> 'st outcome) \<Rightarrow> 'st pool \<Rightarrow> 'st pool \<Rightarrow> bool" where
  "any_worker h s t \<longleftrightarrow> (\<exists>i < length (workers s). worker_step h i s t)"

lemma any_worker_own: "any_worker h s t \<Longrightarrow> own_step h s t"
  by (auto simp: any_worker_def intro: own_worker)

abbreviation own_steps :: "(Command \<Rightarrow> 'st \<Rightarrow> 'st outcome) \<Rightarrow> 'st pool \<Rightarrow> 'st pool \<Rightarrow> bool" where
  "own_steps h \<equiv> (own_step h)\<^sup>*\<^sup>*"

lemma own_step_pool: "own_step h s t \<Longrightarrow> pool_step h s t"
  by (induction rule: own_step.induct) (auto intro: pool_step.intros)

lemma own_steps_pool: "own_steps h s t \<Longrightarrow> pool_steps h s t"
  by (induction rule: rtranclp_induct) (auto intro: own_step_pool rtranclp.rtrancl_into_rtrancl)

lemmas inv_live_own = inv_live_step [OF own_step_pool]

lemma any_workers_own: "(any_worker h)\<^sup>*\<^sup>* s t \<Longrightarrow> own_steps h s t"
  by (induction rule: rtranclp_induct) (auto intro: any_worker_own rtranclp.rtrancl_into_rtrancl)

abbreviation can_stop :: "(Command \<Rightarrow> 'st \<Rightarrow> 'st outcome) \<Rightarrow> 'st pool \<Rightarrow> bool" where
  "can_stop h \<equiv> can_reach (own_step h) (\<lambda>s. \<not> running s)"

lemmas can_stop_step = can_reach_step [of "own_step h" for h]
lemmas can_stop_control = can_stop_step [OF own_control]

text \<open>How many steps a worker is from the end of its goroutine once the context is done.\<close>

fun to_exit :: "worker \<Rightarrow> nat" where
  "to_exit WExit = 0"
| "to_exit WDefer = 1"
| "to_exit WFrozen = 2"
| "to_exit (WSelect _) = 2"
| "to_exit WTop = 3"
| "to_exit (WReturned _) = 4"
| "to_exit (WHandle _) = 5"
| "to_exit (WGot _) = 6"

text \<open>A step of worker \<open>i\<close> that brings its weight down.\<close>

definition lowers :: "(worker \<Rightarrow> nat) \<Rightarrow> (Command \<Rightarrow> 'st \<Rightarrow> 'st outcome) \<Rightarrow> nat \<Rightarrow> 'st pool \<Rightarrow> bool" where
  "lowers weight h i s \<longleftrightarrow> (\<exists>t. worker_step h i s t \<and> queue t = queue s \<and>
     workers t = (workers s)[i := workers t ! i] \<and> weight (workers t ! i) < weight (workers s ! i))"

lemma lowersI:
  "worker_step h i s (move i w s') \<Longrightarrow> workers s' = workers s \<Longrightarrow> queue s' = queue s \<Longrightarrow>
   i < length (workers s) \<Longrightarrow> weight w < weight (workers s ! i) \<Longrightarrow> lowers weight h i s"
  unfolding lowers_def by (rule exI [of _ "move i w s'"]) (simp add: move_def queue_def cong: option.case_cong)

lemma worker_leaves:
  assumes "ctx_done s" "no_panics h" "workers s ! i \<noteq> WExit" "i < length (workers s)"
  shows "lowers to_exit h i s"
proof (cases "workers s ! i")
  case WTop
  show ?thesis
  proof (cases "task s")
    case None
    show ?thesis by (rule lowersI [OF load_nil [OF WTop None]]) (simp_all add: WTop assms(4))
  next
    case (Some c)
    show ?thesis by (rule lowersI [OF load_chan [OF WTop Some]]) (simp_all add: WTop assms(4))
  qed
next
  case WFrozen
  show ?thesis by (rule lowersI [OF frozen_done [OF WFrozen assms(1)]]) (simp_all add: WFrozen assms(4))
next
  case (WSelect c)
  show ?thesis by (rule lowersI [OF select_done [OF WSelect assms(1)]]) (simp_all add: WSelect assms(4))
next
  case (WGot x)
  show ?thesis by (rule lowersI [OF add_work [OF WGot]]) (simp_all add: WGot assms(4) queue_def cong: option.case_cong)
next
  case (WHandle x)
  obtain st where st: "h x (store s) = Ok st" using assms(2) by blast
  show ?thesis
    by (rule lowersI [OF handler_ok [of s i x h st, OF WHandle st]]) (simp_all add: WHandle assms(4) queue_def cong: option.case_cong)
next
  case (WReturned x)
  show ?thesis
    by (rule lowersI [OF sub_work [OF WReturned]]) (simp_all add: WReturned assms(4) queue_def cong: option.case_cong)
next
  case WDefer
  show ?thesis
    by (rule lowersI [OF wg_done [OF WDefer]]) (simp_all add: WDefer assms(4) queue_def cong: option.case_cong)
qed (use assms(3) in simp)

lemma lowers_sum:
  assumes "lowers weight h i s" "i < length (workers s)"
  shows "\<exists>t. worker_step h i s t \<and> any_worker h s t \<and> queue t = queue s \<and>
    (\<Sum>w\<leftarrow>workers t. weight w) < (\<Sum>w\<leftarrow>workers s. weight w)"
proof -
  obtain t where t: "worker_step h i s t" "queue t = queue s"
    "workers t = (workers s)[i := workers t ! i]" "weight (workers t ! i) < weight (workers s ! i)"
    using assms(1) by (auto simp: lowers_def)
  have "(\<Sum>w\<leftarrow>(workers s)[i := workers t ! i]. weight w) + weight (workers s ! i) =
      (\<Sum>w\<leftarrow>workers s. weight w) + weight (workers t ! i)"
    by (rule sum_list_map_update [OF assms(2)])
  then have "(\<Sum>w\<leftarrow>workers t. weight w) < (\<Sum>w\<leftarrow>workers s. weight w)" using t(3,4) by simp
  then show ?thesis using t(1,2) assms(2) by (auto simp: any_worker_def)
qed

text \<open>Once the context is done the workers can leave one after the other, and leave the queue alone.\<close>

lemma workers_leave:
  fixes s :: "'st pool"
  assumes "no_panics h" "inv_pool s" "inv_live s" "ctx_done s"
  shows "\<exists>t. (any_worker h)\<^sup>*\<^sup>* s t \<and> inv_pool t \<and> inv_live t \<and> queue t = queue s \<and> control t = control s \<and>
    running t = running s \<and> (\<forall>w \<in> set (workers t). w = WExit)"
proof -
  let ?good = "\<lambda>t. inv_pool t \<and> inv_live t \<and> ctx_done t \<and> queue t = queue s \<and> control t = control s \<and> running t = running s"
  have down: "\<exists>u. any_worker h t u \<and> ?good u \<and> (\<Sum>w\<leftarrow>workers u. to_exit w) < (\<Sum>w\<leftarrow>workers t. to_exit w)"
    if good: "?good t" and more: "\<not> (\<forall>w \<in> set (workers t). w = WExit)" for t
  proof -
    obtain i where i: "i < length (workers t)" "workers t ! i \<noteq> WExit"
      using more by (auto simp: in_set_conv_nth)
    have "ctx_done t" using good by simp
    from lowers_sum [OF worker_leaves [OF this assms(1) i(2,1)] i(1)]
    obtain u where u: "worker_step h i t u" "any_worker h t u" "queue u = queue t"
      "(\<Sum>w\<leftarrow>workers u. to_exit w) < (\<Sum>w\<leftarrow>workers t. to_exit w)" by blast
    then show ?thesis
      using good inv_live_own [OF any_worker_own [OF u(2)] assms(1)] worker_step_frame [OF u(1) assms(1)]
      by (auto simp: ctx_done_def)
  qed
  have "?good s" using assms(2-4) by simp
  from descend [where good = ?good and goal = "\<lambda>t. \<forall>w \<in> set (workers t). w = WExit" and
      step = "any_worker h" and s = s, OF down this]
  show ?thesis by auto
qed

text \<open>\<open>Stop\<close> in its last wait.\<close>

lemma can_stop_wait:
  assumes "no_panics h" "inv_pool s" "inv_live s" "control s = SWait"
  shows "can_stop h s"
proof -
  have "ctx_done s" using assms(3,4) by (simp add: inv_live_def ctx_done_def)
  from workers_leave [OF assms(1-3) this]
  obtain t where t: "(any_worker h)\<^sup>*\<^sup>* s t" "inv_pool t \<and> control t = SWait" "\<forall>w \<in> set (workers t). w = WExit"
    using assms(4) by auto
  have "wg t = 0" using t(2,3) alive_sum_zero by (auto simp: inv_pool_def inv_count_def)
  moreover have "control t = SWait" using t(2) by simp
  ultimately have "can_stop h t"
    using can_stop_control [OF stop_return, of t h] by (simp add: can_reach_now)
  with any_workers_own [OF t(1)] show ?thesis by (rule can_reach_steps)
qed

lemma can_stop_next:
  assumes "control_step s t" "no_panics h" "inv_pool s" "inv_live s"
    and "inv_pool t \<Longrightarrow> inv_live t \<Longrightarrow> can_stop h t"
  shows "can_stop h s"
proof (rule can_stop_control [OF assms(1)])
  have "inv_pool t \<and> inv_live t"
    by (rule inv_live_own [OF own_control [OF assms(1)] assms(2)]) (simp add: assms(3,4))
  then show "can_stop h t" by (simp add: assms(5))
qed

lemma can_stop_nil:
  assumes "no_panics h" "inv_pool s" "inv_live s" "control s = SNil c"
  shows "can_stop h s"
  by (rule can_stop_next [OF stop_store_nil [OF assms(4)] assms(1-3)])
    (simp add: can_stop_wait [OF assms(1)])

lemma can_stop_close:
  assumes "no_panics h" "inv_pool s" "inv_live s" "control s = SClose c"
  shows "can_stop h s"
  by (rule can_stop_next [OF stop_close [OF assms(4)] assms(1-3)]) (simp add: can_stop_nil [OF assms(1)])

lemma can_stop_cancel:
  assumes "no_panics h" "inv_pool s" "inv_live s" "control s = SCancel c"
  shows "can_stop h s"
  by (rule can_stop_next [OF stop_cancel [OF assms(4)] assms(1-3)]) (simp add: can_stop_close [OF assms(1)])

section \<open>The workers empty the queue\<close>

text \<open>How much work a worker has before it waits in its select.\<close>

fun to_idle :: "worker \<Rightarrow> nat" where
  "to_idle WTop = 1"
| "to_idle WFrozen = 2"
| "to_idle (WReturned _) = 2"
| "to_idle (WHandle _) = 3"
| "to_idle (WGot _) = 4"
| "to_idle _ = 0"

lemma worker_works:
  assumes "\<not> ctx_done s" "task s = Some c" "no_panics h" "0 < to_idle (workers s ! i)" "i < length (workers s)"
  shows "lowers to_idle h i s"
proof (cases "workers s ! i")
  case WTop
  show ?thesis by (rule lowersI [OF load_chan [OF WTop assms(2)]]) (simp_all add: WTop assms(5))
next
  case WFrozen
  show ?thesis by (rule lowersI [OF frozen_retry [OF WFrozen assms(1)]]) (simp_all add: WFrozen assms(5))
next
  case (WGot x)
  show ?thesis by (rule lowersI [OF add_work [OF WGot]]) (simp_all add: WGot assms(5) queue_def cong: option.case_cong)
next
  case (WHandle x)
  obtain st where st: "h x (store s) = Ok st" using assms(3) by blast
  show ?thesis
    by (rule lowersI [OF handler_ok [of s i x h st, OF WHandle st]])
      (simp_all add: WHandle assms(5) queue_def cong: option.case_cong)
next
  case (WReturned x)
  show ?thesis
    by (rule lowersI [OF sub_work [OF WReturned]]) (simp_all add: WReturned assms(5) queue_def cong: option.case_cong)
qed (use assms(4) in simp_all)

definition live :: "'st pool \<Rightarrow> nat \<Rightarrow> control \<Rightarrow> bool" where
  "live s c k \<longleftrightarrow> inv_pool s \<and> inv_live s \<and> running s \<and> task s = Some c \<and> \<not> parent_done s \<and> control s = k"

definition settled :: "'st pool \<Rightarrow> bool" where
  "settled s \<longleftrightarrow> queue s = [] \<and> (\<forall>w \<in> set (workers s). to_idle w = 0)"

lemma settled_control [simp]: "settled (s\<lparr>control := k\<rparr>) = settled s"
  by (simp add: settled_def queue_def cong: option.case_cong)

abbreviation work :: "'st pool \<Rightarrow> nat" where
  "work s \<equiv> 5 * length (queue s) + (\<Sum>w\<leftarrow>workers s. to_idle w)"

lemma live_serving: "live s c k \<Longrightarrow> \<not> cancelling k \<Longrightarrow> serving s c"
  by (auto simp: live_def inv_live_def)

lemma live_worker:
  assumes "live s c k" "worker_step h i s t" "any_worker h s t" "no_panics h"
  shows "live t c k"
  using inv_live_own [OF any_worker_own [OF assms(3)] assms(4)] worker_step_frame [OF assms(2,4)] assms(1) by (auto simp: live_def)

lemma recv_works:
  assumes "live s c k" "\<not> cancelling k" "no_panics h" "queue s \<noteq> []" "\<forall>w \<in> set (workers s). to_idle w = 0"
  shows "\<exists>t. any_worker h s t \<and> live t c k \<and> work t < work s"
proof -
  obtain i where i: "i < length (workers s)" "serves c (workers s ! i)"
    using live_serving [OF assms(1,2)] by (auto simp: serving_def in_set_conv_nth)
  then have sel: "workers s ! i = WSelect c" using assms(5) by (cases "workers s ! i") (auto dest!: nth_mem)
  obtain x xs where q: "bufs s c = x # xs" using assms(1,4) by (cases "bufs s c") (auto simp: queue_def live_def)
  let ?t = "move i (WGot x) (s\<lparr>bufs := (bufs s)(c := xs)\<rparr>)"
  have st: "worker_step h i s ?t" using sel q by (rule select_recv)
  have "(\<Sum>w\<leftarrow>(workers s)[i := WGot x]. to_idle w) = (\<Sum>w\<leftarrow>workers s. to_idle w) + 4"
    using sum_list_map_update [OF i(1), of to_idle "WGot x"] sel by simp
  then have "work ?t < work s" using q assms(1) by (simp add: move_def queue_def live_def)
  moreover have "any_worker h s ?t" using st i(1) by (auto simp: any_worker_def)
  ultimately show ?thesis using live_worker [OF assms(1) st _ assms(3)] by blast
qed

lemma settles:
  fixes h :: "Command \<Rightarrow> 'st \<Rightarrow> 'st outcome"
  assumes "live s c k" "\<not> cancelling k" "no_panics h"
  shows "\<exists>t. (any_worker h)\<^sup>*\<^sup>* s t \<and> live t c k \<and> settled t"
proof (rule descend [where good = "\<lambda>s. live s c k" and goal = settled and m = work, OF _ assms(1)])
  fix s :: "'st pool" assume s: "live s c k" and more: "\<not> settled s"
  show "\<exists>t. any_worker h s t \<and> live t c k \<and> work t < work s"
  proof (cases "\<forall>w \<in> set (workers s). to_idle w = 0")
    case True
    then show ?thesis using recv_works [OF s assms(2,3)] more by (simp add: settled_def)
  next
    case False
    then obtain i where i: "i < length (workers s)" "0 < to_idle (workers s ! i)" by (auto simp: in_set_conv_nth)
    have "\<not> ctx_done s" "task s = Some c"
      using live_serving [OF s assms(2)] s by (auto simp: serving_def ctx_done_def live_def)
    from lowers_sum [OF worker_works [OF this assms(3) i(2,1)] i(1)]
    obtain t where "worker_step h i s t" "any_worker h s t" "work t < work s" by auto
    then show ?thesis using live_worker [OF s _ _ assms(3)] by blast
  qed
qed

text \<open>With the queue empty and no worker at work, the caller gets through to the cancellation.\<close>

lemma settled_inWork: "inv_pool s \<Longrightarrow> inv_live s \<Longrightarrow> settled s \<Longrightarrow> inWork s = 0"
proof -
  assume s: "inv_pool s" "inv_live s" "settled s"
  have "busy w = 0" if "w \<in> set (workers s)" for w
    using s(3) that by (cases w) (auto simp: settled_def)
  then have "(\<Sum>w\<leftarrow>workers s. busy w) = 0" by (induction "workers s") (auto simp: sum_list_0 cong: map_cong)
  then show ?thesis using s(1,2) by (simp add: inv_pool_def inv_count_def inv_live_def)
qed

lemma can_stop_settled:
  assumes "no_panics h" "inv_pool s" "inv_live s" "settled s" "running s" "task s = Some c"
    "control s \<in> {CIdle, SLoop, SPoll c, SLen c}"
  shows "can_stop h s"
proof -
  have len: "can_stop h s" if "inv_pool s" "inv_live s" "settled s" "task s = Some c" "control s = SLen c" for s
    using that(3,4) by (intro can_stop_next [OF stop_empty [OF that(5)] assms(1) that(1,2)])
      (auto simp: settled_def queue_def intro: can_stop_cancel [OF assms(1)])
  have poll: "can_stop h s" if "inv_pool s" "inv_live s" "settled s" "task s = Some c" "control s = SPoll c" for s
    by (rule can_stop_next [OF stop_idle [OF that(5) settled_inWork [OF that(1-3)]] assms(1) that(1,2)])
      (simp add: len that)
  have loop: "can_stop h s" if "inv_pool s" "inv_live s" "settled s" "task s = Some c" "control s = SLoop" for s
    by (rule can_stop_next [OF stop_load [OF that(5,4)] assms(1) that(1,2)]) (simp add: poll that)
  have idle: "can_stop h s" if "inv_pool s" "inv_live s" "settled s" "task s = Some c" "running s" "control s = CIdle" for s
    by (rule can_stop_next [OF call_stop [OF that(6)] assms(1) that(1,2)])
      (simp add: loop that pool_Stop_enter_def)
  show ?thesis using assms len poll loop idle by auto
qed

lemma can_stop_live:
  assumes "no_panics h" "live s c k" "k \<in> {CIdle, SLoop, SPoll c, SLen c}"
  shows "can_stop h s"
proof -
  have "\<not> cancelling k" using assms(3) by auto
  from settles [OF assms(2) this assms(1)]
  obtain t where t: "(any_worker h)\<^sup>*\<^sup>* s t" "live t c k" "settled t" by blast
  have "can_stop h t" using t(2,3) assms(3) by (intro can_stop_settled [OF assms(1)]) (auto simp: live_def)
  with any_workers_own [OF t(1)] show ?thesis by (rule can_reach_steps)
qed

lemma can_stop_send:
  assumes "no_panics h" "live s c (CSend x c)"
  shows "can_stop h s"
proof -
  obtain t where t: "(any_worker h)\<^sup>*\<^sup>* s t" "live t c (CSend x c)" "settled t"
    using settles [OF assms(2) _ assms(1)] by auto
  have room: "length (bufs t c) < caps t c" "\<not> closed t c" "control t = CSend x c"
    using live_serving [OF t(2)] t(2,3) by (auto simp: serving_def settled_def live_def queue_def)
  have inv: "inv_pool t" "inv_live t" using t(2) by (auto simp: live_def)
  have "can_stop h t"
  proof (rule can_stop_next [OF send [OF room(3,1,2)] assms(1) inv])
    let ?u = "t\<lparr>control := CIdle, bufs := (bufs t)(c := bufs t c @ [x]), accepted := accepted t @ [x],
      rets := rets t @ [Inr ()]\<rparr>"
    assume "inv_pool ?u" "inv_live ?u"
    then show "can_stop h ?u" using t(2) by (intro can_stop_live [OF assms(1), of _ c CIdle]) (auto simp: live_def)
  qed
  with any_workers_own [OF t(1)] show ?thesis by (rule can_reach_steps)
qed

lemma can_stop_running:
  assumes "no_panics h" "live s c (control s)"
  shows "can_stop h s"
proof -
  have inv: "inv_pool s" "inv_live s" "inv_control s" "task s = Some c"
    using assms(2) by (auto simp: live_def inv_pool_def)
  show ?thesis
  proof (cases "control s")
    case (CSend x c')
    then show ?thesis using can_stop_send [OF assms(1)] assms(2) inv by (auto simp: inv_control_def)
  next
    case SWait
    then show ?thesis using inv by (auto simp: inv_control_def)
  qed (use assms can_stop_live [OF assms] can_stop_cancel [OF assms(1) inv(1,2)]
      can_stop_close [OF assms(1) inv(1,2)] can_stop_nil [OF assms(1) inv(1,2)] inv(3,4)
    in \<open>auto simp: inv_control_def\<close>)
qed

lemma wedged_from:
  assumes "inv_pool s" "inv_live s" "running s" "task s = None" "control s \<noteq> SWait"
  shows "wedged (accepted s) s"
proof -
  have "pool_ctx s = None" "inv_control s" using assms by (auto simp: inv_live_def inv_pool_def)
  then have "\<forall>w \<in> set (workers s). w = WExit" "control s = CIdle \<or> control s = SLoop"
    using assms(4,5) by (auto simp: inv_control_def split: control.splits)
  then show ?thesis using assms by (simp add: wedged_def)
qed

text \<open>
  C12: with a handler that does not panic and as long as the parent context lives, \<open>Stop\<close> can
  always return, from every reachable state of the goroutines: whoever is where, the workers
  can empty the queue and leave, and the pool can be brought to rest. The one exception is a
  pool started again by \<open>Run\<close> after a stop, without \<open>Reconnect\<close>: it has no channel and never
  stops any more.
\<close>

theorem Stop_can_return:
  assumes "\<forall>x st. \<exists>st'. h x st = Ok st'" "0 < n" "pool_steps h (NewPoolStore st n) s" "\<not> parent_done s"
  shows "(\<exists>t. pool_steps h s t \<and> \<not> running t) \<longleftrightarrow>
    \<not> (running s \<and> task s = None \<and> control s \<noteq> SWait)"
proof -
  have inv: "inv_pool s" "inv_live s" using inv_live_reachable [OF assms(1-3)] by auto
  have "can_stop h s" if "running s" "task s = Some c" for c
    using can_stop_running [OF assms(1)] inv that assms(4) by (simp add: live_def)
  moreover have "can_stop h s" if "control s = SWait" by (rule can_stop_wait [OF assms(1) inv that])
  moreover have "can_stop h s" if "\<not> running s" using that by (rule can_reach_now)
  moreover have "running t" if "running s" "task s = None" "control s \<noteq> SWait" "pool_steps h s t" for t
    using wedge_trap.never_stops [OF that(4) wedged_from [OF inv that(1-3)]] .
  ultimately show ?thesis unfolding can_reach_def by (cases "task s") (auto dest: own_steps_pool)
qed

theorem Stop_can_return_witness:
  "\<exists>s. schedule (\<lambda>_. Ok) [ARun, AApply 0 ''a'' ''1'', AControl, AWorker 0, AStop]
      (NewPoolStore () 1) = Some s \<and> running s \<and> (\<exists>t. pool_steps (\<lambda>_. Ok) s t \<and> \<not> running t)"
proof -
  obtain s where s: "schedule (\<lambda>_. Ok) [ARun, AApply 0 ''a'' ''1'', AControl, AWorker 0, AStop]
      (NewPoolStore () 1) = Some s" "running s" "task s \<noteq> None" "\<not> parent_done s"
    by (simp add: run_simps)
  have "pool_steps (\<lambda>_. Ok) (NewPoolStore () 1) s" using s(1) by (rule schedule_reachable)
  with Stop_can_return [of "\<lambda>_. Ok" 1 "()" s] s show ?thesis by auto
qed

end
