(* ===== verification/Pool_Store.thy ===== *)
theory Pool_Store
  imports Worker_Pool
begin

text \<open>
  The pool over the key-value store: what the store holds after a stop, although the workers
  ran the commands in an order of their own. The program \<^verbatim>\<open>cmd/custom_worker_pool/main.go\<close> is the
  client: it sends one command per key, stops the pool and reconnects it.
\<close>

section \<open>The client\<close>

definition client_keys :: "string list" where
  "client_keys = [''a'', ''b'', ''c'', ''d'', ''e'', ''f'', ''g'']"

text \<open>The commands of one round of \<open>main\<close>: \<open>pool.Apply(father, i%3, key, fmt.Sprintf("%s-%d", key, i))\<close>.\<close>

definition client_commands :: "Command list" where
  "client_commands = map (\<lambda>(i, key). Factory (int (i mod 3)) key (key @ ''-'' @ itoa (int i)))
     (enumerate 0 client_keys)"

section \<open>Order does not matter\<close>

fun writes :: "string \<Rightarrow> Command \<Rightarrow> bool" where
  "writes k (PutCommand k' _) = (k' = k)"
| "writes k (GetCommand _ _) = False"
| "writes k (DelCommand k' _) = (k' = k)"

lemma last_write_filter: "last_write cs k v = last_write (filter (writes k) cs) k v"
  by (induction cs k v rule: last_write.induct) auto

lemma mset_short_eq:
  assumes "mset xs = mset ys" "length xs \<le> 1"
  shows "xs = ys"
proof (cases xs)
  case Nil
  then show ?thesis using assms(1) by simp
next
  case (Cons x zs)
  then have "mset ys = {#x#}" using assms by simp
  then show ?thesis using Cons assms(2) by (simp add: mset_single_iff_right)
qed

lemma last_write_perm:
  assumes "mset cs = mset ds" "length (filter (writes k) cs) \<le> 1"
  shows "last_write cs k v = last_write ds k v"
proof -
  have "filter (writes k) cs = filter (writes k) ds"
    using assms by (intro mset_short_eq) (metis mset_filter, simp)
  then show ?thesis using last_write_filter by metis
qed

lemma run_handler_store:
  "fst (run_handler mem_handler cs (m, out)) = run_commands store_Put store_Get store_Del cs m"
proof (induction cs arbitrary: m out)
  case (Cons c cs)
  then show ?case by (auto simp: run_handler_def apply_handler_def split_beta Let_def)
qed (simp add: run_handler_def)

text \<open>
  C13: after a stop, a key that at most one accepted command writes reads as if the accepted
  commands had been run one after the other in the order they were sent, whatever the workers
  did. That sequential run, on a new store, leaves every key with the value of the last put or
  delete of it, and the empty string if there is none; reads change nothing.
\<close>

theorem pool_is_sequential:
  assumes "pool_steps mem_handler (NewPoolStore (m, out) n) s" "\<not> running s"
    "length (filter (writes k) (accepted s)) \<le> 1"
  shows "store_Get k (fst (store s)) =
    store_Get k (run_commands store_Put store_Get store_Del (accepted s) m) \<and>
    store_Get k' (run_commands store_Put store_Get store_Del cs NewMemStore) = last_write cs k' []"
proof -
  have "mset (executed s) = mset (accepted s)"
  proof -
    have inv: "inv_commands s" "inv_control s"
      using pool_run.reachable [OF assms(1)] by (simp_all add: inv_pool_def)
    then show ?thesis using assms(2) by (auto simp: inv_commands_def inv_control_def)
  qed
  then have "last_write (executed s) k v = last_write (accepted s) k v" for v
    using last_write_perm [of "accepted s" "executed s"] assms(3) by metis
  moreover have "fst (store s) = run_commands store_Put store_Get store_Del (executed s) m"
    using store_reachable [OF assms(1)] run_handler_store by simp
  ultimately show ?thesis using MemStore_last_write_wins by (simp add: mem_store.get_run_commands)
qed

text \<open>Two workers run the client's first three commands in another order than they were sent.\<close>

definition client_run :: "(MemStore \<times> string list) pool option" where
  "client_run = schedule mem_handler
     ([ARun, AApply 0 ''a'' ''a-0'', AControl, AApply 1 ''b'' ''b-1'', AControl,
       AWorker 0, AWorker 1, AWorker 0, AWorker 1, AApply 2 ''c'' ''c-2'', AControl,
       AWorker 1, AWorker 1, AWorker 1, AWorker 1, AWorker 1, AWorker 1, AWorker 1, AWorker 1,
       AWorker 0, AWorker 0, AWorker 0, AStop] @ replicate 6 AControl @
      [AWorker 0, AWorker 1, AWorker 0, AWorker 1, AWorker 0, AWorker 1, AControl])
     (NewPoolStore (NewMemStore, []) 2)"

lemma client_first: "take 3 client_commands = [PutCommand ''a'' ''a-0'', GetCommand ''b'' ''b-1'', DelCommand ''c'' ''c-2'']"
  by code_simp

lemma client_run_result:
  "case client_run of None \<Rightarrow> False
   | Some s \<Rightarrow> \<not> running s \<and> accepted s = take 3 client_commands \<and>
       executed s = [GetCommand ''b'' ''b-1'', DelCommand ''c'' ''c-2'', PutCommand ''a'' ''a-0'']"
  unfolding client_first by (simp add: client_run_def run_simps)

theorem pool_is_sequential_witness:
  "\<exists>s. client_run = Some s \<and> store_Get ''a'' (fst (store s)) = ''a-0''"
proof -
  obtain s where s: "client_run = Some s" "\<not> running s" "accepted s = take 3 client_commands"
    using client_run_result by (auto split: option.splits)
  then have "pool_steps mem_handler (NewPoolStore (NewMemStore, []) 2) s"
    unfolding client_run_def by (blast intro: schedule_steps)
  from pool_is_sequential [OF this s(2), of "''a''"] s(1,3) show ?thesis
    by (intro exI [of _ s]) (simp add: client_first store_Get_def store_Put_def store_Del_def)
qed

end
