(* ===== verification/Pool_Client.thy ===== *)
theory Pool_Client
  imports Pool_Store Pool_Progress
begin

text \<open>
  The program \<^verbatim>\<open>cmd/custom_worker_pool/main.go\<close>: a goroutine that makes a fixed sequence of calls on
  a command pool and reacts to their errors, waits in \<open>App.Run\<close> until its context is cancelled, and
  at last, through \<open>App.Stop\<close>, shuts the pool down.
  The calls run as in \<open>Worker_Pool\<close>; \<open>pool_main_step\<close> lets the program, the workers and the
  cancellation of the program's context interleave.
\<close>

section \<open>The program\<close>

datatype pool_call = PRun | PApply int string string | PStop | PReconnect | PAwait | PShutdown

definition client_pack :: "pool_call list" where
  "client_pack = map (\<lambda>(i, key). PApply (int (i mod 3)) key (key @ ''-'' @ itoa (int i))) (enumerate 0 client_keys)"

text \<open>\<open>PAwait\<close> is \<open>App.Run\<close>; \<open>PShutdown\<close> is registered with the application and runs in its \<open>Stop\<close>.\<close>

definition client_main :: "pool_call list" where
  "client_main = PRun # client_pack @ [PStop, PReconnect] @ client_pack @
     [PStop, PReconnect, PApply 0 ''a'' ''new-a'', PAwait, PShutdown]"

fun invoke :: "pool_call \<Rightarrow> 'st pool \<Rightarrow> 'st pool" where
  "invoke PRun s = pool_Run s"
| "invoke (PApply c k v) s = pool_Apply c k v s"
| "invoke PStop s = pool_Stop_enter s"
| "invoke PReconnect s = pool_Reconnect s"
| "invoke PAwait s = s"
| "invoke PShutdown s = pool_Stop_enter s"

fun is_apply :: "pool_call \<Rightarrow> bool" where
  "is_apply (PApply _ _ _) = True"
| "is_apply _ = False"

text \<open>
  What is left to do: a failed \<open>Apply\<close> breaks out of its loop, a failed \<open>Stop\<close> or \<open>Reconnect\<close>
  returns from \<open>main\<close>, whose deferred calls still shut the pool down; \<open>Shutdown\<close> prints its error.
\<close>

fun after :: "pool_call \<Rightarrow> bool \<Rightarrow> pool_call list \<Rightarrow> pool_call list" where
  "after (PApply _ _ _) False rest = dropWhile is_apply rest"
| "after PStop False rest = [PShutdown]"
| "after PReconnect False rest = [PShutdown]"
| "after _ _ rest = rest"

definition succeeded :: "pool_call \<Rightarrow> 'st pool \<Rightarrow> bool" where
  "succeeded op s \<longleftrightarrow> op = PRun \<or> op = PAwait \<or> last (rets s) = Inr ()"

record 'st client =
  todo :: "pool_call list"
  doing :: "pool_call option"
  pool :: "'st pool"

inductive pool_main_step :: "(Command \<Rightarrow> 'st \<Rightarrow> 'st outcome) \<Rightarrow> 'st client \<Rightarrow> 'st client \<Rightarrow> bool" for h where
  begins: "doing p = None \<Longrightarrow> todo p = op # ops \<Longrightarrow> control (pool p) = CIdle \<Longrightarrow>
    pool_main_step h p (p\<lparr>doing := Some op, todo := ops, pool := invoke op (pool p)\<rparr>)"
| returns: "doing p = Some op \<Longrightarrow> control (pool p) = CIdle \<Longrightarrow> (op = PAwait \<longrightarrow> parent_done (pool p)) \<Longrightarrow>
    pool_main_step h p (p\<lparr>doing := None, todo := after op (succeeded op (pool p)) (todo p)\<rparr>)"
| inside: "doing p = Some op \<Longrightarrow> control (pool p) \<noteq> CIdle \<Longrightarrow> control_step (pool p) s \<Longrightarrow>
    pool_main_step h p (p\<lparr>pool := s\<rparr>)"
| worker: "i < length (workers (pool p)) \<Longrightarrow> worker_step h i (pool p) s \<Longrightarrow> pool_main_step h p (p\<lparr>pool := s\<rparr>)"
| cancels: "pool_main_step h p (p\<lparr>pool := (pool p)\<lparr>parent_done := True\<rparr>\<rparr>)"

abbreviation pool_main_steps :: "(Command \<Rightarrow> 'st \<Rightarrow> 'st outcome) \<Rightarrow> 'st client \<Rightarrow> 'st client \<Rightarrow> bool" where
  "pool_main_steps h \<equiv> (pool_main_step h)\<^sup>*\<^sup>*"

definition pool_main_start :: "pool_call list \<Rightarrow> 'st \<Rightarrow> 'st client" where
  "pool_main_start prog st = \<lparr>todo = prog, doing = None, pool = NewPoolStore st 12\<rparr>"

definition finished :: "'st client \<Rightarrow> bool" where
  "finished p \<longleftrightarrow> todo p = [] \<and> doing p = None"

section \<open>Programs that use the pool as intended\<close>

datatype mode = Fresh | On | Off

fun next_mode :: "mode \<Rightarrow> pool_call \<Rightarrow> mode option" where
  "next_mode Fresh PRun = Some On"
| "next_mode Off PReconnect = Some On"
| "next_mode On (PApply _ _ _) = Some On"
| "next_mode On PStop = Some Off"
| "next_mode On PAwait = Some On"
| "next_mode On PShutdown = Some Off"
| "next_mode _ _ = None"

fun mode_after :: "mode \<Rightarrow> pool_call list \<Rightarrow> mode option" where
  "mode_after m [] = Some m"
| "mode_after m (op # ops) = (case next_mode m op of None \<Rightarrow> None | Some m' \<Rightarrow> mode_after m' ops)"

lemma mode_after_append:
  "mode_after m (xs @ ys) = (case mode_after m xs of None \<Rightarrow> None | Some m' \<Rightarrow> mode_after m' ys)"
  by (induction xs arbitrary: m) (auto split: option.splits)

text \<open>The commands a program sends, and those between its stops.\<close>

fun sent_by :: "pool_call list \<Rightarrow> Command list" where
  "sent_by [] = []"
| "sent_by (PApply c k v # ops) = Factory c k v # sent_by ops"
| "sent_by (_ # ops) = sent_by ops"

fun rounds :: "Command list \<Rightarrow> pool_call list \<Rightarrow> Command list list" where
  "rounds cur [] = []"
| "rounds cur (PApply c k v # ops) = rounds (cur @ [Factory c k v]) ops"
| "rounds cur (PStop # ops) = cur # rounds [] ops"
| "rounds cur (PShutdown # ops) = cur # rounds [] ops"
| "rounds cur (_ # ops) = rounds cur ops"

fun open_round :: "Command list \<Rightarrow> pool_call list \<Rightarrow> Command list" where
  "open_round cur [] = cur"
| "open_round cur (PApply c k v # ops) = open_round (cur @ [Factory c k v]) ops"
| "open_round cur (PStop # ops) = open_round [] ops"
| "open_round cur (PShutdown # ops) = open_round [] ops"
| "open_round cur (_ # ops) = open_round cur ops"

lemma sent_by_append [simp]: "sent_by (xs @ ys) = sent_by xs @ sent_by ys"
  by (induction xs rule: sent_by.induct) auto

lemma rounds_append: "rounds cur (xs @ ys) = rounds cur xs @ rounds (open_round cur xs) ys"
  by (induction cur xs rule: rounds.induct) auto

lemma rounds_sent: "concat (rounds cur xs) @ open_round cur xs = cur @ sent_by xs"
  by (induction cur xs rule: rounds.induct) auto

section \<open>Invariant\<close>

text \<open>The rounds that were stopped have been executed, each in an order of its own, before the rest.\<close>

definition in_rounds :: "Command list \<Rightarrow> Command list list \<Rightarrow> bool" where
  "in_rounds es rs \<longleftrightarrow> (\<exists>parts rest. es = concat parts @ rest \<and> list_all2 (\<lambda>xs ys. mset xs = mset ys) parts rs)"

definition on_duty :: "'st pool \<Rightarrow> mode \<Rightarrow> bool" where
  "on_duty s m \<longleftrightarrow> (m = On \<longrightarrow> running s \<and> task s \<noteq> None) \<and> (m = Off \<longrightarrow> \<not> running s) \<and>
     (m = Fresh \<longrightarrow> \<not> running s \<and> task s \<noteq> None)"

fun op_ok :: "'st pool \<Rightarrow> Command list \<Rightarrow> pool_call option \<Rightarrow> mode \<Rightarrow> bool" where
  "op_ok s cs None m \<longleftrightarrow> control s = CIdle \<and> accepted s = cs \<and> on_duty s m"
| "op_ok s cs (Some (PApply c k v)) m \<longleftrightarrow> running s \<and> task s \<noteq> None \<and>
     ((\<exists>ch. control s = CSend (Factory c k v) ch) \<and> accepted s = cs \<or>
      control s = CIdle \<and> accepted s = cs @ [Factory c k v] \<and> last (rets s) = Inr ())"
| "op_ok s cs (Some PRun) m \<longleftrightarrow> control s = CIdle \<and> accepted s = cs \<and> running s \<and> task s \<noteq> None"
| "op_ok s cs (Some PAwait) m \<longleftrightarrow> control s = CIdle \<and> accepted s = cs \<and> running s \<and> task s \<noteq> None"
| "op_ok s cs (Some PReconnect) m \<longleftrightarrow> control s = CIdle \<and> accepted s = cs \<and> running s \<and> task s \<noteq> None \<and>
     last (rets s) = Inr ()"
| "op_ok s cs (Some _) m \<longleftrightarrow> accepted s = cs \<and>
     (control s \<noteq> CIdle \<and> (\<forall>x ch. control s \<noteq> CSend x ch) \<and> running s \<and> (control s \<noteq> SWait \<longrightarrow> task s \<noteq> None) \<or>
      control s = CIdle \<and> \<not> running s \<and> last (rets s) = Inr ())"

definition client_inv :: "pool_call list \<Rightarrow> 'st client \<Rightarrow> bool" where
  "client_inv prog p \<longleftrightarrow> inv_pool (pool p) \<and> inv_live (pool p) \<and> (parent_done (pool p) \<or>
     (\<exists>pre m. prog = pre @ (case doing p of None \<Rightarrow> [] | Some op \<Rightarrow> [op]) @ todo p \<and>
        PAwait \<notin> set pre \<and> mode_after Fresh pre = Some m \<and> in_rounds (executed (pool p)) (rounds [] pre) \<and>
        set (rets (pool p)) \<subseteq> {Inr ()} \<and> op_ok (pool p) (sent_by pre) (doing p) m))"

section \<open>The program is a run of the pool\<close>

lemma invoke_step: "control s = CIdle \<Longrightarrow> invoke op s = s \<or> control_step s (invoke op s)"
  by (cases op) (auto intro: control_step.intros)

lemma invoke_parent: "control s = CIdle \<Longrightarrow> parent_done (invoke op s) = parent_done s"
  by (cases op) (auto simp: call_defs split: option.splits)

lemma client_pool_step: "pool_main_step h p q \<Longrightarrow> pool q = pool p \<or> pool_step h (pool p) (pool q)"
proof (induction rule: pool_main_step.induct)
  case (begins p op ops)
  then show ?case using invoke_step [of "pool p" op] by (auto intro: pool_step.intros)
qed (auto intro: pool_step.intros)

lemma client_pool_steps: "pool_main_steps h p q \<Longrightarrow> pool_steps h (pool p) (pool q)"
proof (induction rule: rtranclp_induct)
  case (step q r)
  then show ?case using client_pool_step [OF step(2)] by (auto intro: rtranclp.rtrancl_into_rtrancl)
qed simp

lemma control_step_parent: "control_step s t \<Longrightarrow> parent_done t = parent_done s"
  by (induction rule: control_step.induct) (auto simp: call_defs split: option.splits)

lemma own_step_parent: "own_step h s t \<Longrightarrow> no_panics h \<Longrightarrow> parent_done t = parent_done s"
  by (induction rule: own_step.induct) (auto simp: control_step_parent dest: worker_step_frame)

lemma parent_done_step: "pool_step h s t \<Longrightarrow> no_panics h \<Longrightarrow> parent_done s \<Longrightarrow> parent_done t"
  by (induction rule: pool_step.induct) (auto simp: control_step_parent dest: worker_step_frame)

lemma worker_step_calls:
  "worker_step h i s t \<Longrightarrow> rets t = rets s \<and> accepted t = accepted s \<and> (\<exists>es. executed t = executed s @ es)"
  by (induction rule: worker_step.induct) (auto simp: move_def)

section \<open>The invariant is kept\<close>

lemma in_rounds_append: "in_rounds es rs \<Longrightarrow> in_rounds (es @ fs) rs"
  unfolding in_rounds_def by (metis append.assoc)

lemma in_rounds_close:
  assumes "in_rounds es rs" "mset es = mset (concat rs @ cur)"
  shows "in_rounds es (rs @ [cur])"
proof -
  obtain parts rest where parts: "es = concat parts @ rest" "list_all2 (\<lambda>xs ys. mset xs = mset ys) parts rs"
    using assms(1) by (auto simp: in_rounds_def)
  have "mset (concat parts) = mset (concat rs)" using parts(2) by (induction rule: list_all2_induct) auto
  then have "mset rest = mset cur" using assms(2) parts(1) by simp
  with parts have "es = concat (parts @ [rest]) @ []" "list_all2 (\<lambda>xs ys. mset xs = mset ys) (parts @ [rest]) (rs @ [cur])"
    by (simp_all add: list_all2_appendI)
  then show ?thesis unfolding in_rounds_def by blast
qed

lemma live_not_done:
  assumes "inv_live s" "running s" "task s = Some c" "control s = CIdle" "\<not> parent_done s"
  shows "\<not> ctx_done s"
  using assms by (auto simp: inv_live_def serving_def ctx_done_def)

lemma invoke_ok:
  assumes "inv_live s" "\<not> parent_done s" "op_ok s cs None m" "next_mode m op = Some m'" "set (rets s) \<subseteq> {Inr ()}"
  shows "op_ok (invoke op s) cs (Some op) m \<and> set (rets (invoke op s)) \<subseteq> {Inr ()} \<and>
    executed (invoke op s) = executed s"
  using assms live_not_done [OF assms(1)]
  by (cases m; cases op) (auto simp: on_duty_def call_defs)

lemma inside_ok:
  assumes "control_step s t" "control s \<noteq> CIdle" "op_ok s cs (Some op) m" "set (rets s) \<subseteq> {Inr ()}"
  shows "op_ok t cs (Some op) m \<and> set (rets t) \<subseteq> {Inr ()} \<and> executed t = executed s"
  using assms by (induction rule: control_step.induct; cases op) auto

lemma worker_ok:
  assumes "worker_step h i s t" "no_panics h" "op_ok s cs d m"
  shows "op_ok t cs d m"
  using worker_step_frame [OF assms(1,2)] worker_step_calls [OF assms(1)] assms(3)
  by (cases d; cases "the d") (auto simp: on_duty_def)

lemma returned_ok:
  assumes "inv_pool s" "op_ok s (sent_by pre) (Some op) m" "control s = CIdle" "next_mode m op = Some m'"
    "in_rounds (executed s) (rounds [] pre)"
  shows "op_ok s (sent_by (pre @ [op])) None m' \<and> in_rounds (executed s) (rounds [] (pre @ [op])) \<and>
    after op (succeeded op s) rest = rest"
proof -
  have stop: "in_rounds (executed s) (rounds [] pre @ [open_round [] pre])" if "\<not> running s" "accepted s = sent_by pre"
  proof (rule in_rounds_close [OF assms(5)])
    have "mset (executed s) = mset (accepted s)"
      using assms(1) that(1) by (auto simp: inv_pool_def inv_commands_def inv_control_def)
    then show "mset (executed s) = mset (concat (rounds [] pre) @ open_round [] pre)"
      using rounds_sent [of "[]" pre] that(2) by simp
  qed
  with assms(2-5) show ?thesis
    by (cases m; cases op) (auto simp: rounds_append on_duty_def succeeded_def)
qed

lemma mode_split:
  assumes "mode_after Fresh (pre @ op # ops) = Some m0" "mode_after Fresh pre = Some m"
  shows "\<exists>m'. next_mode m op = Some m' \<and> mode_after Fresh (pre @ [op]) = Some m'"
  using assms by (auto simp: mode_after_append split: option.splits)

lemma client_inv_step:
  assumes "pool_main_step h p q" "no_panics h" "mode_after Fresh prog = Some m0" "client_inv prog p"
  shows "client_inv prog q"
proof -
  have inv: "inv_pool (pool p)" "inv_live (pool p)" using assms(4) by (simp_all add: client_inv_def)
  then have inv': "inv_pool (pool q) \<and> inv_live (pool q)"
    using client_pool_step [OF assms(1)] inv_live_step [OF _ assms(2)] by metis
  show ?thesis
  proof (cases "parent_done (pool q)")
    case False
    then have np: "\<not> parent_done (pool p)"
      using client_pool_step [OF assms(1)] parent_done_step [OF _ assms(2)] by metis
    then obtain pre m where pre: "prog = pre @ (case doing p of None \<Rightarrow> [] | Some op \<Rightarrow> [op]) @ todo p"
        "mode_after Fresh pre = Some m" "in_rounds (executed (pool p)) (rounds [] pre)"
        "set (rets (pool p)) \<subseteq> {Inr ()}" "op_ok (pool p) (sent_by pre) (doing p) m" "PAwait \<notin> set pre"
      using assms(4) unfolding client_inv_def by blast
    from assms(1) show ?thesis
    proof cases
      case (begins op ops)
      then obtain m' where "next_mode m op = Some m'" using mode_split [of pre op ops m0 m] pre assms(3) by auto
      with invoke_ok [OF inv(2) np, of "sent_by pre" m op m'] pre begins inv' show ?thesis
        by (auto simp: client_inv_def intro!: disjI2 exI [of _ pre])
    next
      case (returns op)
      then obtain m' where m': "next_mode m op = Some m'" "mode_after Fresh (pre @ [op]) = Some m'"
        using mode_split [of pre op "todo p" m0 m] pre assms(3) by auto
      with returned_ok [OF inv(1) _ returns(3) m'(1), of pre "todo p"] pre returns inv' np show ?thesis
        by (auto simp: client_inv_def intro!: disjI2 exI [of _ "pre @ [op]"])
    next
      case (inside op s)
      with inside_ok [OF inside(4,3), of "sent_by pre" op m] pre inv' show ?thesis
        by (auto simp: client_inv_def intro!: disjI2 exI [of _ pre])
    next
      case (worker i s)
      with worker_ok [OF worker(3) assms(2)] worker_step_calls [OF worker(3)] pre inv' show ?thesis
        by (auto simp: client_inv_def in_rounds_append intro!: disjI2 exI [of _ pre])
    next
      case cancels
      then show ?thesis using inv' by (simp add: client_inv_def)
    qed
  qed (use inv' in \<open>simp add: client_inv_def\<close>)
qed

lemma client_inv_start: "client_inv prog (pool_main_start prog st)"
proof -
  have "op_ok (NewPoolStore st 12) [] None Fresh" "rets (NewPoolStore st 12) = []" "executed (NewPoolStore st 12) = []"
    by (simp_all add: NewPoolStore_def on_duty_def)
  then show ?thesis
    by (simp add: client_inv_def pool_main_start_def inv_pool_new inv_live_new in_rounds_def)
qed

lemma client_inv_reachable:
  assumes "pool_main_steps h (pool_main_start prog st) p" "no_panics h" "mode_after Fresh prog = Some m0"
  shows "client_inv prog p"
  using assms(1) by (induction rule: rtranclp_induct)
    (auto simp: client_inv_start intro: client_inv_step [OF _ assms(2,3)])

section \<open>The program can end\<close>

text \<open>A run of the pool, followed until the call in progress returns.\<close>

lemma follow_until_idle:
  assumes "own_steps h s t" "no_panics h" "doing p = Some op" "pool p = s" "control t = CIdle"
  shows "\<exists>q. pool_main_steps h p q \<and> doing q = Some op \<and> todo q = todo p \<and> parent_done (pool q) = parent_done s \<and>
    control (pool q) = CIdle"
  using assms(1,3,4)
proof (induction arbitrary: p rule: converse_rtranclp_induct)
  case base
  then show ?case using assms(5) by blast
next
  case (step s u)
  show ?case
  proof (cases "control s = CIdle")
    case True
    then show ?thesis using step.prems by blast
  next
    case False
    from step(1) have "pool_main_step h p (p\<lparr>pool := u\<rparr>)"
    proof cases
      case own_control
      then show ?thesis using pool_main_step.inside [OF step.prems(1)] False step.prems(2) by simp
    next
      case (own_worker i)
      then show ?thesis using pool_main_step.worker [of i p h u] step.prems(2) by simp
    qed
    then show ?thesis
      using step.IH [of "p\<lparr>pool := u\<rparr>"] step.prems(1) own_step_parent [OF step(1) assms(2)]
      by (auto intro: converse_rtranclp_into_rtranclp)
  qed
qed

lemma call_can_return:
  assumes "client_inv prog p" "no_panics h" "\<not> parent_done (pool p)" "doing p = Some op"
  shows "\<exists>q. pool_main_steps h p q \<and> doing q = Some op \<and> todo q = todo p \<and> \<not> parent_done (pool q) \<and>
    control (pool q) = CIdle"
proof (cases "control (pool p) = CIdle")
  case False
  have inv: "inv_pool (pool p)" "inv_live (pool p)" using assms(1) by (simp_all add: client_inv_def)
  obtain cs m where ok: "op_ok (pool p) cs (Some op) m"
    using assms unfolding client_inv_def by auto
  have "can_stop h (pool p)"
  proof (cases "control (pool p) = SWait")
    case True
    then show ?thesis by (rule can_stop_wait [OF assms(2) inv])
  next
    case nw: False
    then have "running (pool p)" "task (pool p) \<noteq> None" using ok False by (cases op; auto)+
    then show ?thesis using can_stop_running [OF assms(2)] inv assms(3) by (auto simp: live_def)
  qed
  then obtain t where t: "own_steps h (pool p) t" "\<not> running t" by (auto simp: can_reach_def)
  have "inv_pool t" using t(1) inv inv_pool_step own_step_pool by (induction rule: rtranclp_induct) blast+
  then have "control t = CIdle" using t(2) by (simp add: inv_pool_def inv_control_def)
  from follow_until_idle [OF t(1) assms(2,4) refl this] assms(3) show ?thesis by simp
qed (use assms in blast)

text \<open>Without a cancellation the program gets to the end of its calls, or to \<open>App.Run\<close>.\<close>

abbreviation steps_left :: "'st client \<Rightarrow> nat" where
  "steps_left p \<equiv> 2 * length (todo p) + (if doing p = None then 0 else 1)"

lemma client_moves_on:
  assumes "client_inv prog p" "no_panics h" "mode_after Fresh prog = Some m0" "\<not> parent_done (pool p)"
    "\<not> finished p" "doing p \<noteq> Some PAwait"
  shows "\<exists>q. pool_main_steps h p q \<and> steps_left q < steps_left p \<and> \<not> parent_done (pool q)"
proof (cases "doing p")
  case None
  then obtain op ops where todo: "todo p = op # ops" using assms(5) by (cases "todo p") (auto simp: finished_def)
  have idle: "control (pool p) = CIdle" using assms(1,4) None by (auto simp: client_inv_def)
  from pool_main_step.begins [OF None todo idle] show ?thesis
    using None todo assms(4) invoke_parent [OF idle]
    by (intro exI [of _ "p\<lparr>doing := Some op, todo := ops, pool := invoke op (pool p)\<rparr>"]) auto
next
  case (Some op)
  obtain q where q: "pool_main_steps h p q" "doing q = Some op" "todo q = todo p" "\<not> parent_done (pool q)"
      "control (pool q) = CIdle"
    using call_can_return [OF assms(1,2,4) Some] by blast
  have "client_inv prog q" using q(1) assms(1)
    by (induction rule: rtranclp_induct) (auto intro: client_inv_step [OF _ assms(2,3)])
  then obtain pre m where pre: "prog = pre @ op # todo q" "mode_after Fresh pre = Some m"
      "in_rounds (executed (pool q)) (rounds [] pre)" "op_ok (pool q) (sent_by pre) (Some op) m" "inv_pool (pool q)"
    using q(2,4) unfolding client_inv_def by auto
  obtain m1 where "next_mode m op = Some m1" using mode_split [of pre op "todo q" m0 m] pre assms(3) by auto
  from returned_ok [OF pre(5,4) q(5) this pre(3)] have "after op (succeeded op (pool q)) (todo q) = todo q" by blast
  with pool_main_step.returns [OF q(2,5)] q Some assms(6) show ?thesis
    by (intro exI [of _ "q\<lparr>doing := None, todo := todo q\<rparr>"]) (auto intro: rtranclp.rtrancl_into_rtrancl)
qed

lemma client_gets_there:
  assumes "client_inv prog p" "no_panics h" "mode_after Fresh prog = Some m0" "\<not> parent_done (pool p)"
  shows "\<exists>q. pool_main_steps h p q \<and> client_inv prog q \<and> \<not> parent_done (pool q) \<and> (finished q \<or> doing q = Some PAwait)"
proof -
  let ?good = "\<lambda>p. client_inv prog p \<and> \<not> parent_done (pool p)"
  have down: "\<exists>r. (pool_main_steps h) q r \<and> ?good r \<and> steps_left r < steps_left q"
    if "?good q" "\<not> (finished q \<or> doing q = Some PAwait)" for q
  proof -
    obtain r where r: "pool_main_steps h q r" "steps_left r < steps_left q" "\<not> parent_done (pool r)"
      using client_moves_on [OF _ assms(2,3)] \<open>?good q\<close> \<open>\<not> (finished q \<or> _)\<close> by blast
    have "client_inv prog r" using r(1) conjunct1 [OF \<open>?good q\<close>]
      by (induction rule: rtranclp_induct) (auto intro: client_inv_step [OF _ assms(2,3)])
    with r show ?thesis by blast
  qed
  have "?good p" using assms(1,4) by simp
  from descend [where step = "pool_main_steps h" and good = ?good and
      goal = "\<lambda>q. finished q \<or> doing q = Some PAwait" and m = steps_left, OF down this]
  show ?thesis by auto
qed

section \<open>What the program leaves in the store\<close>

lemma last_write_append: "last_write (xs @ ys) k v = last_write ys k (last_write xs k v)"
  by (induction xs k v rule: last_write.induct) auto

lemma last_write_rounds:
  assumes "list_all2 (\<lambda>xs ys. mset xs = mset ys) parts rs" "list_all (\<lambda>r. length (filter (writes k) r) \<le> 1) rs"
  shows "last_write (concat parts) k v = last_write (concat rs) k v"
  using assms
proof (induction arbitrary: v rule: list_all2_induct)
  case (Cons x xs y ys)
  then have "last_write x k v = last_write y k v" using last_write_perm [of y x k v] by simp
  with Cons show ?case by (simp add: last_write_append)
qed simp

lemma mem_handler_ok: "no_panics mem_handler"
  by (auto simp: apply_handler_def split_beta Let_def)

definition client_body :: "pool_call list" where
  "client_body = PRun # client_pack @ [PStop, PReconnect] @ client_pack @ [PStop, PReconnect, PApply 0 ''a'' ''new-a'']"

lemma client_main_body: "client_main = client_body @ [PAwait, PShutdown]" "PAwait \<notin> set client_body"
  by (simp add: client_main_def client_body_def) code_simp

lemma client_main_facts:
  "mode_after Fresh client_main = Some Off" "rounds [] client_body = [client_commands, client_commands]"
  "open_round [] client_body = [PutCommand ''a'' ''new-a'']"
  "sent_by client_body = client_commands @ client_commands @ [PutCommand ''a'' ''new-a'']"
  by code_simp+

lemma client_reads:
  "list_all (\<lambda>k. list_all (\<lambda>r. length (filter (writes k) r) \<le> 1) (rounds [] client_body @ [open_round [] client_body])) client_keys"
  "map (\<lambda>k. last_write (sent_by client_body) k []) client_keys = [''new-a'', [], [], ''d-3'', [], [], ''g-6'']"
  by code_simp+

text \<open>As long as the context lives, \<open>App.Run\<close> or a call before it is next.\<close>

lemma before_await:
  assumes "client_inv client_main p" "\<not> parent_done (pool p)"
  shows "\<not> finished p" "PShutdown \<in> set (todo p)"
proof -
  obtain pre where pre: "client_main = pre @ (case doing p of None \<Rightarrow> [] | Some op \<Rightarrow> [op]) @ todo p" "PAwait \<notin> set pre"
    using assms unfolding client_inv_def by blast
  have await: "PAwait \<in> set client_main" by (simp add: client_main_body(1))
  show "\<not> finished p"
  proof
    assume "finished p"
    then have "client_main = pre" using pre(1) by (simp add: finished_def)
    then show False using await pre(2) by blast
  qed
  show "PShutdown \<in> set (todo p)"
  proof (cases "todo p" rule: rev_cases)
    case Nil
    then have "client_body @ [PAwait, PShutdown] = pre @ (case doing p of None \<Rightarrow> [] | Some op \<Rightarrow> [op])"
      using pre(1) client_main_body(1) by simp
    then have "client_body @ [PAwait, PShutdown] = pre \<or> client_body @ [PAwait] = pre"
      using append1_eq_conv [of "client_body @ [PAwait]" PShutdown pre] by (cases "doing p") auto
    then have "PAwait \<in> set pre" by auto
    then show ?thesis using pre(2) by blast
  next
    case (snoc ops op)
    then have "last client_main = op" using arg_cong [OF pre(1), of last] by simp
    then show ?thesis using snoc by (simp add: client_main_body(1))
  qed
qed

lemma at_await:
  assumes "client_inv client_main p" "\<not> parent_done (pool p)" "doing p = Some PAwait"
  shows "todo p = [PShutdown]" "in_rounds (executed (pool p)) (rounds [] client_body)" "accepted (pool p) = sent_by client_body"
    "running (pool p)" "\<exists>c. task (pool p) = Some c" "control (pool p) = CIdle"
proof -
  obtain pre m where pre: "client_body @ [PAwait, PShutdown] = pre @ PAwait # todo p" "PAwait \<notin> set pre"
      "in_rounds (executed (pool p)) (rounds [] pre)" "op_ok (pool p) (sent_by pre) (Some PAwait) m"
    using assms unfolding client_inv_def client_main_body(1) by auto
  have "pre = client_body \<and> todo p = [PShutdown]"
    using pre(1,2) client_main_body(2)
    by (auto simp: append_eq_append_conv2 append_eq_Cons_conv Cons_eq_append_conv dest: arg_cong [of _ _ set])
  then show "todo p = [PShutdown]" "in_rounds (executed (pool p)) (rounds [] client_body)" "accepted (pool p) = sent_by client_body"
    "running (pool p)" "\<exists>c. task (pool p) = Some c" "control (pool p) = CIdle"
    using pre(3,4) by auto
qed

lemma client_store:
  assumes "client_inv client_main p" "pool_steps mem_handler (NewPoolStore (NewMemStore, out) 12) (pool p)"
    "\<not> parent_done (pool p)" "doing p = Some PAwait" "mset (executed (pool p)) = mset (accepted (pool p))" "k \<in> set client_keys"
  shows "store_Get k (fst (store (pool p))) = last_write (sent_by client_body) k []"
proof -
  let ?s = "pool p" and ?rs = "rounds [] client_body @ [open_round [] client_body]"
  note await = at_await [OF assms(1,3,4)]
  have all: "concat ?rs = sent_by client_body" using rounds_sent [of "[]" client_body] by simp
  then have "in_rounds (executed ?s) ?rs" using in_rounds_close [OF await(2), of "open_round [] client_body"] await(3) assms(5) by simp
  then obtain parts rest where parts: "executed ?s = concat parts @ rest" "list_all2 (\<lambda>xs ys. mset xs = mset ys) parts ?rs"
    by (auto simp: in_rounds_def)
  have "mset (concat parts) = mset (concat ?rs)" using parts(2) by (induction rule: list_all2_induct) auto
  then have "mset (concat parts) = mset (sent_by client_body)" unfolding all .
  then have "rest = []" using parts(1) await(3) assms(5) by simp
  moreover have "list_all (\<lambda>r. length (filter (writes k) r) \<le> 1) ?rs"
    using client_reads(1) assms(6) unfolding list_all_iff by blast
  ultimately have "last_write (executed ?s) k [] = last_write (sent_by client_body) k []"
    using last_write_rounds [OF parts(2), of k "[]"] parts(1) all by simp
  moreover have "fst (store ?s) = run_commands store_Put store_Get store_Del (executed ?s) NewMemStore"
    using store_reachable [OF assms(2)] run_handler_store by simp
  ultimately show ?thesis using MemStore_last_write_wins by simp
qed

section \<open>After the program was told to end\<close>

text \<open>The workers may move whatever the program does.\<close>

lemma workers_in_client: "(any_worker h)\<^sup>*\<^sup>* s t \<Longrightarrow> pool_main_steps h (p\<lparr>pool := s\<rparr>) (p\<lparr>pool := t\<rparr>)"
proof (induction rule: rtranclp_induct)
  case (step t u)
  then have "pool_main_step h (p\<lparr>pool := t\<rparr>) (p\<lparr>pool := u\<rparr>)"
    using pool_main_step.worker [of _ "p\<lparr>pool := t\<rparr>" h u] by (auto simp: any_worker_def)
  with step(3) show ?case by simp
qed simp

lemma settled_executed: "inv_pool s \<Longrightarrow> settled s \<Longrightarrow> mset (executed s) = mset (accepted s)"
proof -
  assume s: "inv_pool s" "settled s"
  have "held w = {#}" if "w \<in> set (workers s)" for w
    using s(2) that by (cases w) (auto simp: settled_def)
  then have "(\<Sum>w\<leftarrow>workers s. held w) = {#}" by (simp add: sum_list_0 cong: map_cong)
  then show ?thesis using s by (simp add: inv_pool_def inv_commands_def settled_def)
qed

text \<open>A program that waits with everything done can be cancelled and ends.\<close>

lemma settled_can_end:
  assumes "client_inv client_main q" "no_panics h" "\<not> parent_done (pool q)" "doing q = Some PAwait" "settled (pool q)"
  shows "\<exists>r. pool_main_steps h q r \<and> finished r"
proof -
  note await = at_await [OF assms(1,3,4)]
  let ?s = "(pool q)\<lparr>parent_done := True\<rparr>"
  let ?q1 = "q\<lparr>pool := ?s\<rparr>" and ?q2 = "q\<lparr>pool := ?s, doing := None, todo := [PShutdown]\<rparr>"
  let ?q3 = "q\<lparr>doing := Some PShutdown, todo := [], pool := pool_Stop_enter ?s\<rparr>"
  have inv: "inv_pool (pool q)" "inv_live (pool q)" using assms(1) by (simp_all add: client_inv_def)
  obtain c where c: "task (pool q) = Some c" using await(5) by blast
  have "pool_main_step h q ?q1" by (rule pool_main_step.cancels)
  moreover have "pool_main_step h ?q1 ?q2"
    using pool_main_step.returns [of ?q1 PAwait h] assms(4) await(1,6) by simp
  moreover have "pool_main_step h ?q2 ?q3"
    using pool_main_step.begins [of ?q2 PShutdown "[]" h] await(1,6) by simp
  ultimately have to3: "pool_main_steps h q ?q3" by (meson r_into_rtranclp rtranclp.rtrancl_into_rtrancl)
  have inv1: "inv_pool ?s \<and> inv_live ?s"
    using inv_live_step [OF pool_step.by_parent assms(2)] inv by blast
  have inv3: "inv_pool (pool_Stop_enter ?s) \<and> inv_live (pool_Stop_enter ?s)"
    using inv_live_own [OF own_control [OF call_stop] assms(2) inv1] await(6) by simp
  have "settled ?s" using assms(5) by (simp add: settled_def queue_def cong: option.case_cong)
  then have "can_stop h (pool_Stop_enter ?s)"
    using inv3 await(4) c by (intro can_stop_settled [OF assms(2), of _ c]) (auto simp: pool_Stop_enter_def)
  then obtain t where t: "own_steps h (pool_Stop_enter ?s) t" "\<not> running t" by (auto simp: can_reach_def)
  have "inv_pool t" using t(1) inv3 inv_pool_step own_step_pool by (induction rule: rtranclp_induct) blast+
  then have "control t = CIdle" using t(2) by (simp add: inv_pool_def inv_control_def)
  from follow_until_idle [OF t(1) assms(2) _ _ this, of ?q3 PShutdown]
  obtain r where r: "pool_main_steps h ?q3 r" "doing r = Some PShutdown" "todo r = []" "control (pool r) = CIdle"
    by auto
  have "pool_main_step h r (r\<lparr>doing := None, todo := []\<rparr>)"
    using pool_main_step.returns [OF r(2,4)] r(3) by simp
  with to3 r(1) show ?thesis by (intro exI [of _ "r\<lparr>doing := None, todo := []\<rparr>"]) (auto simp: finished_def)
qed

text \<open>The pool is abandoned and the program has still to shut it down, or is at it.\<close>

definition hanging :: "'st client \<Rightarrow> bool" where
  "hanging p \<longleftrightarrow> abandoned (pool p) \<and> (PShutdown \<in> set (todo p) \<or>
     doing p = Some PShutdown \<and> (control (pool p) = SLoop \<or> (\<exists>c. control (pool p) = SPoll c \<or> control (pool p) = SLen c)))"

lemma hanging_not_finished: "hanging p \<Longrightarrow> \<not> finished p"
  by (auto simp: hanging_def finished_def)

lemma after_keeps_shutdown: "PShutdown \<in> set rest \<Longrightarrow> PShutdown \<in> set (after op ok rest)"
proof (induction op ok rest rule: after.induct)
  case (1 c k v rest)
  then show ?case by (induction rest) auto
qed auto

lemma hanging_step:
  assumes "pool_main_step h p q" "hanging p"
  shows "hanging q"
proof -
  have ab: "abandoned (pool p)" using assms(2) by (simp add: hanging_def)
  have ab': "abandoned (pool q)"
    using client_pool_step [OF assms(1)] ab abandon_trap.stuck_step [of h "pool p" "pool q"] by auto
  have run: "running (pool p)" "task (pool p) \<noteq> None"
    using ab by (auto simp: abandoned_def queue_def split: option.splits)
  from assms(1) show ?thesis
  proof cases
    case (begins op ops)
    then show ?thesis using assms(2) ab' run(1) by (auto simp: hanging_def pool_Stop_enter_def)
  next
    case (returns op)
    then show ?thesis using assms(2) ab' by (auto simp: hanging_def intro: after_keeps_shutdown)
  next
    case (inside op s)
    have "control s = SLoop \<or> (\<exists>c. control s = SPoll c \<or> control s = SLen c)"
      if "control (pool p) = SLoop \<or> (\<exists>c. control (pool p) = SPoll c \<or> control (pool p) = SLen c)"
      using inside(4) that ab run inside(1) ab' by cases (auto simp: abandoned_def)
    then show ?thesis using assms(2) ab' inside by (auto simp: hanging_def)
  next
    case (worker i s)
    from worker(3) have "control s = control (pool p)"
      by (induction "pool p" s rule: worker_step.induct) (auto simp: move_def)
    then show ?thesis using assms(2) ab' worker by (auto simp: hanging_def)
  next
    case cancels
    then show ?thesis using assms(2) ab' by (auto simp: hanging_def)
  qed
qed

interpretation hang: persistent "pool_main_step h" hanging for h
  by unfold_locales (fact hanging_step)

lemma queued_can_hang:
  assumes "client_inv client_main p" "no_panics h" "\<not> parent_done (pool p)" "queue (pool p) \<noteq> []"
  shows "\<exists>q. pool_main_steps h p q \<and> hanging q"
proof -
  let ?s = "(pool p)\<lparr>parent_done := True\<rparr>"
  have inv: "inv_pool (pool p)" "inv_live (pool p)" using assms(1) by (simp_all add: client_inv_def)
  have cancel: "pool_main_step h p (p\<lparr>pool := ?s\<rparr>)" by (rule pool_main_step.cancels)
  have "inv_pool ?s" "inv_live ?s" using inv_live_step [OF pool_step.by_parent assms(2)] inv by blast+
  from workers_leave [OF assms(2) this] obtain t where t: "(any_worker h)\<^sup>*\<^sup>* ?s t" "inv_pool t" "queue t = queue ?s"
      "control t = control (pool p)" "running t = running (pool p)" "\<forall>w \<in> set (workers t). w = WExit"
    by (auto simp: ctx_done_def)
  have "queue ?s = queue (pool p)" by (simp add: queue_def cong: option.case_cong)
  moreover have "running (pool p)" using inv(1) assms(4) by (auto simp: inv_pool_def inv_control_def)
  moreover have "before_cancel (control (pool p))"
    using inv(1) assms(4) by (auto simp: inv_pool_def inv_control_def queue_def split: control.splits)
  ultimately have "hanging (p\<lparr>pool := t\<rparr>)"
    using t assms(4) before_await(2) [OF assms(1,3)] by (simp add: hanging_def abandoned_def)
  moreover have "pool_main_steps h p (p\<lparr>pool := t\<rparr>)"
    using cancel workers_in_client [OF t(1), of p] by (rule converse_rtranclp_into_rtranclp)
  ultimately show ?thesis by blast
qed

lemma client_settles:
  assumes "client_inv client_main p" "no_panics h" "\<not> parent_done (pool p)"
  shows "\<exists>q. pool_main_steps h p q \<and> client_inv client_main q \<and> doing q = Some PAwait \<and> \<not> parent_done (pool q) \<and> settled (pool q)"
proof -
  obtain q where q: "pool_main_steps h p q" "client_inv client_main q" "\<not> parent_done (pool q)" "doing q = Some PAwait"
    using client_gets_there [OF assms(1,2) client_main_facts(1) assms(3)] before_await(1) by blast
  note await = at_await [OF q(2-4)]
  obtain c where "live (pool q) c CIdle"
    using await(4-6) q(2,3) by (auto simp: live_def client_inv_def)
  from settles [OF this _ assms(2)] obtain t where t: "(any_worker h)\<^sup>*\<^sup>* (pool q) t" "live t c CIdle" "settled t" by auto
  have steps: "pool_main_steps h q (q\<lparr>pool := t\<rparr>)" using workers_in_client [OF t(1), of q] by simp
  then have "client_inv client_main (q\<lparr>pool := t\<rparr>)" using q(2)
    by (induction rule: rtranclp_induct) (auto intro: client_inv_step [OF _ assms(2) client_main_facts(1)])
  with steps q(1,4) t(2,3) show ?thesis
    by (intro exI [of _ "q\<lparr>pool := t\<rparr>"]) (auto simp: live_def)
qed

section \<open>Properties\<close>

text \<open>
  C6: the program of \<^verbatim>\<open>cmd/custom_worker_pool\<close>, in every interleaving with its twelve workers. As long
  as its context is not cancelled no call of it returns an error, and it can always get to \<open>App.Run\<close>
  with every command executed, and from there, once cancelled, to its end. In \<open>App.Run\<close> every
  command has been accepted in the order of the program, and once all are executed the store holds,
  although the workers chose their own order, what the program wrote last: the new value of
  \<open>a\<close>, the values of the second pack for \<open>d\<close> and \<open>g\<close>, and nothing else. But if it is told to
  end while a command is still queued, it may hang in \<open>Shutdown\<close> for ever.
\<close>

theorem custom_worker_pool_main:
  assumes "pool_main_steps mem_handler (pool_main_start client_main (NewMemStore, out)) p" "\<not> parent_done (pool p)"
  shows "set (rets (pool p)) \<subseteq> {Inr ()} \<and>
    (\<exists>q r. pool_main_steps mem_handler p q \<and> doing q = Some PAwait \<and> \<not> parent_done (pool q) \<and>
      mset (executed (pool q)) = mset (accepted (pool q)) \<and> pool_main_steps mem_handler q r \<and> finished r) \<and>
    (doing p = Some PAwait \<longrightarrow> accepted (pool p) = client_commands @ client_commands @ [PutCommand ''a'' ''new-a''] \<and>
      (mset (executed (pool p)) = mset (accepted (pool p)) \<longrightarrow>
        map (\<lambda>k. store_Get k (fst (store (pool p)))) client_keys = [''new-a'', [], [], ''d-3'', [], [], ''g-6''])) \<and>
    (queue (pool p) \<noteq> [] \<longrightarrow> (\<exists>q. pool_main_steps mem_handler p q \<and> (\<forall>r. pool_main_steps mem_handler q r \<longrightarrow> \<not> finished r)))"
proof -
  have inv: "client_inv client_main p"
    by (rule client_inv_reachable [OF assms(1) mem_handler_ok client_main_facts(1)])
  have steps: "pool_steps mem_handler (NewPoolStore (NewMemStore, out) 12) (pool p)"
    using client_pool_steps [OF assms(1)] by (simp add: pool_main_start_def)
  have errors: "set (rets (pool p)) \<subseteq> {Inr ()}" using inv assms(2) unfolding client_inv_def by blast
  obtain q where q: "pool_main_steps mem_handler p q" "client_inv client_main q" "doing q = Some PAwait"
      "\<not> parent_done (pool q)" "settled (pool q)"
    using client_settles [OF inv mem_handler_ok assms(2)] by blast
  have "mset (executed (pool q)) = mset (accepted (pool q))"
    by (rule settled_executed [OF _ q(5)]) (use q(2) in \<open>simp add: client_inv_def\<close>)
  with settled_can_end [OF q(2) mem_handler_ok q(4,3,5)] q
  have ends: "\<exists>q r. pool_main_steps mem_handler p q \<and> doing q = Some PAwait \<and> \<not> parent_done (pool q) \<and>
      mset (executed (pool q)) = mset (accepted (pool q)) \<and> pool_main_steps mem_handler q r \<and> finished r" by blast
  have store: "map (\<lambda>k. store_Get k (fst (store (pool p)))) client_keys = [''new-a'', [], [], ''d-3'', [], [], ''g-6'']"
    if "doing p = Some PAwait" "mset (executed (pool p)) = mset (accepted (pool p))"
    by (rule trans [OF map_cong [OF refl] client_reads(2)]) (rule client_store [OF inv steps assms(2) that])
  have acc: "accepted (pool p) = client_commands @ client_commands @ [PutCommand ''a'' ''new-a'']" if "doing p = Some PAwait"
    using at_await(3) [OF inv assms(2) that] unfolding client_main_facts(4) .
  have hangs: "\<exists>q. pool_main_steps mem_handler p q \<and> (\<forall>r. pool_main_steps mem_handler q r \<longrightarrow> \<not> finished r)"
    if "queue (pool p) \<noteq> []"
    using queued_can_hang [OF inv mem_handler_ok assms(2) that] hang.kept_steps hanging_not_finished by blast
  show ?thesis using errors ends acc store hangs by (intro conjI impI)
qed

theorem custom_worker_pool_main_witness:
  "\<exists>q. pool_main_steps mem_handler (pool_main_start client_main (NewMemStore, [])) q \<and> doing q = Some PAwait \<and>
     map (\<lambda>k. store_Get k (fst (store (pool q)))) client_keys = [''new-a'', [], [], ''d-3'', [], [], ''g-6'']"
proof -
  let ?p = "pool_main_start client_main (NewMemStore, [])"
  have "\<not> parent_done (pool ?p)" by (simp add: pool_main_start_def NewPoolStore_def)
  from custom_worker_pool_main [OF rtranclp.rtrancl_refl this]
  obtain q where q: "pool_main_steps mem_handler ?p q" "doing q = Some PAwait" "\<not> parent_done (pool q)"
    "mset (executed (pool q)) = mset (accepted (pool q))" by blast
  from custom_worker_pool_main [OF q(1,3)] q(2,4)
  have "map (\<lambda>k. store_Get k (fst (store (pool q)))) client_keys = [''new-a'', [], [], ''d-3'', [], [], ''g-6'']"
    by blast
  with q(1,2) show ?thesis by (intro exI conjI)
qed

end
