(* ===== verification/Load_Balancer.thy ===== *)
theory Load_Balancer
  imports Prelude
begin

text \<open>
  The round-robin balancer of \<^verbatim>\<open>pkg/etdc_load_balancer.go\<close>. Backends are objects behind
  pointers, since a refreshed list shares the objects of the old one and health checks write
  through them. \<open>net/url\<close>, the HTTP client and the etcd client are parameters: \<open>url_ops\<close> holds
  the three URL functions the code calls, a health probe is a function from the printed URL
  to the status code or an error, and the answer of etcd is an argument of \<open>UpdateBackends\<close>.
  Log lines are left out.

  \<open>bal_step\<close> interleaves the goroutines: requests, the watcher (which computes the new list
  without the lock and installs it with the lock), the health ticker and the probes it starts. The scan
  for a backend, under the lock of the balancer, is one step: a flag that a probe flips in the middle of a scan
  is seen as flipped before or after it.
\<close>

section \<open>Backends\<close>

record 'u url_ops =
  url_Parse :: "string \<Rightarrow> 'u result"
  url_String :: "'u \<Rightarrow> string"
  with_Path :: "string \<Rightarrow> 'u \<Rightarrow> 'u"

record 'u Backend =
  URL :: 'u
  Alive :: bool
  ReverseProxy :: 'u   \<comment> \<open>the target of the single-host proxy\<close>

type_synonym 'u bheap = "'u Backend heap"

definition SetAlive :: "bool \<Rightarrow> addr \<Rightarrow> 'u bheap \<Rightarrow> 'u bheap option" where
  "SetAlive v b h = assign (Some b) (Alive_update (\<lambda>_. v)) h"

definition IsAlive :: "'u bheap \<Rightarrow> addr \<Rightarrow> bool" where
  "IsAlive h b = (case cells h b of None \<Rightarrow> False | Some x \<Rightarrow> Alive x)"

text \<open>
  \<open>pending\<close> is the list the watcher has computed and not yet installed; \<open>probes\<close> are the
  backends whose check was started and has not yet written its result.
\<close>

record 'u balancer =
  Backends :: "addr list"
  Current :: nat
  own_key :: string
  objs :: "'u bheap"
  pending :: "addr list option"
  probes :: "addr list"
  watching :: bool
  ticking :: bool

definition NewLoadBalancer :: "string \<Rightarrow> 'u balancer" where
  "NewLoadBalancer key = \<lparr>Backends = [], Current = 0, own_key = key, objs = empty_heap,
     pending = None, probes = [], watching = True, ticking = True\<rparr>"

section \<open>Choosing a backend\<close>

text \<open>The loop of \<open>RoundRobbinNextBackend\<close>, \<open>n\<close> more rounds: the answer and the new \<open>Current\<close>.\<close>

fun robin_loop :: "'u bheap \<Rightarrow> addr list \<Rightarrow> nat \<Rightarrow> nat \<Rightarrow> addr option \<times> nat" where
  "robin_loop h bs 0 c = (None, c)"
| "robin_loop h bs (Suc n) c =
     (let b = bs ! c; c' = (c + 1) mod length bs
      in if IsAlive h b then (Some b, c') else robin_loop h bs n c')"

definition RoundRobbinNextBackend :: "'u balancer \<Rightarrow> addr option \<times> 'u balancer" where
  "RoundRobbinNextBackend lb =
     (let bs = Backends lb in
      if length bs = 0 then (None, lb)
      else let b = bs ! Current lb; c = (Current lb + 1) mod length bs in
        if IsAlive (objs lb) b then (Some b, lb\<lparr>Current := c\<rparr>)
        else let (r, c') = robin_loop (objs lb) bs (length bs) c in (r, lb\<lparr>Current := c'\<rparr>))"

text \<open>What a request meets: the proxy of a backend, or status 503.\<close>

datatype 'u served = Proxied 'u | Unavailable "int \<times> string"

definition ServeHTTP :: "'u balancer \<Rightarrow> 'u served option \<times> 'u balancer" where
  "ServeHTTP lb = (case RoundRobbinNextBackend lb of
       (Some b, lb') \<Rightarrow> (map_option (\<lambda>x. Proxied (ReverseProxy x)) (cells (objs lb') b), lb')
     | (None, lb') \<Rightarrow> (Some (Unavailable (503, ''Service not available'')), lb'))"

section \<open>Refreshing the list\<close>

text \<open>The inner loop: the first known backend whose URL prints like the new one.\<close>

fun find_backend :: "'u url_ops \<Rightarrow> 'u bheap \<Rightarrow> 'u \<Rightarrow> addr list \<Rightarrow> addr option" where
  "find_backend ops h u [] = None"
| "find_backend ops h u (b # bs) =
     (case cells h b of
        Some x \<Rightarrow> if url_String ops (URL x) = url_String ops u then Some b
          else find_backend ops h u bs
      | None \<Rightarrow> find_backend ops h u bs)"

fun refresh_loop ::
  "'u url_ops \<Rightarrow> string \<Rightarrow> addr list \<Rightarrow> (string \<times> string) list \<Rightarrow> addr list \<Rightarrow> 'u bheap \<Rightarrow>
   addr list \<times> 'u bheap" where
  "refresh_loop ops own old [] new h = (new, h)"
| "refresh_loop ops own old ((key, value) # kvs) new h =
     (if key = own then refresh_loop ops own old kvs new h
      else (case url_Parse ops value of
          Inl _ \<Rightarrow> refresh_loop ops own old kvs new h
        | Inr u \<Rightarrow> (case find_backend ops h u old of
              Some b \<Rightarrow> refresh_loop ops own old kvs (new @ [b]) h
            | None \<Rightarrow> refresh_loop ops own old kvs (new @ [brk h])
                (halloc \<lparr>URL = u, Alive = True, ReverseProxy = u\<rparr> h))))"

definition update_compute ::
  "'u url_ops \<Rightarrow> (string \<times> string) list result \<Rightarrow> 'u balancer \<Rightarrow> 'u balancer" where
  "update_compute ops resp lb = (case resp of
       Inl _ \<Rightarrow> lb
     | Inr kvs \<Rightarrow>
         let (new, h) = refresh_loop ops (own_key lb) (Backends lb) kvs [] (objs lb)
         in lb\<lparr>pending := Some new, objs := h\<rparr>)"

definition update_install :: "'u balancer \<Rightarrow> 'u balancer" where
  "update_install lb = (case pending lb of
       None \<Rightarrow> lb | Some bs \<Rightarrow> lb\<lparr>Backends := bs, Current := 0, pending := None\<rparr>)"

definition UpdateBackends ::
  "'u url_ops \<Rightarrow> (string \<times> string) list result \<Rightarrow> 'u balancer \<Rightarrow> 'u balancer" where
  "UpdateBackends ops resp lb = update_install (update_compute ops resp lb)"

section \<open>Watching and health checks\<close>

definition isBackendAlive :: "'u url_ops \<Rightarrow> (string \<Rightarrow> int result) \<Rightarrow> 'u \<Rightarrow> bool" where
  "isBackendAlive ops get u = (case get (url_String ops (with_Path ops ''/health'' u)) of
       Inl _ \<Rightarrow> False | Inr status \<Rightarrow> status = 200)"

text \<open>What the watcher's select delivers; a batch of events comes with the answer to the
  \<open>Get\<close> that follows it.\<close>

datatype watch_input = WStop | WCtxDone | WClosed | WEvents "(string \<times> string) list result"

fun WatchBackends :: "'u url_ops \<Rightarrow> watch_input list \<Rightarrow> 'u balancer \<Rightarrow> 'u balancer" where
  "WatchBackends ops [] lb = lb"
| "WatchBackends ops (WEvents resp # is) lb = WatchBackends ops is (UpdateBackends ops resp lb)"
| "WatchBackends ops (_ # is) lb = lb\<lparr>watching := False\<rparr>"

text \<open>One tick of the health ticker starts a probe per backend; \<open>finish_probe\<close> is the rest of
  such a goroutine.\<close>

definition start_probes :: "'u balancer \<Rightarrow> 'u balancer" where
  "start_probes lb = lb\<lparr>probes := probes lb @ Backends lb\<rparr>"

definition finish_probe ::
  "'u url_ops \<Rightarrow> (string \<Rightarrow> int result) \<Rightarrow> nat \<Rightarrow> 'u balancer \<Rightarrow> 'u balancer option" where
  "finish_probe ops get i lb = (case cells (objs lb) (probes lb ! i) of
       None \<Rightarrow> None
     | Some x \<Rightarrow> (case SetAlive (isBackendAlive ops get (URL x)) (probes lb ! i) (objs lb) of
           None \<Rightarrow> None
         | Some h \<Rightarrow> Some (lb\<lparr>objs := h, probes := take i (probes lb) @ drop (Suc i) (probes lb)\<rparr>)))"

text \<open>A whole round with nothing in between: the probes finish one after the other.\<close>

fun finish_probes ::
  "'u url_ops \<Rightarrow> (string \<Rightarrow> int result) \<Rightarrow> nat \<Rightarrow> 'u balancer \<Rightarrow> 'u balancer option" where
  "finish_probes ops get 0 lb = Some lb"
| "finish_probes ops get (Suc n) lb =
     Option.bind (finish_probe ops get 0 lb) (finish_probes ops get n)"

definition health_round ::
  "'u url_ops \<Rightarrow> (string \<Rightarrow> int result) \<Rightarrow> 'u balancer \<Rightarrow> 'u balancer option" where
  "health_round ops get lb =
     finish_probes ops get (length (probes lb) + length (Backends lb)) (start_probes lb)"

text \<open>\<open>Run\<close>: a first refresh, then the two actors join the run group.\<close>

datatype lb_actor = WatchActor | HealthActor

definition lb_Run ::
  "'u url_ops \<Rightarrow> (string \<times> string) list result \<Rightarrow> 'u balancer \<Rightarrow> lb_actor list \<Rightarrow>
   'u balancer \<times> lb_actor list" where
  "lb_Run ops resp lb g = (UpdateBackends ops resp lb, g @ [WatchActor, HealthActor])"

inductive bal_step :: "'u url_ops \<Rightarrow> 'u balancer \<Rightarrow> 'u balancer \<Rightarrow> bool" for ops where
  request: "bal_step ops lb (snd (ServeHTTP lb))"
| watch_event: "watching lb \<Longrightarrow> pending lb = None \<Longrightarrow> bal_step ops lb (update_compute ops resp lb)"
| watch_install: "pending lb = Some bs \<Longrightarrow> bal_step ops lb (update_install lb)"
| watch_end: "pending lb = None \<Longrightarrow> bal_step ops lb (lb\<lparr>watching := False\<rparr>)"
| health_tick: "ticking lb \<Longrightarrow> bal_step ops lb (start_probes lb)"
| health_end: "bal_step ops lb (lb\<lparr>ticking := False\<rparr>)"
| health_probe: "i < length (probes lb) \<Longrightarrow> finish_probe ops get i lb = Some lb' \<Longrightarrow>
    bal_step ops lb lb'"


abbreviation bal_steps :: "'u url_ops \<Rightarrow> 'u balancer \<Rightarrow> 'u balancer \<Rightarrow> bool" where
  "bal_steps ops \<equiv> (bal_step ops)\<^sup>*\<^sup>*"

section \<open>Round robin\<close>

lemma robin_loop_found:
  assumes "c < length bs" "i < k" "IsAlive h (bs ! ((c + i) mod length bs))"
    "\<And>j. j < i \<Longrightarrow> \<not> IsAlive h (bs ! ((c + j) mod length bs))"
  shows "robin_loop h bs k c = (Some (bs ! ((c + i) mod length bs)), (c + i + 1) mod length bs)"
  using assms
proof (induction k arbitrary: c i)
  case (Suc k)
  show ?case
  proof (cases i)
    case 0
    then show ?thesis using Suc.prems by (simp add: Let_def)
  next
    case (Suc i')
    have dead: "\<not> IsAlive h (bs ! c)" using Suc.prems(4) [of 0] Suc.prems(1) Suc by simp
    have "robin_loop h bs k ((c + 1) mod length bs) =
        (Some (bs ! (((c + 1) mod length bs + i') mod length bs)),
         ((c + 1) mod length bs + i' + 1) mod length bs)"
    proof (rule Suc.IH)
      fix j assume "j < i'"
      then show "\<not> IsAlive h (bs ! (((c + 1) mod length bs + j) mod length bs))"
        using Suc.prems(4) [of "Suc j"] Suc by (simp add: mod_simps)
    next
      show "(c + 1) mod length bs < length bs"
        using Suc.prems(1) by (intro mod_less_divisor) linarith
    qed (use Suc Suc.prems(1-3) in \<open>simp_all add: mod_simps\<close>)
    moreover have "((c + 1) mod length bs + i' + 1) mod length bs = (c + i + 1) mod length bs"
      using Suc by (metis add.assoc add.commute add_Suc_right mod_add_left_eq plus_1_eq_Suc)
    ultimately show ?thesis using dead Suc by (simp add: Let_def mod_simps)
  qed
qed simp

lemma robin_loop_none:
  assumes "c < length bs" "\<forall>b \<in> set bs. \<not> IsAlive h b"
  shows "robin_loop h bs k c = (None, (c + k) mod length bs)"
  using assms
proof (induction k arbitrary: c)
  case (Suc k)
  have "(c + 1) mod length bs < length bs" using Suc.prems(1) by (intro mod_less_divisor) linarith
  from Suc.IH [OF this] show ?case using Suc.prems by (simp add: Let_def mod_simps)
qed simp

lemma RoundRobbin_as_loop:
  "RoundRobbinNextBackend lb =
     (if Backends lb = [] then (None, lb)
      else let (r, c) = robin_loop (objs lb) (Backends lb) (Suc (length (Backends lb))) (Current lb)
        in (r, lb\<lparr>Current := c\<rparr>))"
  by (simp add: RoundRobbinNextBackend_def Let_def split: prod.splits)

text \<open>The alive backends in the order in which they are due.\<close>

definition due :: "'u balancer \<Rightarrow> addr list" where
  "due lb = filter (IsAlive (objs lb)) (rotate (Current lb) (Backends lb))"

lemma due_empty: "due lb = [] \<longleftrightarrow> (\<forall>b \<in> set (Backends lb). \<not> IsAlive (objs lb) b)"
  by (auto simp: due_def filter_empty_conv)

lemma filter_take_none:
  assumes "\<And>j. j < i \<Longrightarrow> \<not> P (xs ! j)"
  shows "filter P (take i xs) = []"
  using assms by (auto simp: filter_empty_conv in_set_conv_nth)

lemma first_hit:
  assumes "filter P xs \<noteq> []"
  obtains i where "i < length xs" "P (xs ! i)" "\<And>j. j < i \<Longrightarrow> \<not> P (xs ! j)"
    "filter P xs = xs ! i # filter P (drop (Suc i) xs)"
proof -
  have ex: "\<exists>i. i < length xs \<and> P (xs ! i)"
    using assms by (auto simp: filter_empty_conv in_set_conv_nth)
  define i where "i = (LEAST i. i < length xs \<and> P (xs ! i))"
  have i: "i < length xs" "P (xs ! i)" using LeastI_ex [OF ex] by (simp_all add: i_def)
  have before: "\<not> P (xs ! j)" if "j < i" for j
    using not_less_Least [of j "\<lambda>i. i < length xs \<and> P (xs ! i)"] that i(1) by (auto simp: i_def)
  have "filter P xs = filter P (take i xs @ xs ! i # drop (Suc i) xs)"
    using id_take_nth_drop [OF i(1)] by simp
  also have "\<dots> = xs ! i # filter P (drop (Suc i) xs)"
    using i(2) filter_take_none [of i P xs] before by simp
  finally show ?thesis using i before that by blast
qed

lemma RoundRobbin_none:
  assumes "due lb = []" "Backends lb \<noteq> [] \<Longrightarrow> Current lb < length (Backends lb)"
  shows "fst (RoundRobbinNextBackend lb) = None"
  using assms
  by (auto simp: RoundRobbin_as_loop due_empty robin_loop_none simp del: robin_loop.simps)

lemma RoundRobbin_some:
  assumes "due lb \<noteq> []" "Current lb < length (Backends lb)"
  shows "fst (RoundRobbinNextBackend lb) = Some (hd (due lb)) \<and>
    due (snd (RoundRobbinNextBackend lb)) = rotate1 (due lb)"
proof -
  define bs c n where "bs = Backends lb" and "c = Current lb" and "n = length (Backends lb)"
  define xs where "xs = rotate c bs"
  have len: "length xs = n" by (simp add: xs_def bs_def n_def)
  from assms(1) have ne: "filter (IsAlive (objs lb)) xs \<noteq> []" by (simp add: due_def xs_def bs_def c_def)
  obtain i where i: "i < length xs" "IsAlive (objs lb) (xs ! i)"
      "\<And>j. j < i \<Longrightarrow> \<not> IsAlive (objs lb) (xs ! j)"
      "filter (IsAlive (objs lb)) xs = xs ! i # filter (IsAlive (objs lb)) (drop (Suc i) xs)"
    by (rule first_hit [OF ne]) blast
  have nth: "xs ! j = bs ! ((c + j) mod n)" if "j < n" for j
    using that by (simp add: xs_def nth_rotate bs_def n_def)
  have "robin_loop (objs lb) bs (Suc n) c = (Some (bs ! ((c + i) mod n)), (c + i + 1) mod n)"
    using robin_loop_found [of c bs i "Suc n" "objs lb"] i nth len assms(2)
    by (simp add: bs_def c_def n_def del: robin_loop.simps)
  then have call: "RoundRobbinNextBackend lb = (Some (xs ! i), lb\<lparr>Current := (c + i + 1) mod n\<rparr>)"
    using assms(2) nth i(1) len
    by (auto simp: RoundRobbin_as_loop bs_def c_def n_def simp del: robin_loop.simps)
  have "rotate ((c + i + 1) mod n) bs = rotate (Suc i) xs"
    unfolding xs_def rotate_rotate n_def bs_def
    by (metis Suc_eq_plus1 add.commute add_Suc_right rotate_conv_mod)
  also have "\<dots> = drop (Suc i) xs @ take (Suc i) xs"
    using i(1) by (cases "Suc i = length xs") (auto simp: rotate_drop_take)
  finally have "due (lb\<lparr>Current := (c + i + 1) mod n\<rparr>) =
      filter (IsAlive (objs lb)) (drop (Suc i) xs) @ filter (IsAlive (objs lb)) (take (Suc i) xs)"
    by (simp add: due_def bs_def)
  moreover have "filter (IsAlive (objs lb)) (take (Suc i) xs) = [xs ! i]"
    using i(1-3) by (simp add: take_Suc_conv_app_nth filter_take_none)
  moreover have "due lb = xs ! i # filter (IsAlive (objs lb)) (drop (Suc i) xs)"
    using i(4) by (simp add: due_def xs_def bs_def c_def)
  ultimately show ?thesis using call by simp
qed

lemma RoundRobbin_frame:
  "snd (RoundRobbinNextBackend lb) = lb\<lparr>Current := Current (snd (RoundRobbinNextBackend lb))\<rparr>"
  by (simp add: RoundRobbinNextBackend_def Let_def split: prod.splits)

lemma RoundRobbin_frame_simps [simp]:
  "Backends (snd (RoundRobbinNextBackend lb)) = Backends lb"
  "objs (snd (RoundRobbinNextBackend lb)) = objs lb"
  "pending (snd (RoundRobbinNextBackend lb)) = pending lb"
  "probes (snd (RoundRobbinNextBackend lb)) = probes lb"
  by (subst RoundRobbin_frame; simp)+

lemma robin_loop_range:
  "bs \<noteq> [] \<Longrightarrow> c < length bs \<Longrightarrow> snd (robin_loop h bs k c) < length bs"
  by (induction k arbitrary: c) (auto simp: Let_def)

lemma RoundRobbin_range:
  assumes "Current lb < length (Backends lb)"
  shows "Current (snd (RoundRobbinNextBackend lb)) < length (Backends lb)"
  using assms robin_loop_range [of "Backends lb" "Current lb" "objs lb" "Suc (length (Backends lb))"]
  by (auto simp: RoundRobbin_as_loop simp del: robin_loop.simps split: prod.splits)

fun next_backends :: "nat \<Rightarrow> 'u balancer \<Rightarrow> addr option list \<times> 'u balancer" where
  "next_backends 0 lb = ([], lb)"
| "next_backends (Suc k) lb =
     (let (r, lb1) = RoundRobbinNextBackend lb; (rs, lb2) = next_backends k lb1 in (r # rs, lb2))"

lemma next_backends_due:
  assumes "due lb \<noteq> []" "Current lb < length (Backends lb)"
  shows "fst (next_backends k lb) = map (\<lambda>i. Some (due lb ! (i mod length (due lb)))) [0..<k]"
  using assms
proof (induction k arbitrary: lb)
  case (Suc k)
  let ?lb1 = "snd (RoundRobbinNextBackend lb)"
  note one = RoundRobbin_some [OF Suc.prems]
  have "fst (next_backends k ?lb1) =
      map (\<lambda>i. Some (rotate1 (due lb) ! (i mod length (due lb)))) [0..<k]"
    using Suc.IH [of ?lb1] one Suc.prems RoundRobbin_range [of lb] by simp
  also have "\<dots> = map (\<lambda>i. Some (due lb ! (Suc i mod length (due lb)))) [0..<k]"
    using Suc.prems(1) by (simp add: nth_rotate1 mod_simps)
  finally show ?case
    using one Suc.prems(1)
    by (simp add: split_beta Let_def hd_conv_nth upt_conv_Cons map_Suc_upt [symmetric]
        del: upt_Suc map_Suc_upt)
qed simp

section \<open>Invariant of the running balancer\<close>

definition known :: "'u balancer \<Rightarrow> addr set" where
  "known lb = set (Backends lb) \<union> set (probes lb) \<union> (case pending lb of None \<Rightarrow> {} | Some bs \<Rightarrow> set bs)"

definition bal_inv :: "'u balancer \<Rightarrow> bool" where
  "bal_inv lb \<longleftrightarrow> heap_ok (objs lb) \<and> known lb \<subseteq> dom (cells (objs lb)) \<and>
     (if Backends lb = [] then Current lb = 0 else Current lb < length (Backends lb))"

text \<open>The URLs of an answer of etcd, in order: own key and unreadable URLs left out.\<close>

fun wanted :: "'u url_ops \<Rightarrow> string \<Rightarrow> (string \<times> string) list \<Rightarrow> 'u list" where
  "wanted ops own [] = []"
| "wanted ops own ((key, value) # kvs) =
     (if key = own then wanted ops own kvs
      else (case url_Parse ops value of Inl _ \<Rightarrow> wanted ops own kvs | Inr u \<Rightarrow> u # wanted ops own kvs))"

text \<open>Which object stands for a URL after a refresh of the heap \<open>h\<close> to \<open>h'\<close>.\<close>

definition stands_for ::
  "'u url_ops \<Rightarrow> 'u bheap \<Rightarrow> addr list \<Rightarrow> 'u bheap \<Rightarrow> 'u \<Rightarrow> addr \<Rightarrow> bool" where
  "stands_for ops h old h' u b = (case find_backend ops h u old of
       Some b' \<Rightarrow> b = b'
     | None \<Rightarrow> cells h b = None \<and> cells h' b = Some \<lparr>URL = u, Alive = True, ReverseProxy = u\<rparr>)"

lemma find_backend_extend:
  assumes "set old \<subseteq> dom (cells h)" "cells h \<subseteq>\<^sub>m cells h'"
  shows "find_backend ops h' u old = find_backend ops h u old"
  using assms by (induction old) (auto simp: map_le_def dom_def)

lemma find_backend_in: "find_backend ops h u old = Some b \<Longrightarrow> b \<in> set old"
  by (induction old) (auto split: option.splits if_splits)

lemma halloc_extends: "heap_ok h \<Longrightarrow> cells h \<subseteq>\<^sub>m cells (halloc x h)"
  by (auto simp: map_le_def heap_ok_def halloc_def)

lemma refresh_loop_spec:
  assumes "heap_ok h" "set old \<subseteq> dom (cells h0)" "cells h0 \<subseteq>\<^sub>m cells h"
    "refresh_loop ops own old kvs new h = (new', h')"
  shows "\<exists>added. new' = new @ added \<and>
    list_all2 (stands_for ops h0 old h') (wanted ops own kvs) added \<and>
    cells h \<subseteq>\<^sub>m cells h' \<and> heap_ok h'"
  using assms
proof (induction kvs arbitrary: new h)
  case (Cons kv kvs)
  obtain key v where kv: "kv = (key, v)" by (cases kv)
  note find = find_backend_extend [OF Cons.prems(2,3)]
  show ?case
  proof (cases "key = own \<or> (\<exists>e. url_Parse ops v = Inl e)")
    case True
    then show ?thesis using Cons kv by (auto split: sum.splits)
  next
    case False
    then obtain u where u: "key \<noteq> own" "url_Parse ops v = Inr u" by (cases "url_Parse ops v") auto
    show ?thesis
    proof (cases "find_backend ops h u old")
      case (Some b)
      then have "refresh_loop ops own old kvs (new @ [b]) h = (new', h')" using Cons.prems u kv by simp
      from Cons.IH [OF Cons.prems(1-3) this] show ?thesis
        using u kv Some find by (auto simp: stands_for_def)
    next
      case None
      let ?x = "\<lparr>URL = u, Alive = True, ReverseProxy = u\<rparr>"
      have le: "cells h \<subseteq>\<^sub>m cells (halloc ?x h)" by (rule halloc_extends [OF Cons.prems(1)])
      have ok: "heap_ok (halloc ?x h)"
        using Cons.prems(1) by (auto simp: heap_ok_def halloc_def less_Suc_eq)
      have "refresh_loop ops own old kvs (new @ [brk h]) (halloc ?x h) = (new', h')"
        using Cons.prems u kv None by simp
      from Cons.IH [OF ok Cons.prems(2) map_le_trans [OF Cons.prems(3) le] this]
      obtain added where IH: "new' = new @ brk h # added"
          "list_all2 (stands_for ops h0 old h') (wanted ops own kvs) added"
          "cells (halloc ?x h) \<subseteq>\<^sub>m cells h'" "heap_ok h'"
        by (auto simp del: cells_halloc)
      have "cells h (brk h) = None" using Cons.prems(1) by (auto simp: heap_ok_def)
      with Cons.prems(3) have "cells h0 (brk h) = None" by (force simp: map_le_def dom_def)
      moreover have "cells h' (brk h) = Some ?x" using IH(3) by (force simp: map_le_def halloc_def)
      ultimately have "stands_for ops h0 old h' u (brk h)"
        using None find by (simp add: stands_for_def)
      with IH u kv map_le_trans [OF le IH(3)] show ?thesis by auto
    qed
  qed
qed auto

lemma stands_for_dom:
  assumes "list_all2 (stands_for ops h old h') us bs" "set old \<subseteq> dom (cells h)" "cells h \<subseteq>\<^sub>m cells h'"
  shows "set bs \<subseteq> dom (cells h')"
proof
  fix b assume "b \<in> set bs"
  then obtain u where "stands_for ops h old h' u b"
    using assms(1) by (auto simp: list_all2_conv_all_nth in_set_conv_nth)
  then show "b \<in> dom (cells h')"
    using assms(2) map_le_implies_dom_le [OF assms(3)]
    by (auto simp: stands_for_def dest!: find_backend_in split: option.splits)
qed

lemma update_compute_spec:
  assumes "bal_inv lb"
  obtains bs h where "update_compute ops (Inr kvs) lb = lb\<lparr>pending := Some bs, objs := h\<rparr>"
    "list_all2 (stands_for ops (objs lb) (Backends lb) h) (wanted ops (own_key lb) kvs) bs"
    "cells (objs lb) \<subseteq>\<^sub>m cells h" "heap_ok h" "set bs \<subseteq> dom (cells h)"
proof -
  obtain bs h where r: "refresh_loop ops (own_key lb) (Backends lb) kvs [] (objs lb) = (bs, h)"
    by fastforce
  have pre: "heap_ok (objs lb)" "set (Backends lb) \<subseteq> dom (cells (objs lb))"
    using assms by (auto simp: bal_inv_def known_def)
  from refresh_loop_spec [OF pre map_le_refl r]
  have new: "list_all2 (stands_for ops (objs lb) (Backends lb) h) (wanted ops (own_key lb) kvs) bs"
    "cells (objs lb) \<subseteq>\<^sub>m cells h" "heap_ok h" by auto
  with r stands_for_dom [OF new(1) pre(2) new(2)] that show ?thesis by (simp add: update_compute_def)
qed

lemma bal_inv_update:
  assumes "bal_inv lb" "pending lb = None"
  shows "bal_inv (update_compute ops resp lb)"
proof (cases resp)
  case (Inr kvs)
  obtain bs h where "update_compute ops (Inr kvs) lb = lb\<lparr>pending := Some bs, objs := h\<rparr>"
      "cells (objs lb) \<subseteq>\<^sub>m cells h" "heap_ok h" "set bs \<subseteq> dom (cells h)"
    by (rule update_compute_spec [OF assms(1)]) blast
  moreover from this have "known lb \<subseteq> dom (cells h)"
    using assms(1) map_le_implies_dom_le [of "cells (objs lb)" "cells h"]
    unfolding bal_inv_def by blast
  ultimately show ?thesis using assms Inr by (simp add: bal_inv_def known_def)
qed (use assms in \<open>simp add: update_compute_def\<close>)

lemma bal_inv_install: "bal_inv lb \<Longrightarrow> bal_inv (update_install lb)"
  by (auto simp: bal_inv_def known_def update_install_def split: option.splits)

lemma finish_probe_elim:
  assumes "finish_probe ops get i lb = Some lb'"
  obtains x where "cells (objs lb) (probes lb ! i) = Some x"
    "lb' = lb\<lparr>objs := hput (probes lb ! i) (x\<lparr>Alive := isBackendAlive ops get (URL x)\<rparr>) (objs lb),
       probes := take i (probes lb) @ drop (Suc i) (probes lb)\<rparr>"
  using assms by (auto simp: finish_probe_def SetAlive_def split: option.splits)

lemma bal_inv_probe:
  assumes "bal_inv lb" "finish_probe ops get i lb = Some lb'"
  shows "bal_inv lb'"
proof -
  obtain x where x: "cells (objs lb) (probes lb ! i) = Some x"
    "lb' = lb\<lparr>objs := hput (probes lb ! i) (x\<lparr>Alive := isBackendAlive ops get (URL x)\<rparr>) (objs lb),
       probes := take i (probes lb) @ drop (Suc i) (probes lb)\<rparr>"
    using assms(2) by (rule finish_probe_elim)
  have "known lb' \<subseteq> known lb"
    using set_take_subset [of i "probes lb"] set_drop_subset [of "Suc i" "probes lb"]
    unfolding x(2) known_def by auto
  then have "known lb' \<subseteq> dom (cells (objs lb))" using assms(1) unfolding bal_inv_def by blast
  moreover have "dom (cells (objs lb)) \<subseteq> dom (cells (objs lb'))" by (auto simp: x(2))
  ultimately have "known lb' \<subseteq> dom (cells (objs lb'))" by blast
  then show ?thesis using assms(1) x by (simp add: bal_inv_def)
qed

lemma ServeHTTP_state: "snd (ServeHTTP lb) = snd (RoundRobbinNextBackend lb)"
  by (auto simp: ServeHTTP_def split: prod.splits option.splits)

lemma bal_inv_serve: "bal_inv lb \<Longrightarrow> bal_inv (snd (ServeHTTP lb))"
  using RoundRobbin_range [of lb]
  by (auto simp: bal_inv_def known_def ServeHTTP_state)
    (simp add: RoundRobbinNextBackend_def)

lemma bal_inv_step: "bal_step ops lb lb' \<Longrightarrow> bal_inv lb \<Longrightarrow> bal_inv lb'"
proof (induction rule: bal_step.induct)
  case (health_tick lb)
  then show ?case by (auto simp: bal_inv_def known_def start_probes_def)
next
  case (watch_end lb)
  then show ?case by (simp add: bal_inv_def known_def)
next
  case (health_end lb)
  then show ?case by (simp add: bal_inv_def known_def cong: option.case_cong)
qed (auto simp: bal_inv_serve bal_inv_update bal_inv_install bal_inv_probe)

lemma bal_inv_new: "bal_inv (NewLoadBalancer key)"
  by (simp add: bal_inv_def known_def NewLoadBalancer_def)

interpretation bal_run: run_invariant "bal_step ops" bal_inv "NewLoadBalancer key" for ops key
  by unfold_locales (fact bal_inv_step bal_inv_new)+

lemma due_known: "b \<in> set (due lb) \<Longrightarrow> b \<in> set (Backends lb) \<and> IsAlive (objs lb) b"
  by (auto simp: due_def)

section \<open>Health rounds\<close>

definition checked :: "'u url_ops \<Rightarrow> (string \<Rightarrow> int result) \<Rightarrow> 'u bheap \<Rightarrow> addr \<Rightarrow> bool" where
  "checked ops get h b = (case cells h b of
       None \<Rightarrow> False | Some x \<Rightarrow> Alive x = isBackendAlive ops get (URL x))"

lemma finish_probes_spec:
  assumes "set (probes lb) \<subseteq> dom (cells (objs lb))"
  shows "\<exists>h. finish_probes ops get (length (probes lb)) lb = Some (lb\<lparr>objs := h, probes := []\<rparr>) \<and>
    dom (cells h) = dom (cells (objs lb)) \<and> Collect (checked ops get (objs lb)) \<union> set (probes lb) \<subseteq> Collect (checked ops get h)"
  using assms
proof (induction "probes lb" arbitrary: lb)
  case Nil
  then show ?case by (intro exI [of _ "objs lb"]) auto
next
  case (Cons b bs)
  then obtain x where x: "cells (objs lb) b = Some x" by (cases "cells (objs lb) b") (auto simp: Cons.hyps(2) [symmetric])
  define h1 where "h1 = hput b (x\<lparr>Alive := isBackendAlive ops get (URL x)\<rparr>) (objs lb)"
  define lb1 where "lb1 = lb\<lparr>objs := h1, probes := bs\<rparr>"
  have step: "finish_probe ops get 0 lb = Some lb1"
    using x by (simp add: finish_probe_def SetAlive_def lb1_def h1_def flip: Cons.hyps(2))
  have dom1: "dom (cells h1) = dom (cells (objs lb))" using x by (auto simp: h1_def)
  have chk: "Collect (checked ops get (objs lb)) \<union> {b} \<subseteq> Collect (checked ops get h1)"
    by (auto simp: checked_def h1_def)
  have "set (probes lb1) \<subseteq> dom (cells (objs lb1))"
    using Cons.prems dom1 by (auto simp: lb1_def simp flip: Cons.hyps(2))
  from Cons.hyps(1) [OF _ this] obtain h where
    "finish_probes ops get (length bs) lb1 = Some (lb1\<lparr>objs := h, probes := []\<rparr>)"
    "dom (cells h) = dom (cells (objs lb1))"
    "Collect (checked ops get (objs lb1)) \<union> set (probes lb1) \<subseteq> Collect (checked ops get h)"
    by (auto simp: lb1_def)
  with step dom1 chk show ?case
    by (intro exI [of _ h]) (auto simp: lb1_def simp flip: Cons.hyps(2))
qed

lemma health_round_spec:
  assumes "bal_inv lb"
  shows "\<exists>h. health_round ops get lb = Some (lb\<lparr>objs := h, probes := []\<rparr>) \<and>
    dom (cells h) = dom (cells (objs lb)) \<and> set (Backends lb) \<subseteq> Collect (checked ops get h)"
  using finish_probes_spec [of "start_probes lb" ops get] assms
  by (auto simp: health_round_def start_probes_def bal_inv_def known_def)

text \<open>A balancer over literal URLs, and one refresh of it as steps of the watcher.\<close>

definition plain_urls :: "string url_ops" where
  "plain_urls = \<lparr>url_Parse = (\<lambda>v. if v = [] then Inl ''empty url'' else Inr v),
     url_String = (\<lambda>u. u), with_Path = (\<lambda>p u. u @ p)\<rparr>"

lemma UpdateBackends_steps:
  assumes "watching lb" "pending lb = None"
  shows "bal_steps ops lb (UpdateBackends ops resp lb)"
proof (cases resp)
  case (Inl e)
  then show ?thesis
    using assms by (simp add: UpdateBackends_def update_compute_def update_install_def)
next
  case (Inr kvs)
  have "bal_step ops lb (update_compute ops resp lb)" using assms by (rule watch_event)
  moreover obtain bs where "pending (update_compute ops resp lb) = Some bs"
    using Inr by (cases "refresh_loop ops (own_key lb) (Backends lb) kvs [] (objs lb)")
      (auto simp: update_compute_def)
  then have "bal_step ops (update_compute ops resp lb) (UpdateBackends ops resp lb)"
    unfolding UpdateBackends_def by (rule watch_install)
  ultimately show ?thesis by simp
qed

definition three_backends :: "string balancer" where
  "three_backends = UpdateBackends plain_urls
     (Inr [(''/services/s/1'', ''a:1''), (''/services/s/2'', ''me''), (''/services/s/3'', ''b:1''),
           (''/services/s/4'', []), (''/services/s/5'', ''c:1'')]) (NewLoadBalancer ''/services/s/2'')"

lemmas lb_simps = three_backends_def UpdateBackends_def update_compute_def update_install_def
  plain_urls_def NewLoadBalancer_def empty_heap_def halloc_def due_def IsAlive_def

lemma three_backends_reachable:
  "bal_steps plain_urls (NewLoadBalancer ''/services/s/2'') three_backends"
  unfolding three_backends_def by (rule UpdateBackends_steps) (simp_all add: NewLoadBalancer_def)

section \<open>Properties\<close>

text \<open>
  C4: in every state the running balancer can reach, whatever the order of requests, list
  refreshes, health ticks and probe results, a request is answered without a panic (no index
  out of range, no nil backend): with 503 exactly when no backend of the current list is
  alive, and otherwise by the proxy of the first alive backend at or cyclically after
  \<open>Current\<close>.
\<close>

theorem ServeHTTP_never_panics:
  assumes "bal_steps ops (NewLoadBalancer key) lb"
  shows "if \<exists>b. b \<in> set (Backends lb) \<and> IsAlive (objs lb) b
    then \<exists>x. cells (objs lb) (hd (due lb)) = Some x \<and> Alive x \<and>
      fst (ServeHTTP lb) = Some (Proxied (ReverseProxy x))
    else fst (ServeHTTP lb) = Some (Unavailable (503, ''Service not available''))"
proof (cases "due lb = []")
  case True
  then have "fst (RoundRobbinNextBackend lb) = None"
    using bal_run.reachable [OF assms] by (intro RoundRobbin_none) (simp_all add: bal_inv_def)
  then show ?thesis using True by (auto simp: due_empty ServeHTTP_def split: prod.splits option.splits)
next
  case False
  then have hd: "hd (due lb) \<in> set (Backends lb)" "IsAlive (objs lb) (hd (due lb))"
    using due_known hd_in_set by blast+
  then obtain x where x: "cells (objs lb) (hd (due lb)) = Some x" "Alive x"
    by (auto simp: IsAlive_def split: option.splits)
  have "Current lb < length (Backends lb)"
    using bal_run.reachable [OF assms] hd(1) by (auto simp: bal_inv_def split: if_splits)
  then have "fst (ServeHTTP lb) =
      map_option (\<lambda>x. Proxied (ReverseProxy x)) (cells (objs lb) (hd (due lb)))"
    using RoundRobbin_some [OF False] RoundRobbin_frame_simps(2) [of lb]
    by (auto simp: ServeHTTP_def simp del: RoundRobbin_frame_simps split: prod.splits)
  with x hd show ?thesis by auto
qed

text \<open>
  C10: as long as the list and the health flags do not change, \<open>k\<close> consecutive calls of
  \<open>RoundRobbinNextBackend\<close> go round the alive backends, in list order starting from
  \<open>Current\<close>, so that in any window of as many calls as there are alive backends each of
  them is chosen exactly once.
\<close>

theorem RoundRobbin_fair:
  assumes "bal_steps ops (NewLoadBalancer key) lb" "due lb \<noteq> []"
  shows "fst (next_backends k lb) = map (\<lambda>i. Some (due lb ! (i mod length (due lb)))) [0..<k]"
proof -
  have "Backends lb \<noteq> []" using assms(2) by (auto simp: due_def)
  then have "Current lb < length (Backends lb)"
    using bal_run.reachable [OF assms(1)] by (simp add: bal_inv_def)
  with assms(2) show ?thesis by (rule next_backends_due)
qed

text \<open>
  C11: a refresh that gets an error from etcd changes nothing. Otherwise the new list has one
  backend per readable URL of the answer, in its order and without the balancer's own key:
  the known backend object with that URL when there is one, so that its health flag is kept,
  and else a new object that counts as alive; \<open>Current\<close> starts again at 0, and no existing
  object is changed.
\<close>

theorem UpdateBackends_spec:
  assumes "bal_steps ops (NewLoadBalancer key) lb" "pending lb = None"
  shows "UpdateBackends ops (Inl e) lb = lb \<and> Current (UpdateBackends ops (Inr kvs) lb) = 0 \<and>
    list_all2 (stands_for ops (objs lb) (Backends lb) (objs (UpdateBackends ops (Inr kvs) lb)))
      (wanted ops (own_key lb) kvs) (Backends (UpdateBackends ops (Inr kvs) lb)) \<and>
    cells (objs lb) \<subseteq>\<^sub>m cells (objs (UpdateBackends ops (Inr kvs) lb))"
proof -
  have "UpdateBackends ops (Inl e) lb = lb"
    using assms(2) by (simp add: UpdateBackends_def update_compute_def update_install_def)
  moreover obtain bs h where "update_compute ops (Inr kvs) lb = lb\<lparr>pending := Some bs, objs := h\<rparr>"
      "list_all2 (stands_for ops (objs lb) (Backends lb) h) (wanted ops (own_key lb) kvs) bs"
      "cells (objs lb) \<subseteq>\<^sub>m cells h"
    by (rule update_compute_spec [OF bal_run.reachable [OF assms(1)]]) blast
  ultimately show ?thesis by (simp add: UpdateBackends_def update_install_def)
qed

text \<open>
  A round of health checks that runs to its end (every started probe has written its
  result, nothing else in between) leaves the list as it was, and each of its backends is
  marked alive exactly when its \<^verbatim>\<open>/health\<close> answered with status 200; a request after it goes to
  such a backend, or gets 503 when there is none.
\<close>

lemma health_round_marks_backends:
  assumes "bal_steps ops (NewLoadBalancer key) lb"
  shows "\<exists>h. health_round ops get lb = Some (lb\<lparr>objs := h, probes := []\<rparr>) \<and>
    set (Backends lb) \<subseteq> {b. \<exists>x. cells h b = Some x \<and> Alive x = isBackendAlive ops get (URL x)} \<and>
    set (due (lb\<lparr>objs := h, probes := []\<rparr>)) =
      {b \<in> set (Backends lb). \<exists>x. cells h b = Some x \<and> isBackendAlive ops get (URL x)}"
proof -
  obtain h where h: "health_round ops get lb = Some (lb\<lparr>objs := h, probes := []\<rparr>)"
      "set (Backends lb) \<subseteq> Collect (checked ops get h)"
    using health_round_spec [OF bal_run.reachable [OF assms]] by blast
  then show ?thesis
    by (intro exI [of _ h]) (auto simp: due_def checked_def IsAlive_def split: option.splits)
qed

section \<open>Witnesses\<close>

theorem ServeHTTP_never_panics_witness:
  "fst (ServeHTTP three_backends) = Some (Proxied ''a:1'')"
proof -
  have "due three_backends = [0, 1, 2]"
    "cells (objs three_backends) 0 = Some \<lparr>URL = ''a:1'', Alive = True, ReverseProxy = ''a:1''\<rparr>"
    "0 \<in> set (Backends three_backends)"
    by (simp_all add: lb_simps)
  moreover from this have "IsAlive (objs three_backends) 0" by (simp add: IsAlive_def)
  ultimately show ?thesis
    using ServeHTTP_never_panics [OF three_backends_reachable] by (auto split: if_splits)
qed

theorem RoundRobbin_fair_witness:
  "fst (next_backends 4 three_backends) = [Some 0, Some 1, Some 2, Some 0]"
proof -
  have "due three_backends = [0, 1, 2]" by (simp add: lb_simps)
  moreover have "map (\<lambda>i. Some ([0, 1, 2] ! (i mod length [0, 1, 2 :: addr]))) [0..<4] =
      [Some 0, Some 1, Some 2, Some (0 :: addr)]"
    by (simp add: upt_conv_Cons)
  ultimately show ?thesis using RoundRobbin_fair [OF three_backends_reachable, of 4] by simp
qed

theorem UpdateBackends_spec_witness:
  "length (Backends (UpdateBackends plain_urls (Inr [(''k'', ''b:1''), (''l'', ''d:1'')]) three_backends)) = 2 \<and>
   UpdateBackends plain_urls (Inl ''down'') three_backends = three_backends"
proof -
  have "pending three_backends = None" by (simp add: lb_simps)
  note spec = UpdateBackends_spec [OF three_backends_reachable this,
      of "''down''" "[(''k'', ''b:1''), (''l'', ''d:1'')]"]
  have "wanted plain_urls (own_key three_backends) [(''k'', ''b:1''), (''l'', ''d:1'')] = [''b:1'', ''d:1'']"
    by (simp add: lb_simps)
  with spec show ?thesis by (auto dest!: list_all2_lengthD)
qed

lemma health_round_marks_backends_example:
  "\<exists>lb. health_round plain_urls (\<lambda>u. if u = ''b:1/health'' then Inr 200 else Inl ''refused'')
     three_backends = Some lb \<and> Backends lb = [0, 1, 2]"
proof -
  have "Backends three_backends = [0, 1, 2]" by (simp add: lb_simps)
  then show ?thesis
    using health_round_marks_backends [OF three_backends_reachable,
      of "\<lambda>u. if u = ''b:1/health'' then Inr 200 else Inl ''refused''"] by auto
qed

end
