(* ===== verification/Etcd.thy ===== *)
theory Etcd
  imports Prelude "HOL-Library.Sublist"
begin

text \<open>
  The etcd client service of \<^verbatim>\<open>pkg/etcd.go\<close>. The etcd server and the network are a parameter:
  an \<open>attempt\<close> says what the calls of one connection attempt return, and an environment gives
  the attempts one after the other. The calls that reach etcd are kept as a trace. Log lines
  are left out; \<open>logger.Fatal\<close> ends the process and is an error value.
\<close>

section \<open>The service\<close>

type_synonym client = nat
type_synonym lease = int

record EtcdClientService =
  Client :: client
  lease :: "lease option"
  has_register :: bool      \<comment> \<open>the wait group is not nil\<close>
  session :: "nat option"
  serviceId :: string
  host :: string
  key :: string

datatype etcd_call =
    Opened client
  | Closed client
  | Put client string string lease
  | Revoke client lease
  | WaitRegister

text \<open>An interface address: whether it is an \<open>IPNet\<close>, loopback, IPv4, and its text.\<close>

record net_addr =
  is_ipnet :: bool
  loopback :: bool
  is_v4 :: bool
  ip_text :: string

fun local_ip :: "net_addr list \<Rightarrow> string" where
  "local_ip [] = ''127.0.0.1''"
| "local_ip (a # as) = (if is_ipnet a \<and> \<not> loopback a \<and> is_v4 a then ip_text a else local_ip as)"

definition GetLocalIP :: "net_addr list result \<Rightarrow> string result" where
  "GetLocalIP addrs = (case addrs of Inl e \<Rightarrow> Inl e | Inr as \<Rightarrow> Inr (local_ip as))"

definition NewEtcdClientService ::
  "client result \<Rightarrow> lease result \<Rightarrow> net_addr list result \<Rightarrow> string \<Rightarrow> string \<Rightarrow> string \<Rightarrow> string \<Rightarrow>
   EtcdClientService result" where
  "NewEtcdClientService dial grant addrs port protocolPrefix k sid =
     (case dial of Inl e \<Rightarrow> Inl e
      | Inr c \<Rightarrow> (case grant of Inl e \<Rightarrow> Inl e
        | Inr l \<Rightarrow> (case GetLocalIP addrs of Inl e \<Rightarrow> Inl e
          | Inr ip \<Rightarrow> Inr \<lparr>Client = c, lease = Some l, has_register = True, session = None,
              serviceId = sid, host = protocolPrefix @ ''://'' @ ip @ port, key = k\<rparr>)))"

text \<open>The closure made by \<open>Close\<close>: what it asks of etcd, the wait for the goroutine last.\<close>

definition etcd_Close :: "EtcdClientService \<Rightarrow> etcd_call list" where
  "etcd_Close s = (case lease s of None \<Rightarrow> [] | Some l \<Rightarrow> [Revoke (Client s) l]) @
     [Closed (Client s), WaitRegister]"

definition CreateSession :: "nat result \<Rightarrow> EtcdClientService \<Rightarrow> (nat option \<times> string option) \<times> EtcdClientService" where
  "CreateSession new s = (case session s of
       Some x \<Rightarrow> ((Some x, None), s)
     | None \<Rightarrow> let r = (case new of Inl _ \<Rightarrow> None | Inr x \<Rightarrow> Some x)
         in ((r, None), s\<lparr>session := r\<rparr>))"

definition StopSession :: "EtcdClientService \<Rightarrow> EtcdClientService" where
  "StopSession s = (case session s of None \<Rightarrow> s | Some _ \<Rightarrow> s\<lparr>session := None\<rparr>)"

definition NewServiceId :: "nat \<Rightarrow> string" where
  "NewServiceId r = itoa (int r)"

definition NewServiceKey :: "string \<Rightarrow> string \<Rightarrow> string" where
  "NewServiceKey sid sName = ''/services/'' @ sName @ ''/'' @ sid"

section \<open>Registration\<close>

datatype etcd_err = closedErr | contextCancelledErr

text \<open>What the keep-alive select of \<open>restart\<close> receives.\<close>

datatype ka_event = KaMessage int | KaClosed | KaContext

record attempt =
  register_done :: bool    \<comment> \<open>\<open>ctx.Done()\<close> in \<open>Register\<close>, before this attempt\<close>
  ctx_done_top :: bool     \<comment> \<open>\<open>ctx.Done()\<close> at the head of the loop of \<open>restart\<close>\<close>
  dial_ans :: "client result"
  ctx_done_wait :: bool    \<comment> \<open>cancelled during the second after a failed dial\<close>
  grant_ans :: "lease result"
  put_ans :: "unit result"
  keepalive_ans :: "unit result"
  ka_events :: "ka_event list"

text \<open>The inner loop returns at a closed channel or a done context, and else waits on.\<close>

fun ka_returns :: "ka_event list \<Rightarrow> bool" where
  "ka_returns [] = False"
| "ka_returns (KaMessage _ # es) = ka_returns es"
| "ka_returns (_ # es) = True"

definition renewed :: "client \<Rightarrow> lease \<Rightarrow> EtcdClientService \<Rightarrow> EtcdClientService" where
  "renewed c l s = \<lparr>Client = c, lease = Some l, has_register = False, session = None,
     serviceId = serviceId s, host = host s, key = key s\<rparr>"

lemma renewed_simps [simp]:
  "key (renewed c l s) = key s" "host (renewed c l s) = host s" "serviceId (renewed c l s) = serviceId s"
  by (simp_all add: renewed_def)

type_synonym restart_ret = "(EtcdClientService option \<times> etcd_err option) \<times> nat \<times> etcd_call list"

text \<open>The loop of \<open>restart\<close> with \<open>left\<close> attempts to go, the next one being \<open>env n\<close>; \<open>None\<close> is
  the wait for keep-alive messages that does not end.\<close>

fun restart_loop ::
  "nat \<Rightarrow> (nat \<Rightarrow> attempt) \<Rightarrow> nat \<Rightarrow> EtcdClientService \<Rightarrow> etcd_call list \<Rightarrow> restart_ret option" where
  "restart_loop 0 env n s tr = Some ((Some s, None), n, tr)"
| "restart_loop (Suc left) env n s tr =
     (let a = env n in
      if ctx_done_top a then Some ((None, Some contextCancelledErr), n, tr)
      else (case dial_ans a of
          Inl _ \<Rightarrow> if ctx_done_wait a then Some ((None, Some contextCancelledErr), Suc n, tr)
            else restart_loop left env (Suc n) s tr
        | Inr c \<Rightarrow> (case grant_ans a of
            Inl _ \<Rightarrow> restart_loop left env (Suc n) s (tr @ [Opened c, Closed c])
          | Inr l \<Rightarrow>
              let s' = renewed c l s; tr' = tr @ [Opened c, Put c (key s') (host s') l] in
              (case put_ans a of
                 Inl _ \<Rightarrow> restart_loop left env (Suc n) s (tr' @ [Closed c])
               | Inr _ \<Rightarrow> (case keepalive_ans a of
                     Inl _ \<Rightarrow> restart_loop left env (Suc n) s (tr' @ [Closed c])
                   | Inr _ \<Rightarrow> if ka_returns (ka_events a)
                       then Some ((Some s', Some contextCancelledErr), Suc n, tr') else None)))))"

definition restart ::
  "(nat \<Rightarrow> attempt) \<Rightarrow> nat \<Rightarrow> EtcdClientService \<Rightarrow> etcd_call list \<Rightarrow> restart_ret option" where
  "restart env n s tr = restart_loop 5 env n s tr"

text \<open>The goroutine of \<open>Register\<close>; \<open>Some\<close> when it exits, with the attempts made and the trace.\<close>

partial_function (option) register_loop ::
  "(nat \<Rightarrow> attempt) \<Rightarrow> nat \<Rightarrow> EtcdClientService \<Rightarrow> etcd_call list \<Rightarrow> (nat \<times> etcd_call list) option" where
  "register_loop env n s tr =
     (if register_done (env n) then Some (n, tr)
      else (case restart env n s tr of
          None \<Rightarrow> None
        | Some ((s', e), n', tr') \<Rightarrow> (case e of
            Some closedErr \<Rightarrow> register_loop env n' s tr'
          | Some contextCancelledErr \<Rightarrow> Some (n', tr')
          | None \<Rightarrow> (case s' of None \<Rightarrow> Some (n', tr') | Some s'' \<Rightarrow> register_loop env n' s'' tr'))))"

definition Register ::
  "(nat \<Rightarrow> attempt) \<Rightarrow> EtcdClientService \<Rightarrow> (nat \<times> etcd_call list) option" where
  "Register env s = register_loop env 0 s []"

section \<open>What registration does\<close>

text \<open>Clients opened and not closed in a trace.\<close>

fun balance :: "etcd_call list \<Rightarrow> int" where
  "balance [] = 0"
| "balance (Opened _ # tr) = 1 + balance tr"
| "balance (Closed _ # tr) = balance tr - 1"
| "balance (_ # tr) = balance tr"

lemma balance_append [simp]: "balance (xs @ ys) = balance xs + balance ys"
  by (induction xs rule: balance.induct) auto

definition uncancelled :: "attempt \<Rightarrow> bool" where
  "uncancelled a \<longleftrightarrow> \<not> register_done a \<and> \<not> ctx_done_top a \<and> \<not> ctx_done_wait a"

definition connects :: "attempt \<Rightarrow> bool" where
  "connects a \<longleftrightarrow> \<not> isl (dial_ans a) \<and> \<not> isl (grant_ans a) \<and> \<not> isl (put_ans a) \<and> \<not> isl (keepalive_ans a)"

lemma restart_loop_step:
  obtains
    (cancelled) n' where "\<not> uncancelled (env n)" "n' \<le> Suc n"
      "\<And>left tr. restart_loop (Suc left) env n s tr = Some ((None, Some contextCancelledErr), n', tr)"
  | (connected) c l where "connects (env n)"
      "\<And>left tr. restart_loop (Suc left) env n s tr =
         (if ka_returns (ka_events (env n))
          then Some ((Some (renewed c l s), Some contextCancelledErr), Suc n,
            tr @ [Opened c, Put c (key s) (host s) l]) else None)"
  | (failed) ys where "\<not> connects (env n)" "balance ys = 0"
      "\<And>left tr. restart_loop (Suc left) env n s tr = restart_loop left env (Suc n) s (tr @ ys)"
proof -
  let ?a = "env n"
  show thesis
  proof (cases "ctx_done_top ?a")
    case True
    then show thesis using cancelled [of n] by (simp add: uncancelled_def Let_def)
  next
    case top: False
    show thesis
    proof (cases "dial_ans ?a")
      case (Inl e)
      then show thesis
        using top cancelled [of "Suc n"] failed [of "[]"]
        by (cases "ctx_done_wait ?a") (simp_all add: uncancelled_def connects_def Let_def)
    next
      case dial: (Inr c)
      show thesis
      proof (cases "grant_ans ?a")
        case (Inl e)
        then show thesis
          using top dial failed [of "[Opened c, Closed c]"] by (simp add: connects_def Let_def)
      next
        case grant: (Inr l)
        let ?put = "[Opened c, Put c (key s) (host s) l]"
        show thesis
        proof (cases "isl (put_ans ?a) \<or> isl (keepalive_ans ?a)")
          case True
          then show thesis
            using top dial grant
            by (intro failed [of "?put @ [Closed c]"])
              (auto simp: connects_def Let_def isl_def split: sum.splits)
        next
          case False
          then show thesis
            using top dial grant
            by (intro connected [of c l]) (auto simp: connects_def Let_def isl_def split: sum.splits)
        qed
      qed
    qed
  qed
qed

lemma restart_loop_result:
  "restart_loop left env n s tr = Some ((s', e), n', tr') \<Longrightarrow>
   n' \<le> n + left \<and>
   ((e = None \<and> s' = Some s \<and> n' = n + left \<and> balance tr' = balance tr) \<or>
    (e = Some contextCancelledErr \<and> s' = None \<and> balance tr' = balance tr) \<or>
    (\<exists>c l. e = Some contextCancelledErr \<and> s' = Some (renewed c l s) \<and>
       last tr' = Put c (key s) (host s) l \<and> balance tr' = balance tr + 1))"
proof (induction left arbitrary: n tr)
  case (Suc left)
  show ?case
  proof (rule restart_loop_step [of env n s])
    fix ys
    assume "balance ys = 0"
      "\<And>left tr. restart_loop (Suc left) env n s tr = restart_loop left env (Suc n) s (tr @ ys)"
    with Suc.prems Suc.IH [of "Suc n" "tr @ ys"] show ?thesis by auto
  qed (use Suc.prems in \<open>auto split: if_splits\<close>)
qed simp

text \<open>The loop ends unless it waits for the keep-alives of a live connection.\<close>

lemma restart_loop_returns:
  assumes "\<And>i. n \<le> i \<Longrightarrow> i < n + left \<Longrightarrow> connects (env i) \<Longrightarrow> ka_returns (ka_events (env i))"
  shows "\<exists>r. restart_loop left env n s tr = Some r"
  using assms
proof (induction left arbitrary: n tr)
  case (Suc left)
  show ?case
  proof (rule restart_loop_step [of env n s])
    fix ys
    assume step: "\<And>left tr. restart_loop (Suc left) env n s tr = restart_loop left env (Suc n) s (tr @ ys)"
    have "\<exists>r. restart_loop left env (Suc n) s (tr @ ys) = Some r" by (rule Suc.IH) (use Suc.prems in simp)
    then show ?thesis by (simp only: step)
  qed (use Suc.prems [of n] in auto)
qed simp

text \<open>A run of failing attempts is skipped, whatever their number.\<close>

lemma restart_loop_failing:
  assumes "\<And>i. n \<le> i \<Longrightarrow> i < n + k \<Longrightarrow> uncancelled (env i) \<and> \<not> connects (env i)"
  shows "\<exists>tr'. restart_loop (k + left) env n s tr = restart_loop left env (n + k) s tr' \<and>
    balance tr' = balance tr"
  using assms
proof (induction k arbitrary: n tr)
  case (Suc k)
  have now: "uncancelled (env n)" "\<not> connects (env n)" using Suc.prems [of n] by auto
  show ?case
  proof (rule restart_loop_step [of env n s])
    fix ys
    assume "balance ys = 0"
      "\<And>left tr. restart_loop (Suc left) env n s tr = restart_loop left env (Suc n) s (tr @ ys)"
    then show ?thesis using Suc.IH [of "Suc n" "tr @ ys"] Suc.prems by auto
  qed (use now in auto)
qed auto

lemma restart_all_failing:
  assumes "\<And>i. n \<le> i \<Longrightarrow> i < n + 5 \<Longrightarrow> uncancelled (env i) \<and> \<not> connects (env i)"
  shows "\<exists>tr'. restart env n s tr = Some ((Some s, None), n + 5, tr') \<and> balance tr' = balance tr"
  using restart_loop_failing [of n 5 env 0 s tr] assms by (auto simp: restart_def)

lemma register_loop_exits:
  assumes "register_loop env n s tr = Some r"
  shows "\<not> (\<forall>i. uncancelled (env i) \<and> \<not> connects (env i))"
  using assms
proof (rule register_loop.raw_induct
    [of "\<lambda>env n s tr r. \<not> (\<forall>i. uncancelled (env i) \<and> \<not> connects (env i))", rotated])
  fix loop and env :: "nat \<Rightarrow> attempt" and n s tr and r :: "nat \<times> etcd_call list"
  assume IH: "\<And>env n s tr r. loop env n s tr = Some r \<Longrightarrow>
      \<not> (\<forall>i. uncancelled (env i) \<and> \<not> connects (env i))"
    and body: "(if register_done (env n) then Some (n, tr)
      else (case restart env n s tr of
          None \<Rightarrow> None
        | Some ((s', e), n', tr') \<Rightarrow> (case e of
            Some closedErr \<Rightarrow> loop env n' s tr'
          | Some contextCancelledErr \<Rightarrow> Some (n', tr')
          | None \<Rightarrow> (case s' of None \<Rightarrow> Some (n', tr') | Some s'' \<Rightarrow> loop env n' s'' tr')))) = Some r"
  show "\<not> (\<forall>i. uncancelled (env i) \<and> \<not> connects (env i))"
  proof
    assume all: "\<forall>i. uncancelled (env i) \<and> \<not> connects (env i)"
    then obtain tr' where "restart env n s tr = Some ((Some s, None), n + 5, tr')"
      using restart_all_failing [of n env s tr] by auto
    with body all have "loop env (n + 5) s tr' = Some r" by (simp add: uncancelled_def)
    from IH [OF this] all show False by simp
  qed
qed

text \<open>Once an attempt connects, the goroutine ends with it, however many failed before.\<close>

lemma register_loop_connects:
  assumes "n \<le> m" "\<And>i. n \<le> i \<Longrightarrow> i < m \<Longrightarrow> uncancelled (env i) \<and> \<not> connects (env i)"
    "uncancelled (env m)" "connects (env m)" "ka_returns (ka_events (env m))"
  shows "\<exists>tr' c l. register_loop env n s tr = Some (Suc m, tr' @ [Opened c, Put c (key s) (host s) l]) \<and>
    balance tr' = balance tr"
  using assms(1,2)
proof (induction "m - n" arbitrary: n tr rule: less_induct)
  case less
  have now: "\<not> register_done (env n)"
    using less.prems assms(3) by (cases "n = m") (auto simp: uncancelled_def)
  show ?case
  proof (cases "m < n + 5")
    case True
    define k where "k = m - n"
    have k: "m = n + k" "k < 5" using True less.prems(1) by (auto simp: k_def)
    then obtain left where left: "5 = k + Suc left" by (metis less_natE add_Suc_right)
    obtain tr' where tr': "restart env n s tr = restart_loop (Suc left) env m s tr'"
        "balance tr' = balance tr"
      using restart_loop_failing [of n k env "Suc left" s tr] less.prems(2) k left
      by (auto simp: restart_def)
    show ?thesis
      by (rule restart_loop_step [of env m s])
        (use assms(3-5) now tr' in \<open>auto simp: register_loop.simps [of env n]\<close>)
  next
    case False
    then obtain tr' where tr': "restart env n s tr = Some ((Some s, None), n + 5, tr')"
        "balance tr' = balance tr"
      using restart_all_failing [of n env s tr] less.prems(2) by auto
    have "register_loop env n s tr = register_loop env (n + 5) s tr'"
      using now tr'(1) by (simp add: register_loop.simps [of env n])
    with less.hyps [of "n + 5" tr'] False less.prems tr'(2) show ?thesis by auto
  qed
qed

section \<open>Service keys\<close>

lemma prefix_up_to_slash:
  assumes "CHR ''/'' \<notin> set n" "CHR ''/'' \<notin> set n'"
  shows "prefix (n @ [CHR ''/'']) (n' @ CHR ''/'' # rest) \<longleftrightarrow> n = n'"
  using assms
proof (induction n arbitrary: n')
  case Nil
  then show ?case by (cases n') auto
next
  case (Cons x n)
  then show ?case by (cases n') auto
qed

section \<open>Properties\<close>

text \<open>
  C23: \<open>restart\<close> returns, unless it waits for the keep-alives of a connection that lives on; it makes at
  most five attempts and has three results: all five failed and it
  returns the old service without an error; the context ended and it returns nil with the
  cancellation error; or a connection was made, the key was registered under a new lease, and
  the wait for keep-alives ended, where it returns the new service, again with the
  cancellation error. It never returns \<open>closedErr\<close>, and never nil without an error. Only the
  third result leaves a client open.
\<close>

theorem restart_results:
  "((\<forall>i. n \<le> i \<and> i < n + 5 \<and> connects (env i) \<longrightarrow> ka_returns (ka_events (env i))) \<longrightarrow>
      (\<exists>r. restart env n s tr = Some r)) \<and>
   (\<forall>s' e n' tr'. restart env n s tr = Some ((s', e), n', tr') \<longrightarrow> n' \<le> n + 5 \<and>
     ((e = None \<and> s' = Some s \<and> n' = n + 5 \<and> balance tr' = balance tr) \<or>
      (e = Some contextCancelledErr \<and> s' = None \<and> balance tr' = balance tr) \<or>
      (\<exists>c l. e = Some contextCancelledErr \<and> s' = Some (renewed c l s) \<and>
         last tr' = Put c (key s) (host s) l \<and> balance tr' = balance tr + 1)))"
  using restart_loop_result [of 5 env n s tr] restart_loop_returns [of n 5 env s tr] by (simp add: restart_def)

text \<open>Without a connection, and with a live context, the goroutine does not end.\<close>

lemma Register_never_gives_up:
  assumes "\<And>i. uncancelled (env i) \<and> \<not> connects (env i)"
  shows "Register env s = None"
proof (rule ccontr)
  assume "Register env s \<noteq> None"
  then obtain r where "register_loop env 0 s [] = Some r" by (auto simp: Register_def)
  from register_loop_exits [OF this] assms show False by simp
qed

text \<open>
  C24: while the context lives, the registration goroutine tries for ever as long as no attempt
  connects (the five-attempt limit of \<open>restart\<close> does not end it), and registers at the first
  attempt \<open>m\<close> that does; but when the keep-alive channel of that connection closes, it exits
  instead of connecting again, and leaves the client open.
\<close>

theorem Register_outcomes:
  "(\<forall>m. (\<forall>i < m. uncancelled (env i) \<and> \<not> connects (env i)) \<and>
      uncancelled (env m) \<and> connects (env m) \<and> ka_returns (ka_events (env m)) \<longrightarrow>
      (\<exists>tr c l. Register env s = Some (Suc m, tr @ [Opened c, Put c (key s) (host s) l]) \<and> balance tr = 0)) \<and>
   ((\<forall>i. uncancelled (env i) \<and> \<not> connects (env i)) \<longrightarrow> Register env s = None)"
  using register_loop_connects [of 0 _ env s "[]"] Register_never_gives_up [of env s]
  by (simp add: Register_def)

text \<open>
  The keys that the balancer reads with the prefix of a service are the keys of the
  instances of that service and no others, for service names without a slash.
\<close>

lemma service_prefix_selects_service:
  assumes "CHR ''/'' \<notin> set n" "CHR ''/'' \<notin> set n'"
  shows "prefix (''/services/'' @ n @ ''/'') (NewServiceKey sid n') \<longleftrightarrow> n = n'"
  using prefix_up_to_slash [OF assms] by (simp add: NewServiceKey_def)

section \<open>Witnesses\<close>

definition demo_service :: EtcdClientService where
  "demo_service = \<lparr>Client = 0, lease = Some 1, has_register = True, session = None,
     serviceId = ''7'', host = ''http://10.0.0.1:80'', key = NewServiceKey ''7'' ''my-service''\<rparr>"

definition refused :: attempt where
  "refused = \<lparr>register_done = False, ctx_done_top = False, dial_ans = Inl ''refused'',
     ctx_done_wait = False, grant_ans = Inl [], put_ans = Inl [], keepalive_ans = Inl [], ka_events = []\<rparr>"

definition accepted :: attempt where
  "accepted = \<lparr>register_done = False, ctx_done_top = False, dial_ans = Inr 3,
     ctx_done_wait = False, grant_ans = Inr 9, put_ans = Inr (), keepalive_ans = Inr (),
     ka_events = [KaMessage 10, KaClosed]\<rparr>"

theorem restart_results_witness:
  "\<exists>r. restart (\<lambda>_. refused) 0 demo_service [] = Some ((Some demo_service, None), r) \<and> fst r = 5"
proof -
  have "restart (\<lambda>_. refused) 0 demo_service [] = Some ((Some demo_service, None), 5, [])"
    by (simp add: restart_def refused_def eval_nat_numeral)
  with restart_results [of 0 "\<lambda>_. refused" demo_service "[]"] show ?thesis by auto
qed

theorem Register_outcomes_witness:
  "\<exists>tr. Register (\<lambda>i. if i < 7 then refused else accepted) demo_service = Some (8, tr)"
  using conjunct1 [OF Register_outcomes [of "\<lambda>i. if i < 7 then refused else accepted" demo_service],
      THEN spec [of _ 7]]
  by (auto simp: uncancelled_def connects_def refused_def accepted_def)

end
