(* ===== verification/Election.thy ===== *)
theory Election
  imports Prelude
begin

text \<open>
  Leader election: the goroutine started by \<open>DoElection\<close> in \<^verbatim>\<open>pkg/etdc_load_balancer.go\<close>, with
  its stop function. The etcd session may end, the application's context may be cancelled and the stop
  function may be called at any moment. \<open>Campaign\<close> and \<open>Resign\<close> may succeed, fail or panic; \<open>leader\<close> is
  whether etcd holds the key of this instance, and follows the documented behaviour of
  the election: the key is put under the lease of the session and disappears with it, a \<open>Resign\<close> that
  succeeds deletes it, one that fails does not, and a call with a cancelled context fails. The session may be nil, since
  the program only logs the error of \<open>CreateSession\<close>. The calls are kept as a trace, with whether they
  succeeded.
\<close>

definition getInstanceID :: "string result \<Rightarrow> string" where
  "getInstanceID hostname = (case hostname of Inl _ \<Rightarrow> ''unknown'' | Inr h \<Rightarrow> h)"

datatype elect_pc = ETop | ECampaign | EWait | EResign | EStopResign | EExit

datatype elect_call = Campaign string bool | is_Resign: Resign bool

record election =
  e_pc :: elect_pc
  has_session :: bool
  stop_closed :: bool
  father_cancelled :: bool
  session_done :: bool
  lease_over :: bool
  leader :: bool
  e_calls :: "elect_call list"
  recovered :: bool              \<comment> \<open>the goroutine has ended in its deferred recover\<close>

definition election_start :: "bool \<Rightarrow> election" where
  "election_start session = \<lparr>e_pc = ETop, has_session = session, stop_closed = False, father_cancelled = False,
     session_done = False, lease_over = False, leader = False, e_calls = [], recovered = False\<rparr>"

text \<open>When a campaign can be won, and how a resignation can end: \<open>kept\<close> is whether the key is still there
  afterwards. After a resignation that failed, the next one may return without an error and
  without a request, since the election forgets its key.\<close>

definition can_win :: "election \<Rightarrow> bool" where
  "can_win s \<longleftrightarrow> has_session s \<and> \<not> lease_over s \<and> \<not> father_cancelled s"

definition resigns :: "election \<Rightarrow> bool \<Rightarrow> bool \<Rightarrow> bool" where
  "resigns s ok kept \<longleftrightarrow> (leader s \<and> \<not> kept \<longrightarrow> \<not> father_cancelled s) \<and>
     (leader s \<and> kept \<and> ok \<longrightarrow> Resign False \<in> set (e_calls s))"

inductive elect_step :: "string result \<Rightarrow> election \<Rightarrow> election \<Rightarrow> bool" for hostname where
  top_stop: "e_pc s = ETop \<Longrightarrow> stop_closed s \<Longrightarrow> elect_step hostname s (s\<lparr>e_pc := EStopResign\<rparr>)"
| top_default: "e_pc s = ETop \<Longrightarrow> \<not> stop_closed s \<Longrightarrow> elect_step hostname s (s\<lparr>e_pc := ECampaign\<rparr>)"
| campaign: "e_pc s = ECampaign \<Longrightarrow> (won \<longrightarrow> can_win s) \<Longrightarrow>
    elect_step hostname s (s\<lparr>e_pc := EWait, leader := leader s \<or> won,
      e_calls := e_calls s @ [Campaign (''instance-'' @ getInstanceID hostname) won]\<rparr>)"
| session_over: "e_pc s = EWait \<Longrightarrow> has_session s \<Longrightarrow> session_done s \<Longrightarrow> elect_step hostname s (s\<lparr>e_pc := EResign\<rparr>)"
| resign: "e_pc s = EResign \<Longrightarrow> resigns s ok kept \<Longrightarrow>
    elect_step hostname s (s\<lparr>e_pc := ETop, leader := leader s \<and> kept, e_calls := e_calls s @ [Resign ok]\<rparr>)"
| stop_resign: "e_pc s = EStopResign \<Longrightarrow> resigns s ok kept \<Longrightarrow>
    elect_step hostname s (s\<lparr>e_pc := EExit, leader := leader s \<and> kept, e_calls := e_calls s @ [Resign ok]\<rparr>)"
| call_panics: "e_pc s \<in> {ECampaign, EResign, EStopResign} \<Longrightarrow>
    elect_step hostname s (s\<lparr>e_pc := EExit, recovered := True\<rparr>)"
| nil_session: "e_pc s = EWait \<Longrightarrow> \<not> has_session s \<Longrightarrow> elect_step hostname s (s\<lparr>e_pc := EExit, recovered := True\<rparr>)"
| close_stop: "\<not> stop_closed s \<Longrightarrow> elect_step hostname s (s\<lparr>stop_closed := True\<rparr>)"
| cancel_father: "elect_step hostname s (s\<lparr>father_cancelled := True\<rparr>)"
| end_session: "elect_step hostname s (s\<lparr>session_done := True\<rparr>)"
| lease_expires: "session_done s \<Longrightarrow> elect_step hostname s (s\<lparr>lease_over := True, leader := False\<rparr>)"

abbreviation elect_steps :: "string result \<Rightarrow> election \<Rightarrow> election \<Rightarrow> bool" where
  "elect_steps hostname \<equiv> (elect_step hostname)\<^sup>*\<^sup>*"

text \<open>A key is there only under a live lease, and whoever exits with it has failed to resign.\<close>

definition elect_inv :: "election \<Rightarrow> bool" where
  "elect_inv s \<longleftrightarrow> (leader s \<longrightarrow> has_session s \<and> \<not> lease_over s) \<and>
     (e_pc s = EStopResign \<or> e_pc s = EExit \<and> \<not> recovered s \<longrightarrow> stop_closed s) \<and>
     (recovered s \<longrightarrow> e_pc s = EExit) \<and>
     (e_pc s = EExit \<and> \<not> recovered s \<longrightarrow> e_calls s \<noteq> [] \<and> is_Resign (last (e_calls s)) \<and> (leader s \<longrightarrow> Resign False \<in> set (e_calls s)))"

lemma elect_inv_step: "elect_step hn s t \<Longrightarrow> elect_inv s \<Longrightarrow> elect_inv t"
  by (induction rule: elect_step.induct) (auto simp: elect_inv_def can_win_def resigns_def)

interpretation elect_run: run_invariant "elect_step hn" elect_inv "election_start session" for hn session
  by unfold_locales (fact elect_inv_step, simp add: elect_inv_def election_start_def)

abbreviation can_end :: "string result \<Rightarrow> election \<Rightarrow> bool" where
  "can_end hn \<equiv> can_reach (elect_step hn) (\<lambda>s. e_pc s = EExit)"

lemmas can_end_step = can_reach_step [of "elect_step hn" for hn]

lemma can_end_stopped:
  assumes "stop_closed s" "session_done s"
  shows "can_end hn s"
proof -
  have 0: "can_end hn s" if "e_pc s = EExit" for s using that by (rule can_reach_now)
  have 1: "can_end hn s" if "e_pc s = EStopResign" for s
    by (rule can_end_step [OF stop_resign [of s False True]]) (simp_all add: 0 that resigns_def)
  have 2: "can_end hn s" if "e_pc s = ETop" "stop_closed s" for s
    using that by (rule can_end_step [OF top_stop]) (simp add: 1)
  have 3: "can_end hn s" if "e_pc s = EResign" "stop_closed s" for s
    by (rule can_end_step [OF resign [of s False True]]) (simp_all add: 2 that resigns_def)
  have 4: "can_end hn s" if "e_pc s = EWait" "stop_closed s" "session_done s" for s
  proof (cases "has_session s")
    case True
    show ?thesis by (rule can_end_step [OF session_over [OF that(1) True that(3)]]) (simp add: 3 that)
  next
    case False
    show ?thesis by (rule can_end_step [OF nil_session [OF that(1) False]]) (simp add: 0)
  qed
  have 5: "can_end hn s" if "e_pc s = ECampaign" "stop_closed s" "session_done s" for s
    by (rule can_end_step [OF campaign [of s False]]) (simp_all add: 4 that)
  show ?thesis using 0 1 2 3 4 5 assms by (cases "e_pc s") auto
qed

text \<open>A leader that waits is moved by nothing but the end of its session.\<close>

lemma waiting_step:
  "elect_step hn s t \<Longrightarrow> e_pc s = EWait \<Longrightarrow> leader s \<Longrightarrow> has_session s \<Longrightarrow> \<not> session_done s \<Longrightarrow>
     session_done t \<or> (e_pc t = EWait \<and> leader t \<and> has_session t)"
  by (induction rule: elect_step.induct) auto

lemma session_stays_done: "elect_step hn s t \<Longrightarrow> session_done s \<Longrightarrow> session_done t"
  by (induction rule: elect_step.induct) auto

text \<open>With the context cancelled, no call gives the leadership back.\<close>

definition held_to_the_end :: "election \<Rightarrow> bool" where
  "held_to_the_end s \<longleftrightarrow> father_cancelled s \<and> (leader s \<or> lease_over s)"

lemma held_step: "elect_step hn s t \<Longrightarrow> held_to_the_end s \<Longrightarrow> held_to_the_end t"
  by (induction rule: elect_step.induct) (auto simp: held_to_the_end_def resigns_def)

interpretation held: persistent "elect_step hn" held_to_the_end for hn
  by unfold_locales (fact held_step)

section \<open>Properties\<close>

text \<open>
  C25: how the election goroutine ends. When it has exited, either it was recovered from a panic, or the stop
  function was called and its last call was \<open>Resign\<close>; it can exit with the leadership only when it was
  recovered or a resignation has failed, and then keeps it as long as the lease of its session lives. Once the stop
  function was called and the session has ended, it can exit, whatever \<open>Campaign\<close> and \<open>Resign\<close> return and
  with a nil session too. But a leader whose session lives keeps its leadership even after the stop
  function was called; and once the context of the application is cancelled, as it is when \<open>Stop\<close> runs after
  \<open>Run\<close>, a leader keeps it until the lease is over, however it resigns.
\<close>

theorem DoElection_stop:
  assumes "elect_steps hn (election_start session) s"
  shows "(e_pc s = EExit \<longrightarrow> recovered s \<or>
      stop_closed s \<and> e_calls s \<noteq> [] \<and> is_Resign (last (e_calls s)) \<and> (leader s \<longrightarrow> Resign False \<in> set (e_calls s))) \<and>
    (leader s \<longrightarrow> session \<and> \<not> lease_over s) \<and>
    (stop_closed s \<and> session_done s \<longrightarrow> (\<exists>t. elect_steps hn s t \<and> e_pc t = EExit)) \<and>
    (e_pc s = EWait \<and> leader s \<longrightarrow>
      (\<forall>t. elect_steps hn s t \<longrightarrow> session_done t \<or> (e_pc t = EWait \<and> leader t))) \<and>
    (father_cancelled s \<and> leader s \<longrightarrow> (\<forall>t. elect_steps hn s t \<longrightarrow> leader t \<or> lease_over t))"
proof -
  have inv: "elect_inv s" by (rule elect_run.reachable [OF assms])
  have "has_session s = session" using assms
  proof (induction rule: rtranclp_induct)
    case (step s t)
    from step(2,3) show ?case by (induction rule: elect_step.induct) auto
  qed (simp add: election_start_def)
  moreover have "session_done t \<or> (e_pc t = EWait \<and> leader t)" if "e_pc s = EWait" "leader s" "elect_steps hn s t" for t
  proof -
    from that(3) have "session_done t \<or> (e_pc t = EWait \<and> leader t \<and> has_session t)"
    proof (induction rule: rtranclp_induct)
      case (step t u)
      then show ?case using waiting_step [OF step(2)] session_stays_done [OF step(2)] by blast
    qed (use that inv in \<open>simp add: elect_inv_def\<close>)
    then show ?thesis by blast
  qed
  moreover have "leader t \<or> lease_over t" if "father_cancelled s" "leader s" "elect_steps hn s t" for t
    using held.kept_steps [OF that(3)] that(1,2) by (auto simp: held_to_the_end_def)
  ultimately show ?thesis using inv can_end_stopped [of s hn] by (auto simp: elect_inv_def can_reach_def)
qed

definition stopped_leader :: election where
  "stopped_leader = \<lparr>e_pc = EWait, has_session = True, stop_closed = True, father_cancelled = True, session_done = False,
     lease_over = False, leader = True, e_calls = [Campaign ''instance-h1'' True], recovered = False\<rparr>"

lemma stopped_leader_reachable: "elect_steps (Inr ''h1'') (election_start True) stopped_leader"
proof -
  let ?s0 = "election_start True"
  let ?s1 = "?s0\<lparr>e_pc := ECampaign\<rparr>"
  let ?s2 = "?s1\<lparr>e_pc := EWait, leader := True, e_calls := [Campaign ''instance-h1'' True]\<rparr>"
  let ?s3 = "?s2\<lparr>stop_closed := True\<rparr>"
  have "elect_step (Inr ''h1'') ?s0 ?s1" by (rule top_default) (simp_all add: election_start_def)
  moreover have "elect_step (Inr ''h1'') ?s1 ?s2"
    using campaign [of ?s1 True "Inr ''h1''"] by (simp add: election_start_def getInstanceID_def can_win_def)
  moreover have "elect_step (Inr ''h1'') ?s2 ?s3" by (rule close_stop) (simp add: election_start_def)
  moreover have "elect_step (Inr ''h1'') ?s3 stopped_leader"
    using cancel_father [of "Inr ''h1''" ?s3] by (simp add: election_start_def stopped_leader_def)
  ultimately show ?thesis by (meson converse_rtranclp_into_rtranclp rtranclp.rtrancl_refl)
qed

theorem DoElection_stop_witness:
  "{t. elect_steps (Inr ''h1'') stopped_leader t} \<subseteq> {t. lease_over t} \<union> {t. leader t}"
  using DoElection_stop [OF stopped_leader_reachable] by (auto simp: stopped_leader_def)

end
