(* ===== verification/Http_Server.thy ===== *)
theory Http_Server
  imports Prelude
begin

text \<open>
  The HTTP server of \<^verbatim>\<open>server/http_server.go\<close> with its three middlewares, the logger in the request
  context (\<^verbatim>\<open>pkg/logger.go\<close>) and the JSON responses of \<^verbatim>\<open>pkg/serializer.go\<close>.

  A response writer is the connection's own writer under any number of
  \<open>loggingResponseWriter\<close>s. A handler maps a request and a writer to the writer it leaves, a
  trace (its effects and log lines, in order) and whether it panicked. \<open>gorilla/mux\<close> is a
  parameter: \<open>mux\<close> builds the router's handler from the middlewares and the routes in the order
  they were added, and \<open>mux_laws\<close> is its documented behaviour.
\<close>

section \<open>Response writers\<close>

text \<open>
  The writer of \<open>net/http\<close>: the first final status counts (1xx codes other than 101 are
  informational), and a body without one means 200. A code outside 100..999 panics there; see
  \<open>valid_call\<close> below.
\<close>

record conn_writer =
  sent :: "int option"
  headers :: "(string \<times> string) list"
  out :: string

definition new_conn :: conn_writer where
  "new_conn = \<lparr>sent = None, headers = [], out = []\<rparr>"

datatype writer = Conn conn_writer | Lrw (statusCode: int) writer

definition final_code :: "int \<Rightarrow> bool" where
  "final_code code \<longleftrightarrow> \<not> (100 \<le> code \<and> code \<le> 199 \<and> code \<noteq> 101)"

fun w_WriteHeader :: "int \<Rightarrow> writer \<Rightarrow> writer" where
  "w_WriteHeader code (Conn c) =
     Conn (if sent c = None \<and> final_code code then c\<lparr>sent := Some code\<rparr> else c)"
| "w_WriteHeader code (Lrw s w) = Lrw code (w_WriteHeader code w)"

fun w_Write :: "string \<Rightarrow> writer \<Rightarrow> writer" where
  "w_Write data (Conn c) = Conn (c\<lparr>sent := Some (case sent c of None \<Rightarrow> 200 | Some s \<Rightarrow> s), out := out c @ data\<rparr>)"
| "w_Write data (Lrw s w) = Lrw s (w_Write data w)"

text \<open>\<open>Header().Add\<close> and \<open>Header().Set\<close>, through every wrapper; lost once the status is sent.\<close>

fun w_AddHeader :: "string \<Rightarrow> string \<Rightarrow> writer \<Rightarrow> writer" where
  "w_AddHeader k v (Conn c) = Conn (if sent c = None then c\<lparr>headers := headers c @ [(k, v)]\<rparr> else c)"
| "w_AddHeader k v (Lrw s w) = Lrw s (w_AddHeader k v w)"

fun w_SetHeader :: "string \<Rightarrow> string \<Rightarrow> writer \<Rightarrow> writer" where
  "w_SetHeader k v (Conn c) =
     Conn (if sent c = None then c\<lparr>headers := filter (\<lambda>(k', _). k' \<noteq> k) (headers c) @ [(k, v)]\<rparr> else c)"
| "w_SetHeader k v (Lrw s w) = Lrw s (w_SetHeader k v w)"

definition newLoggingResponseWriter :: "writer \<Rightarrow> writer" where
  "newLoggingResponseWriter w = Lrw 200 w"

fun unwrap :: "writer \<Rightarrow> writer" where
  "unwrap (Lrw s w) = w"
| "unwrap w = w"

section \<open>Requests, loggers and handlers\<close>

record request =
  r_Method :: string
  r_RequestURI :: string
  r_Path :: string                       \<comment> \<open>\<open>r.URL.Path\<close>\<close>
  r_Body :: "string result"              \<comment> \<open>what reading the whole body gives\<close>
  r_CtxErr :: "string option"            \<comment> \<open>\<open>ctx.Err()\<close> once the body is read\<close>
  r_logger :: "string list option"       \<comment> \<open>the logger in the context, with its fields; nil is \<open>None\<close>\<close>
  r_correlation :: "string option"

definition LoggerFromCtx :: "request \<Rightarrow> string list option" where
  "LoggerFromCtx r = r_logger r"

definition LoggerWithCtx :: "string list \<Rightarrow> request \<Rightarrow> request" where
  "LoggerWithCtx l r = (if r_logger r = Some l then r else r\<lparr>r_logger := Some l\<rparr>)"

text \<open>
  The effects of a handler outside the response: the counter of a label value, the distributed
  mutex, a \<open>QueryRow\<close> that did or did not fail, the \<open>Scan\<close> of its row, the closed request body.
\<close>

datatype effect =
    IncCounter string
  | MutexLock
  | MutexUnlock
  | QueryRow string bool
  | RowScan bool
  | BodyClosed

datatype log_line =
    Completed string string int string    \<comment> \<open>method, URI, status, correlation id\<close>
  | Panicked
  | Did effect

type_synonym handled = "writer \<times> log_line list \<times> bool"
type_synonym handler = "request \<Rightarrow> writer \<Rightarrow> handled"

section \<open>Middlewares\<close>

definition LoggerContextMiddleware :: "string list \<Rightarrow> handler \<Rightarrow> handler" where
  "LoggerContextMiddleware logger next r w =
     (case next (LoggerWithCtx logger r) (newLoggingResponseWriter w) of
        (lrw, logs, p) \<Rightarrow> (unwrap lrw, logs, p))"

text \<open>Using a nil logger panics. The deferred log line is written on a panic as well.\<close>

definition LoggingMiddleware :: "string \<Rightarrow> handler \<Rightarrow> handler" where
  "LoggingMiddleware correlationID next r w =
     (let r1 = r\<lparr>r_correlation := Some correlationID\<rparr> in
      case LoggerFromCtx r1 of
        None \<Rightarrow> (w, [], True)
      | Some l \<Rightarrow>
          let logger = l @ [correlationID];
            w1 = w_AddHeader ''X-Correlation-ID'' correlationID w;
            (lrw, logs, p) = next (LoggerWithCtx logger r1) (newLoggingResponseWriter w1)
          in (unwrap lrw, logs @ [Completed (r_Method r) (r_RequestURI r) (statusCode lrw) correlationID], p))"

definition RecoverMiddleware :: "handler \<Rightarrow> handler" where
  "RecoverMiddleware next r w =
     (case next r w of (w', logs, p) \<Rightarrow>
        if \<not> p then (w', logs, False)
        else (case LoggerFromCtx r of
            None \<Rightarrow> (w', logs, True)
          | Some _ \<Rightarrow> (w_WriteHeader 500 w', logs @ [Panicked], False)))"

section \<open>The server\<close>

type_synonym middleware = "handler \<Rightarrow> handler"

text \<open>
  A route: its pattern, the methods it is limited to (\<open>[]\<close> is no limit) and its handler. A pattern
  is literal text, as all patterns of the repository are: those with variables in braces have no
  counterpart here.
\<close>

datatype pattern = Path string | PathPrefix string

record route =
  rt_pattern :: pattern
  rt_methods :: "string list"
  rt_handler :: handler

type_synonym router = "middleware list \<Rightarrow> route list \<Rightarrow> handler"

fun path_matches :: "pattern \<Rightarrow> string \<Rightarrow> bool" where
  "path_matches (Path p) q \<longleftrightarrow> p = q"
| "path_matches (PathPrefix p) q \<longleftrightarrow> take (length p) q = p"

definition method_matches :: "route \<Rightarrow> string \<Rightarrow> bool" where
  "method_matches t m \<longleftrightarrow> rt_methods t = [] \<or> m \<in> set (rt_methods t)"

fun route_for :: "route list \<Rightarrow> request \<Rightarrow> handler option" where
  "route_for [] r = None"
| "route_for (t # ts) r =
     (if path_matches (rt_pattern t) (r_Path r) \<and> method_matches t (r_Method r)
      then Some (rt_handler t) else route_for ts r)"

text \<open>Whether some route has the path and only the method does not fit.\<close>

fun path_known :: "route list \<Rightarrow> request \<Rightarrow> bool" where
  "path_known [] r \<longleftrightarrow> False"
| "path_known (t # ts) r \<longleftrightarrow> path_matches (rt_pattern t) (r_Path r) \<or> path_known ts r"

text \<open>A rooted path without empty, dot and dot-dot segments; others mux redirects.\<close>

fun segments :: "string \<Rightarrow> string list" where
  "segments [] = [[]]"
| "segments (x # xs) = (if x = CHR ''/'' then [] # segments xs
     else (case segments xs of [] \<Rightarrow> [[x]] | g # gs \<Rightarrow> (x # g) # gs))"

fun clean_path :: "string \<Rightarrow> bool" where
  "clean_path [] \<longleftrightarrow> False"
| "clean_path (x # xs) \<longleftrightarrow> x = CHR ''/'' \<and>
     list_all (\<lambda>g. g \<noteq> ''.'' \<and> g \<noteq> ''..'') (segments xs) \<and> list_all (\<lambda>g. g \<noteq> []) (butlast (segments xs))"

text \<open>
  The documentation of mux, for clean paths: the first route that matches wins and the
  middlewares run in the order they were added around its handler. When no route matches they do
  not run: the answer is 405 if only the method was wrong, and else 404.
\<close>

definition mux_laws :: "router \<Rightarrow> bool" where
  "mux_laws mux \<longleftrightarrow> (\<forall>ms routes r. clean_path (r_Path r) \<longrightarrow> (case route_for routes r of
       Some h \<Rightarrow> (\<forall>w. mux ms routes r w = foldr (\<lambda>m h. m h) ms h r w)
     | None \<Rightarrow> (\<exists>c. mux ms routes r (Conn new_conn) = (Conn c, [], False) \<and>
         sent c = Some (if path_known routes r then 405 else 404))))"

lemma mux_matched:
  "mux_laws mux \<Longrightarrow> clean_path (r_Path r) \<Longrightarrow> route_for routes r = Some h \<Longrightarrow>
   mux ms routes r w = foldr (\<lambda>m h. m h) ms h r w"
  by (auto simp: mux_laws_def dest!: spec [of _ ms] spec [of _ routes] spec [of _ r])

lemma mux_unmatched:
  "mux_laws mux \<Longrightarrow> clean_path (r_Path r) \<Longrightarrow> route_for routes r = None \<Longrightarrow>
   \<exists>c. mux ms routes r (Conn new_conn) = (Conn c, [], False) \<and>
     sent c = Some (if path_known routes r then 405 else 404)"
  by (auto simp: mux_laws_def dest!: spec [of _ ms] spec [of _ routes] spec [of _ r])

record HTTPServer =
  srv_port :: string
  Router :: "route list"

definition newSimpleHTTPServer :: "string \<Rightarrow> HTTPServer" where
  "newSimpleHTTPServer p = \<lparr>srv_port = p, Router = []\<rparr>"

text \<open>The handler that the server listens with: a balancer replaces the router.\<close>

definition RunHTTPServer :: "router \<Rightarrow> handler option \<Rightarrow> middleware list \<Rightarrow> HTTPServer \<Rightarrow> string \<times> handler" where
  "RunHTTPServer mux balancer mwf simple =
     (srv_port simple, case balancer of Some h \<Rightarrow> h | None \<Rightarrow> mux mwf (Router simple))"

definition ToConfigureHandlers :: "(HTTPServer \<Rightarrow> HTTPServer) \<Rightarrow> HTTPServer \<Rightarrow> HTTPServer" where
  "ToConfigureHandlers configure simple = configure simple"

definition CreateHttpServer ::
  "router \<Rightarrow> handler option \<Rightarrow> (HTTPServer \<Rightarrow> HTTPServer) \<Rightarrow> string \<Rightarrow> middleware list \<Rightarrow> string \<times> handler" where
  "CreateHttpServer mux loadBalancer fn port mwf =
     (let serverHttp = newSimpleHTTPServer port in
      if loadBalancer \<noteq> None then RunHTTPServer mux loadBalancer mwf serverHttp
      else RunHTTPServer mux None mwf (ToConfigureHandlers fn serverHttp))"

text \<open>The middlewares that every main function passes, in its order.\<close>

definition service_middlewares :: "string list \<Rightarrow> string \<Rightarrow> middleware list" where
  "service_middlewares logger correlationID =
     [LoggerContextMiddleware logger, RecoverMiddleware, LoggingMiddleware correlationID]"

section \<open>Handlers as scripts\<close>

datatype wcall = WriteHeader int | Write string | SetHeader string string

fun do_call :: "wcall \<Rightarrow> writer \<Rightarrow> writer" where
  "do_call (WriteHeader c) w = w_WriteHeader c w"
| "do_call (Write d) w = w_Write d w"
| "do_call (SetHeader k v) w = w_SetHeader k v w"

fun do_calls :: "wcall list \<Rightarrow> writer \<Rightarrow> writer" where
  "do_calls [] w = w"
| "do_calls (c # cs) w = do_calls cs (do_call c w)"

text \<open>A handler that has some effects, makes some calls and may panic.\<close>

type_synonym script_run = "effect list \<times> wcall list \<times> bool"

definition script :: "(request \<Rightarrow> script_run) \<Rightarrow> handler" where
  "script f r w = (case f r of (es, cs, p) \<Rightarrow> (do_calls cs w, map Did es, p))"

definition ResponseJson :: "string \<Rightarrow> int \<Rightarrow> wcall list" where
  "ResponseJson data code = [SetHeader ''Content-Type'' ''application/json'', WriteHeader code, Write data]"

section \<open>What the client and the log see\<close>

fun valid_call :: "wcall \<Rightarrow> bool" where
  "valid_call (WriteHeader c) \<longleftrightarrow> 100 \<le> c \<and> c \<le> 999"
| "valid_call _ \<longleftrightarrow> True"

text \<open>The status that is sent: of the first final \<open>WriteHeader\<close>, or 200 at the first \<open>Write\<close>.\<close>

fun first_status :: "wcall list \<Rightarrow> int option" where
  "first_status [] = None"
| "first_status (WriteHeader c # cs) = (if final_code c then Some c else first_status cs)"
| "first_status (Write _ # cs) = Some 200"
| "first_status (SetHeader _ _ # cs) = first_status cs"

text \<open>The status that a wrapper remembers: of the last \<open>WriteHeader\<close>.\<close>

fun last_status :: "int \<Rightarrow> wcall list \<Rightarrow> int" where
  "last_status s [] = s"
| "last_status s (WriteHeader c # cs) = last_status c cs"
| "last_status s (_ # cs) = last_status s cs"

fun body_of :: "wcall list \<Rightarrow> string" where
  "body_of [] = []"
| "body_of (Write d # cs) = d @ body_of cs"
| "body_of (_ # cs) = body_of cs"

lemma do_calls_Lrw: "do_calls cs (Lrw s w) = Lrw (last_status s cs) (do_calls cs w)"
proof (induction cs arbitrary: s w)
  case (Cons c cs)
  then show ?case by (cases c) auto
qed simp

lemma do_calls_Conn:
  "\<exists>c'. do_calls cs (Conn c) = Conn c' \<and>
     sent c' = (case sent c of Some s \<Rightarrow> Some s | None \<Rightarrow> first_status cs) \<and> out c' = out c @ body_of cs"
proof (induction cs arbitrary: c)
  case (Cons a cs)
  show ?case
  proof (cases a)
    case (WriteHeader k)
    then show ?thesis
      using Cons [of "if sent c = None \<and> final_code k then c\<lparr>sent := Some k\<rparr> else c"]
      by (auto split: option.splits if_splits)
  next
    case (Write d)
    then show ?thesis
      using Cons [of "c\<lparr>sent := Some (case sent c of None \<Rightarrow> 200 | Some s \<Rightarrow> s), out := out c @ d\<rparr>"]
      by (auto split: option.splits)
  next
    case (SetHeader k v)
    then show ?thesis
      using Cons [of "if sent c = None then c\<lparr>headers := filter (\<lambda>(k', _). k' \<noteq> k) (headers c) @ [(k, v)]\<rparr> else c"]
      by (auto split: option.splits if_splits)
  qed
qed (auto split: option.splits)

text \<open>The request as the innermost handler sees it.\<close>

definition inner_request :: "string list \<Rightarrow> string \<Rightarrow> request \<Rightarrow> request" where
  "inner_request logger cid r =
     LoggerWithCtx (logger @ [cid]) ((LoggerWithCtx logger r)\<lparr>r_correlation := Some cid\<rparr>)"

lemma LoggerWithCtx_fields [simp]:
  "r_logger (LoggerWithCtx l r) = Some l" "r_Method (LoggerWithCtx l r) = r_Method r"
  "r_RequestURI (LoggerWithCtx l r) = r_RequestURI r"
  by (auto simp: LoggerWithCtx_def)

lemma service_chain_calls:
  assumes "mux_laws mux" "clean_path (r_Path r)" "route_for routes r = Some h"
    and "\<And>r s w. h r (Lrw s w) = script f r (Lrw s w)" "f (inner_request logger cid r) = (es, cs, p)"
    and "do_calls cs (Conn (new_conn\<lparr>headers := [(''X-Correlation-ID'', cid)]\<rparr>)) = Conn c"
  shows "mux (service_middlewares logger cid) routes r (Conn new_conn) =
    (if p then w_WriteHeader 500 (Conn c) else Conn c,
     map Did es @ Completed (r_Method r) (r_RequestURI r) (last_status 200 cs) cid #
       (if p then [Panicked] else []), False)"
proof -
  have "mux (service_middlewares logger cid) routes r (Conn new_conn) =
      LoggerContextMiddleware logger (RecoverMiddleware (LoggingMiddleware cid h)) r (Conn new_conn)"
    using mux_matched [OF assms(1-3)] by (simp add: service_middlewares_def)
  then show ?thesis
    using assms(5,6)
    by (simp add: LoggerContextMiddleware_def RecoverMiddleware_def LoggingMiddleware_def LoggerFromCtx_def
        newLoggingResponseWriter_def assms(4) script_def do_calls_Lrw Let_def new_conn_def inner_request_def)
qed

lemma service_chain:
  assumes "mux_laws mux" "clean_path (r_Path r)" "route_for routes r = Some (script f)"
    "f (inner_request logger cid r) = (es, cs, p)"
  shows "\<exists>c. mux (service_middlewares logger cid) routes r (Conn new_conn) =
      (Conn c, map Did es @ Completed (r_Method r) (r_RequestURI r) (last_status 200 cs) cid #
        (if p then [Panicked] else []), False) \<and>
    sent c = (case first_status cs of Some s \<Rightarrow> Some s | None \<Rightarrow> if p then Some 500 else None) \<and>
    out c = body_of cs"
proof -
  have final: "final_code 500" by (simp add: final_code_def)
  obtain c where c: "do_calls cs (Conn (new_conn\<lparr>headers := [(''X-Correlation-ID'', cid)]\<rparr>)) = Conn c"
      "sent c = first_status cs" "out c = body_of cs"
    using do_calls_Conn [of cs "new_conn\<lparr>headers := [(''X-Correlation-ID'', cid)]\<rparr>"]
    by (auto simp: new_conn_def)
  from service_chain_calls [OF assms(1-3) refl assms(4) c(1)] show ?thesis
    using c(2,3) final by (auto split: option.splits)
qed

lemma ResponseJson_status [simp]:
  "final_code code \<Longrightarrow> first_status (ResponseJson d code) = Some code"
  "last_status s (ResponseJson d code) = code" "body_of (ResponseJson d code) = d"
  by (simp_all add: ResponseJson_def)

section \<open>Properties\<close>

text \<open>
  C26: a request that reaches a route of a server with the three middlewares, in the order the
  main functions pass them, is always answered and never lets a panic through: the status is
  that of the handler's first final \<open>WriteHeader\<close>, 200 if it starts with the body, and 500 if it
  panics before it has sent one. Exactly one completion line is logged, with the status of the
  handler's last \<open>WriteHeader\<close> or 200, before the recovery; so a handler that panics before
  sending a status is logged with 200 while the client gets 500.
\<close>

theorem middlewares_answer:
  assumes "mux_laws mux" "clean_path (r_Path r)" "route_for routes r = Some (script f)"
    "f (inner_request logger cid r) = (es, cs, p)" "list_all valid_call cs"
  shows "\<exists>c. mux (service_middlewares logger cid) routes r (Conn new_conn) =
      (Conn c, map Did es @ Completed (r_Method r) (r_RequestURI r) (last_status 200 cs) cid #
        (if p then [Panicked] else []), False) \<and>
    sent c = (case first_status cs of Some s \<Rightarrow> Some s | None \<Rightarrow> if p then Some 500 else None) \<and>
    out c = body_of cs"
  by (rule service_chain [OF assms(1-4)])

section \<open>Witnesses\<close>

text \<open>A router that follows the documentation, with a plain 404 when nothing matches.\<close>

definition plain_mux :: router where
  "plain_mux ms routes r w = (case route_for routes r of
       Some h \<Rightarrow> foldr (\<lambda>m h. m h) ms h r w
     | None \<Rightarrow> (w_WriteHeader (if path_known routes r then 405 else 404) w, [], False))"

lemma plain_mux_laws: "mux_laws plain_mux"
  by (auto simp: mux_laws_def plain_mux_def new_conn_def final_code_def split: option.splits)

definition get_request :: request where
  "get_request = \<lparr>r_Method = ''GET'', r_RequestURI = ''/health'', r_Path = ''/health'', r_Body = Inr [],
     r_CtxErr = None, r_logger = None, r_correlation = None\<rparr>"

definition any_route :: "handler \<Rightarrow> route" where
  "any_route h = \<lparr>rt_pattern = PathPrefix ''/'', rt_methods = [], rt_handler = h\<rparr>"

lemma route_for_any: "route_for [any_route h] get_request = Some h" "clean_path (r_Path get_request)"
  by (simp_all add: any_route_def get_request_def method_matches_def)

theorem middlewares_answer_witness:
  "\<exists>c. plain_mux (service_middlewares [''app''] ''cid'') [any_route (script (\<lambda>_. ([], [], True)))] get_request (Conn new_conn)
     = (Conn c, [Completed ''GET'' ''/health'' 200 ''cid'', Panicked], False) \<and> sent c = Some 500"
  using middlewares_answer [OF plain_mux_laws route_for_any(2,1), of "\<lambda>_. ([], [], True)"
      "[''app'']" "''cid''" "[]" "[]" True]
  by (auto simp: get_request_def)

end
