(* ===== verification/Server_Run.thy ===== *)
theory Server_Run
  imports Http_Server
begin

text \<open>
  The rest of \<^verbatim>\<open>server/http_server.go\<close>: the TLS variant of the server, the goroutine that listens,
  the shutdown function, and the optional interfaces \<open>Flusher\<close> and \<open>Hijacker\<close> through the logging
  writer. What \<open>ListenAndServe\<close> and \<open>Shutdown\<close> return is an argument.
\<close>

section \<open>TLS\<close>

text \<open>Certificate and key file, beside the port and the handler of the plain server.\<close>

definition RunHTTPSServer ::
  "router \<Rightarrow> handler option \<Rightarrow> string \<Rightarrow> string \<Rightarrow> middleware list \<Rightarrow> HTTPServer \<Rightarrow>
   (string \<times> string) \<times> string \<times> handler" where
  "RunHTTPSServer mux balancer certFile keyFile mwf simple =
     ((certFile, keyFile), srv_port simple,
      case balancer of Some h \<Rightarrow> h | None \<Rightarrow> mux mwf (Router simple))"

definition CreateHttpsServer ::
  "router \<Rightarrow> handler option \<Rightarrow> (HTTPServer \<Rightarrow> HTTPServer) \<Rightarrow> string \<Rightarrow> string \<Rightarrow> string \<Rightarrow>
   middleware list \<Rightarrow> (string \<times> string) \<times> string \<times> handler" where
  "CreateHttpsServer mux loadBalancer fn port certFile keyFile mwf =
     (let serverHttp = newSimpleHTTPServer port in
      if loadBalancer \<noteq> None then RunHTTPSServer mux loadBalancer certFile keyFile mwf serverHttp
      else RunHTTPSServer mux None certFile keyFile mwf (ToConfigureHandlers fn serverHttp))"

section \<open>Listening and shutting down\<close>

datatype serve_end = ServeNil | ErrServerClosed | ServeError string

text \<open>The goroutine's log lines and whether it panics, which ends the process.\<close>

definition serve_goroutine :: "bool \<Rightarrow> string \<Rightarrow> serve_end \<Rightarrow> string list \<times> string option" where
  "serve_goroutine tls port e =
     (let started = ''Server is running on '' @ port @ (if tls then '' with TLS'' else []) in
      case e of ServeError err \<Rightarrow> ([started], Some (''Server stopped by error: '' @ err))
      | _ \<Rightarrow> ([started, ''Server has stopped''], None))"

definition server_shutdown :: "string \<Rightarrow> string option \<Rightarrow> string list" where
  "server_shutdown port err =
     [''Shutting down the server...''] @
     (case err of None \<Rightarrow> [] | Some e \<Rightarrow> [''Server shutdown failed: '' @ e]) @
     [''Server has done: '' @ port]"

section \<open>Optional interfaces of a writer\<close>

text \<open>
  What the connection's own writer can do. The logging writer always has both methods, so a
  type assertion on it succeeds, and passes the call on when the writer below has it.
\<close>

record conn_can =
  can_flush :: bool
  can_hijack :: bool

fun is_Flusher :: "conn_can \<Rightarrow> writer \<Rightarrow> bool" where
  "is_Flusher k (Conn _) = can_flush k"
| "is_Flusher k (Lrw _ _) = True"

text \<open>How many flushes reach the connection.\<close>

fun w_Flush :: "conn_can \<Rightarrow> writer \<Rightarrow> nat" where
  "w_Flush k (Conn _) = 1"
| "w_Flush k (Lrw _ w) = (if is_Flusher k w then w_Flush k w else 0)"

fun is_Hijacker :: "conn_can \<Rightarrow> writer \<Rightarrow> bool" where
  "is_Hijacker k (Conn _) = can_hijack k"
| "is_Hijacker k (Lrw _ _) = True"

fun w_Hijack :: "conn_can \<Rightarrow> writer \<Rightarrow> conn_writer result" where
  "w_Hijack k (Conn c) = Inr c"
| "w_Hijack k (Lrw _ w) =
     (if is_Hijacker k w then w_Hijack k w
      else Inl ''the ResponseWriter does not implement http.Hijacker'')"

section \<open>Lemmas\<close>

fun conn_of :: "writer \<Rightarrow> conn_writer" where
  "conn_of (Conn c) = c"
| "conn_of (Lrw _ w) = conn_of w"

lemma Flush_wrapped: "w_Flush k (Lrw s w) = (if can_flush k then 1 else 0)"
  by (induction w arbitrary: s) auto

lemma Hijack_wrapped:
  "w_Hijack k (Lrw s w) =
     (if can_hijack k then Inr (conn_of w) else Inl ''the ResponseWriter does not implement http.Hijacker'')"
  by (induction w arbitrary: s) auto

section \<open>Properties\<close>

text \<open>
  Over TLS the server is the same: same port, same handler, so every request gets the
  same answer, log lines and panics as from the plain server, through the middlewares for a
  configured route; with a balancer both serve the balancer alone, without routes and without
  middlewares. In both the listening goroutine takes the process down exactly when it ends by
  an error other than a shutdown.
\<close>

lemma https_serves_as_http:
  assumes "mux_laws mux" "clean_path (r_Path r)" "route_for (Router (fn (newSimpleHTTPServer port))) r = Some h"
  shows "CreateHttpServer mux lb fn port mwf = snd (CreateHttpsServer mux lb fn port crt key mwf) \<and>
    snd (snd (CreateHttpsServer mux None fn port crt key mwf)) r w = foldr (\<lambda>m h. m h) mwf h r w \<and>
    snd (snd (CreateHttpsServer mux (Some b) fn port crt key mwf)) = b \<and>
    snd (CreateHttpServer mux (Some b) fn port mwf) = b \<and>
    (snd (serve_goroutine tls port e) \<noteq> None \<longleftrightarrow> e \<noteq> ServeNil \<and> e \<noteq> ErrServerClosed)"
proof -
  have "(snd (serve_goroutine tls port e) \<noteq> None) = (e \<noteq> ServeNil \<and> e \<noteq> ErrServerClosed)"
    by (cases e) (simp_all add: serve_goroutine_def)
  moreover have "mux mwf (Router (fn (newSimpleHTTPServer port))) r w = foldr (\<lambda>m h. m h) mwf h r w"
    by (rule mux_matched [OF assms])
  ultimately show ?thesis
    by (auto simp: CreateHttpsServer_def CreateHttpServer_def RunHTTPSServer_def RunHTTPServer_def
        ToConfigureHandlers_def Let_def)
qed

text \<open>
  Under the logging middleware a flush reaches the connection if and only if the connection
  can flush, and a hijack gives the connection or the error, however deep the wrappers are;
  but the type assertion for a flusher, as in the event stream handler, always succeeds there.
\<close>

lemma wrapped_writer_interfaces:
  "w_Flush k (newLoggingResponseWriter w) = (if can_flush k then 1 else 0) \<and>
   w_Hijack k (newLoggingResponseWriter w) =
     (if can_hijack k then Inr (conn_of w) else Inl ''the ResponseWriter does not implement http.Hijacker'') \<and>
   is_Flusher k (newLoggingResponseWriter w)"
  by (simp add: newLoggingResponseWriter_def Flush_wrapped Hijack_wrapped del: w_Flush.simps w_Hijack.simps)

lemma https_serves_as_http_example:
  "snd (snd (CreateHttpsServer plain_mux None
       (\<lambda>s. s\<lparr>Router := [any_route (script (\<lambda>_. ([], [Write ''ok''], False)))]\<rparr>) '':8080'' ''server.crt'' ''server.key'' []))
     get_request (Conn new_conn) = (Conn \<lparr>sent = Some 200, headers = [], out = ''ok''\<rparr>, [], False)"
  using https_serves_as_http [OF plain_mux_laws route_for_any(2),
      of "\<lambda>s. s\<lparr>Router := [any_route (script (\<lambda>_. ([], [Write ''ok''], False)))]\<rparr>" "'':8080''"
        "script (\<lambda>_. ([], [Write ''ok''], False))" None "[]" "''server.crt''" "''server.key''"
        "Conn new_conn" "\<lambda>r w. (w, [], False)" False ServeNil]
  by (simp add: any_route_def get_request_def method_matches_def script_def new_conn_def)

end
