(* ===== verification/Http_Handlers.thy ===== *)
theory Http_Handlers
  imports Server_Run
begin

text \<open>
  The routes of \<^verbatim>\<open>internal/http_handler/handler.go\<close> and the handler \<open>EmptyHandler\<close> of
  \<^verbatim>\<open>internal/http_handler/empty.go\<close>, with the JSON functions of \<^verbatim>\<open>pkg/serializer.go\<close> and the counter of
  \<^verbatim>\<open>pkg/prometheus.go\<close>. etcd's mutex, the database, \<open>encoding/json\<close>, the validator, the swagger
  handler and the metrics handler are outside: their answers are arguments.
\<close>

section \<open>What the handlers hold\<close>

record EmptyRequest =
  Name :: string
  Age :: int
  Email :: string

datatype lock_answer = Locked | LockFailed string | LockPanicked

text \<open>The answers during one request: of the two statements (the second one's count), of the
  distributed mutex, and the encoding.\<close>

record pg_answers =
  insert_ans :: "unit result"
  select_ans :: "int result"

record mutex_answers =
  lock_ans :: lock_answer
  unlock_ans :: "unit result"

record codec =
  json_Unmarshal :: "string \<Rightarrow> EmptyRequest result"
  json_Marshal :: "EmptyRequest \<Rightarrow> string result"

record CounterVec =
  cv_name :: string
  cv_labels :: "string list"

definition NewPrometheus :: CounterVec where
  "NewPrometheus = \<lparr>cv_name = ''http_requests_total'', cv_labels = [''path'']\<rparr>"

record Handlers =
  h_postgres :: pg_answers
  h_etcd :: mutex_answers
  h_serializer :: codec
  h_prometheus :: CounterVec

definition NewHandlers :: "pg_answers \<Rightarrow> mutex_answers \<Rightarrow> codec \<Rightarrow> CounterVec \<Rightarrow> Handlers" where
  "NewHandlers p e s prometheus = \<lparr>h_postgres = p, h_etcd = e, h_serializer = s, h_prometheus = prometheus\<rparr>"

section \<open>The serializer\<close>

definition Deserialize :: "codec \<Rightarrow> request \<Rightarrow> effect list \<times> EmptyRequest result" where
  "Deserialize c r = ([BodyClosed], case r_Body r of Inl e \<Rightarrow> Inl e | Inr body \<Rightarrow> json_Unmarshal c body)"

definition Serialize :: "codec \<Rightarrow> EmptyRequest \<Rightarrow> string result" where
  "Serialize c x = (case json_Marshal c x of Inl e \<Rightarrow> Inl e | Inr jsonData \<Rightarrow> Inr jsonData)"

section \<open>The handler of /empty\<close>

text \<open>
  The two statements: the row of the insert is never scanned, the row of the count is. A failed
  \<open>Scan\<close> leaves the zero of \<open>a\<close>; a failed encoding leaves the nil slice.
\<close>

definition empty_queries :: "pg_answers \<Rightarrow> effect list \<times> int" where
  "empty_queries pg =
     ([QueryRow ''insert into user_p(id) values (1);'' (\<not> isl (insert_ans pg)),
       QueryRow ''select count(*) from user_p'' (\<not> isl (select_ans pg)), RowScan (\<not> isl (select_ans pg))],
      case select_ans pg of Inl _ \<Rightarrow> 0 | Inr a \<Rightarrow> a)"

definition EmptyHandler :: "Handlers \<Rightarrow> (EmptyRequest \<Rightarrow> string option) \<Rightarrow> request \<Rightarrow> script_run" where
  "EmptyHandler h validate r =
     (let inc = IncCounter (r_Path r) in
      case lock_ans (h_etcd h) of
        LockPanicked \<Rightarrow> ([inc], [], True)
      | LockFailed e \<Rightarrow> ([inc], ResponseJson e 500, False)
      | Locked \<Rightarrow> (case unlock_ans (h_etcd h) of
          Inl e \<Rightarrow> ([inc, MutexLock], ResponseJson e 500, False)
        | Inr _ \<Rightarrow>
            let es = [inc, MutexLock, MutexUnlock] @ fst (Deserialize (h_serializer h) r) in
            (case snd (Deserialize (h_serializer h) r) of
               Inl e \<Rightarrow> (es, ResponseJson e 400, False)
             | Inr req \<Rightarrow> (case r_CtxErr r of
                 Some e \<Rightarrow> (es, ResponseJson e 408, False)
               | None \<Rightarrow> (case validate req of
                   Some e \<Rightarrow> (es, ResponseJson e 400, False)
                 | None \<Rightarrow>
                     let (qs, a) = empty_queries (h_postgres h);
                       json = (case Serialize (h_serializer h) (req\<lparr>Age := a\<rparr>) of Inl _ \<Rightarrow> [] | Inr d \<Rightarrow> d)
                     in (es @ qs, ResponseJson json 200, False))))))"

section \<open>The routes\<close>

definition health_handler :: script_run where
  "health_handler = ([], [WriteHeader 200], False)"

definition HandlerList ::
  "Handlers \<Rightarrow> (EmptyRequest \<Rightarrow> string option) \<Rightarrow> handler \<Rightarrow> handler \<Rightarrow> HTTPServer \<Rightarrow> HTTPServer" where
  "HandlerList h validate swagger metrics simple = simple\<lparr>Router := Router simple @
     [\<lparr>rt_pattern = PathPrefix ''/swagger/'', rt_methods = [], rt_handler = swagger\<rparr>,
      \<lparr>rt_pattern = Path ''/health'', rt_methods = [''GET''], rt_handler = script (\<lambda>_. health_handler)\<rparr>,
      \<lparr>rt_pattern = Path ''/empty'', rt_methods = [''POST''], rt_handler = script (EmptyHandler h validate)\<rparr>,
      \<lparr>rt_pattern = Path ''/metrics'', rt_methods = [], rt_handler = metrics\<rparr>]\<rparr>"

text \<open>The handler the service listens with.\<close>

definition http_service ::
  "router \<Rightarrow> Handlers \<Rightarrow> (EmptyRequest \<Rightarrow> string option) \<Rightarrow> handler \<Rightarrow> handler \<Rightarrow> string \<Rightarrow> string list \<Rightarrow>
   string \<Rightarrow> handler" where
  "http_service mux h validate swagger metrics port logger cid =
     snd (CreateHttpServer mux None (HandlerList h validate swagger metrics) port
       (service_middlewares logger cid))"

section \<open>Specification\<close>

text \<open>Where a request goes, by method and path.\<close>

datatype target = ToSwagger | ToHealth | ToEmpty | ToMetrics | WrongMethod | NoRoute

definition target_of :: "string \<Rightarrow> string \<Rightarrow> target" where
  "target_of m p =
     (if take 9 p = ''/swagger/'' then ToSwagger
      else if p = ''/metrics'' then ToMetrics
      else if p = ''/health'' then (if m = ''GET'' then ToHealth else WrongMethod)
      else if p = ''/empty'' then (if m = ''POST'' then ToEmpty else WrongMethod)
      else NoRoute)"

text \<open>The validation tags of \<open>EmptyRequest\<close>; \<open>is_email\<close> is the validator's own check.\<close>

definition tags_ok :: "(string \<Rightarrow> bool) \<Rightarrow> EmptyRequest \<Rightarrow> bool" where
  "tags_ok is_email q \<longleftrightarrow> 5 \<le> length (Name q) \<and> length (Name q) \<le> 20 \<and>
     (Age q = 0 \<or> 18 \<le> Age q \<and> Age q \<le> 120) \<and> Email q \<noteq> [] \<and> is_email (Email q)"

definition validator_laws :: "(string \<Rightarrow> bool) \<Rightarrow> (EmptyRequest \<Rightarrow> string option) \<Rightarrow> bool" where
  "validator_laws is_email validate \<longleftrightarrow> (\<forall>q. validate q = None \<longleftrightarrow> tags_ok is_email q)"

text \<open>What \<open>/empty\<close> should answer: status, logged status and body.\<close>

definition empty_answer ::
  "(string \<Rightarrow> bool) \<Rightarrow> Handlers \<Rightarrow> (EmptyRequest \<Rightarrow> string option) \<Rightarrow> request \<Rightarrow> int \<Rightarrow> int \<Rightarrow> string \<Rightarrow> bool" where
  "empty_answer is_email h validate r status logged text \<longleftrightarrow> (case lock_ans (h_etcd h) of
       LockPanicked \<Rightarrow> status = 500 \<and> logged = 200 \<and> text = []
     | LockFailed e \<Rightarrow> status = 500 \<and> logged = 500 \<and> text = e
     | Locked \<Rightarrow> logged = status \<and> (case unlock_ans (h_etcd h) of
         Inl e \<Rightarrow> status = 500 \<and> text = e
       | Inr _ \<Rightarrow> (case Option.bind (case r_Body r of Inl _ \<Rightarrow> None | Inr b \<Rightarrow> Some b)
             (\<lambda>b. case json_Unmarshal (h_serializer h) b of Inl _ \<Rightarrow> None | Inr q \<Rightarrow> Some q) of
           None \<Rightarrow> status = 400
         | Some q \<Rightarrow> (case r_CtxErr r of
             Some e \<Rightarrow> status = 408 \<and> text = e
           | None \<Rightarrow> if tags_ok is_email q
               then status = 200 \<and>
                 (\<forall>d. json_Marshal (h_serializer h)
                     (q\<lparr>Age := case select_ans (h_postgres h) of Inl _ \<Rightarrow> 0 | Inr a \<Rightarrow> a\<rparr>) = Inr d \<longrightarrow> text = d)
               else status = 400 \<and> Some text = validate q))))"

text \<open>The requests that reach the statements.\<close>

definition accepted :: "Handlers \<Rightarrow> (EmptyRequest \<Rightarrow> string option) \<Rightarrow> request \<Rightarrow> bool" where
  "accepted h validate r \<longleftrightarrow> lock_ans (h_etcd h) = Locked \<and> \<not> isl (unlock_ans (h_etcd h)) \<and>
     r_CtxErr r = None \<and> (\<exists>b q. r_Body r = Inr b \<and> json_Unmarshal (h_serializer h) b = Inr q \<and> validate q = None)"

text \<open>
  The effects of a trace; the database connections it leaves checked out (a row that is not
  scanned keeps its connection); whether every statement runs with the mutex released.
\<close>

fun effects :: "log_line list \<Rightarrow> effect list" where
  "effects [] = []"
| "effects (Did e # ls) = e # effects ls"
| "effects (_ # ls) = effects ls"

fun held :: "effect list \<Rightarrow> int" where
  "held [] = 0"
| "held (QueryRow _ True # es) = held es + 1"
| "held (RowScan True # es) = held es - 1"
| "held (_ # es) = held es"

fun queries_unlocked :: "bool \<Rightarrow> effect list \<Rightarrow> bool" where
  "queries_unlocked locked [] \<longleftrightarrow> True"
| "queries_unlocked locked (MutexLock # es) \<longleftrightarrow> queries_unlocked True es"
| "queries_unlocked locked (MutexUnlock # es) \<longleftrightarrow> queries_unlocked False es"
| "queries_unlocked locked (QueryRow _ _ # es) \<longleftrightarrow> \<not> locked \<and> queries_unlocked locked es"
| "queries_unlocked locked (_ # es) \<longleftrightarrow> queries_unlocked locked es"

section \<open>Lemmas\<close>

lemma effects_append [simp]: "effects (xs @ ys) = effects xs @ effects ys"
  by (induction xs rule: effects.induct) auto

lemma effects_Did [simp]: "effects (map Did es) = es"
  by (induction es) auto

lemma held_append [simp]: "held (xs @ ys) = held xs + held ys"
  by (induction xs rule: held.induct) auto

lemma service_routes:
  "http_service mux h validate swagger metrics port logger cid =
     mux (service_middlewares logger cid) (Router (HandlerList h validate swagger metrics (newSimpleHTTPServer port)))"
  by (simp add: http_service_def CreateHttpServer_def RunHTTPServer_def ToConfigureHandlers_def Let_def)

lemma route_target:
  "route_for (Router (HandlerList h validate swagger metrics (newSimpleHTTPServer port))) r =
     (case target_of (r_Method r) (r_Path r) of
        ToSwagger \<Rightarrow> Some swagger | ToHealth \<Rightarrow> Some (script (\<lambda>_. health_handler))
      | ToEmpty \<Rightarrow> Some (script (EmptyHandler h validate)) | ToMetrics \<Rightarrow> Some metrics
      | WrongMethod \<Rightarrow> None | NoRoute \<Rightarrow> None)"
  and path_known_target:
  "path_known (Router (HandlerList h validate swagger metrics (newSimpleHTTPServer port))) r \<longleftrightarrow>
     target_of (r_Method r) (r_Path r) \<noteq> NoRoute"
  by (auto simp: HandlerList_def newSimpleHTTPServer_def target_of_def method_matches_def numeral_eq_Suc)

lemma inner_request_fields [simp]:
  "r_Path (inner_request l c r) = r_Path r" "r_Body (inner_request l c r) = r_Body r"
  "r_CtxErr (inner_request l c r) = r_CtxErr r"
  by (simp_all add: inner_request_def LoggerWithCtx_def)

lemma EmptyHandler_inner: "EmptyHandler h validate (inner_request l c r) = EmptyHandler h validate r"
  unfolding EmptyHandler_def Deserialize_def inner_request_fields ..

lemma EmptyHandler_script:
  assumes "EmptyHandler h validate r = (es, cs, p)" "validator_laws is_email validate"
  shows "p \<longleftrightarrow> lock_ans (h_etcd h) = LockPanicked"
    and "first_status cs = None \<longleftrightarrow> lock_ans (h_etcd h) = LockPanicked"
    and "empty_answer is_email h validate r (case first_status cs of Some s \<Rightarrow> s | None \<Rightarrow> 500) (last_status 200 cs) (body_of cs)"
proof -
  have tags: "tags_ok is_email q \<longleftrightarrow> validate q = None" for q using assms(2) by (simp add: validator_laws_def)
  show "p \<longleftrightarrow> lock_ans (h_etcd h) = LockPanicked" "first_status cs = None \<longleftrightarrow> lock_ans (h_etcd h) = LockPanicked"
    "empty_answer is_email h validate r (case first_status cs of Some s \<Rightarrow> s | None \<Rightarrow> 500) (last_status 200 cs) (body_of cs)"
    using assms(1) unfolding EmptyHandler_def empty_answer_def Deserialize_def Serialize_def Let_def empty_queries_def tags
    by (auto simp: final_code_def split: lock_answer.splits sum.splits option.splits prod.splits)
qed

lemma EmptyHandler_effects:
  assumes "EmptyHandler h validate r = (es, cs, p)"
  shows "count_list es (IncCounter q) = (if q = r_Path r then 1 else 0)"
    and "held es = (if accepted h validate r \<and> \<not> isl (insert_ans (h_postgres h)) then 1 else 0)"
    and "queries_unlocked False es"
  using assms unfolding EmptyHandler_def accepted_def Deserialize_def empty_queries_def Let_def
  by (auto split: lock_answer.splits sum.splits option.splits prod.splits)

text \<open>The answer to a request of each kind.\<close>

lemma health_answer:
  assumes "mux_laws mux" "r_Path r = ''/health''" "r_Method r = ''GET''"
  shows "\<exists>c. http_service mux h validate swagger metrics port logger cid r (Conn new_conn) =
    (Conn c, [Completed ''GET'' (r_RequestURI r) 200 cid], False) \<and> sent c = Some 200 \<and> out c = []"
proof -
  have "route_for (Router (HandlerList h validate swagger metrics (newSimpleHTTPServer port))) r =
      Some (script (\<lambda>_. health_handler))"
    using assms(2,3) by (simp add: route_target target_of_def)
  moreover have "clean_path (r_Path r)" by (simp add: assms(2))
  ultimately show ?thesis
    using service_chain [OF assms(1) _ _ health_handler_def, of r _ logger cid]
    by (simp add: service_routes final_code_def assms(3))
qed

lemma empty_served:
  assumes "mux_laws mux" "target_of (r_Method r) (r_Path r) = ToEmpty" "EmptyHandler h validate r = (es, cs, p)"
  shows "\<exists>c. http_service mux h validate swagger metrics port logger cid r (Conn new_conn) =
      (Conn c, map Did es @ Completed (r_Method r) (r_RequestURI r) (last_status 200 cs) cid #
        (if p then [Panicked] else []), False) \<and>
    sent c = (case first_status cs of Some s \<Rightarrow> Some s | None \<Rightarrow> if p then Some 500 else None) \<and>
    out c = body_of cs"
proof -
  have "r_Path r = ''/empty''" using assms(2) by (auto simp: target_of_def split: if_splits)
  then have "clean_path (r_Path r)" by simp
  moreover have "route_for (Router (HandlerList h validate swagger metrics (newSimpleHTTPServer port))) r =
      Some (script (EmptyHandler h validate))"
    using assms(2) by (simp add: route_target)
  ultimately show ?thesis
    using service_chain [OF assms(1)] assms(3) by (simp add: service_routes EmptyHandler_inner)
qed

lemma empty_served_answer:
  assumes "mux_laws mux" "validator_laws is_email validate" "target_of (r_Method r) (r_Path r) = ToEmpty"
  shows "\<exists>c es status logged. http_service mux h validate swagger metrics port logger cid r (Conn new_conn) =
      (Conn c, map Did es @ Completed (r_Method r) (r_RequestURI r) logged cid #
        (if lock_ans (h_etcd h) = LockPanicked then [Panicked] else []), False) \<and>
    sent c = Some status \<and> empty_answer is_email h validate r status logged (out c)"
proof -
  obtain es cs p where run: "EmptyHandler h validate r = (es, cs, p)" by (metis prod_cases3)
  note facts = EmptyHandler_script [OF run assms(2)]
  obtain c where c: "http_service mux h validate swagger metrics port logger cid r (Conn new_conn) =
      (Conn c, map Did es @ Completed (r_Method r) (r_RequestURI r) (last_status 200 cs) cid #
        (if p then [Panicked] else []), False)"
    "sent c = (case first_status cs of Some s \<Rightarrow> Some s | None \<Rightarrow> if p then Some 500 else None)" "out c = body_of cs"
    using empty_served [OF assms(1,3) run, of swagger metrics port logger cid] by blast
  have "sent c = Some (case first_status cs of Some s \<Rightarrow> s | None \<Rightarrow> 500)"
    using c(2) facts(1,2) by (auto split: option.splits)
  with c facts show ?thesis by (auto intro!: exI [of _ c] exI [of _ es])
qed

text \<open>A run of the service over many requests, each with the answers of its own moment.\<close>

type_synonym served_request = "Handlers \<times> string \<times> request"

definition to_empty :: "served_request \<Rightarrow> bool" where
  "to_empty q = (case q of (h, cid, r) \<Rightarrow> target_of (r_Method r) (r_Path r) = ToEmpty)"

definition inserts :: "(EmptyRequest \<Rightarrow> string option) \<Rightarrow> served_request \<Rightarrow> bool" where
  "inserts validate q = (to_empty q \<and> (case q of (h, cid, r) \<Rightarrow>
     accepted h validate r \<and> \<not> isl (insert_ans (h_postgres h))))"

definition request_effects ::
  "router \<Rightarrow> (EmptyRequest \<Rightarrow> string option) \<Rightarrow> handler \<Rightarrow> handler \<Rightarrow> string \<Rightarrow> string list \<Rightarrow>
   served_request \<Rightarrow> effect list" where
  "request_effects mux validate swagger metrics port logger q = (case q of (h, cid, r) \<Rightarrow>
     effects (fst (snd (http_service mux h validate swagger metrics port logger cid r (Conn new_conn)))))"

text \<open>The swagger and metrics handlers touch neither the counter nor the database nor the mutex.\<close>

definition no_effects :: "handler \<Rightarrow> bool" where
  "no_effects h \<longleftrightarrow> (\<forall>r w. effects (fst (snd (h r w))) = [])"

lemma no_effects_chain:
  assumes "no_effects h"
  shows "effects (fst (snd (foldr (\<lambda>m h. m h) (service_middlewares logger cid) h r w))) = []"
  using assms
  by (auto simp: no_effects_def service_middlewares_def LoggerContextMiddleware_def RecoverMiddleware_def
      LoggingMiddleware_def LoggerFromCtx_def Let_def split: prod.splits option.splits)
    (metis fst_conv snd_conv)+

lemma request_effects_empty:
  assumes "mux_laws mux" "to_empty (h, cid, r)" "EmptyHandler h validate r = (es, cs, p)"
  shows "request_effects mux validate swagger metrics port logger (h, cid, r) = es"
  using empty_served [OF assms(1) _ assms(3), of swagger metrics port logger cid] assms(2)
  by (auto simp: request_effects_def to_empty_def)

lemma request_effects_other:
  assumes "mux_laws mux" "no_effects swagger" "no_effects metrics" "clean_path (r_Path r)" "\<not> to_empty (h, cid, r)"
  shows "request_effects mux validate swagger metrics port logger (h, cid, r) = []"
proof (cases "route_for (Router (HandlerList h validate swagger metrics (newSimpleHTTPServer port))) r")
  case None
  from mux_unmatched [OF assms(1,4) this, of "service_middlewares logger cid"] show ?thesis
    by (auto simp: request_effects_def service_routes)
next
  case (Some g)
  then have "no_effects g"
    using assms(2,3,5) by (auto simp: route_target to_empty_def no_effects_def script_def health_handler_def split: target.splits)
  then show ?thesis
    using mux_matched [OF assms(1,4) Some] no_effects_chain by (simp add: request_effects_def service_routes)
qed

lemma request_effects_facts:
  assumes "mux_laws mux" "no_effects swagger" "no_effects metrics" "clean_path (r_Path r)"
  shows "count_list (request_effects mux validate swagger metrics port logger (h, cid, r)) (IncCounter q) =
      (if q = ''/empty'' \<and> to_empty (h, cid, r) then 1 else 0) \<and>
    held (request_effects mux validate swagger metrics port logger (h, cid, r)) =
      (if inserts validate (h, cid, r) then 1 else 0) \<and>
    queries_unlocked False (request_effects mux validate swagger metrics port logger (h, cid, r))"
proof (cases "to_empty (h, cid, r)")
  case True
  obtain es cs p where run: "EmptyHandler h validate r = (es, cs, p)" by (metis prod_cases3)
  have "r_Path r = ''/empty''" using True by (auto simp: to_empty_def target_of_def split: if_splits)
  then show ?thesis
    using True EmptyHandler_effects [OF run] request_effects_empty [OF assms(1) True run]
    by (simp add: inserts_def)
qed (use request_effects_other [OF assms] in \<open>simp add: inserts_def\<close>)

section \<open>Properties\<close>

text \<open>
  C8: the service, from the connection to the handler: every clean request gets exactly one
  answer and no panic reaches the server. \<^verbatim>\<open>GET /health\<close> answers 200 with an empty body;
  \<^verbatim>\<open>POST /empty\<close> answers by the outcome of its mutex, body, context, validation tags and
  encoder, and the same status is logged, except that a panicking mutex is answered 500 and
  logged 200; the documentation and metrics handlers run behind the middlewares; a wrong method
  gets 405 and an unknown path 404, neither of which is logged.
\<close>

theorem HandlerList_answers:
  assumes "mux_laws mux" "validator_laws is_email validate" "clean_path (r_Path r)"
  shows "case target_of (r_Method r) (r_Path r) of
      ToHealth \<Rightarrow> (\<exists>c. http_service mux h validate swagger metrics port logger cid r (Conn new_conn) =
        (Conn c, [Completed ''GET'' (r_RequestURI r) 200 cid], False) \<and> sent c = Some 200 \<and> out c = [])
    | ToEmpty \<Rightarrow> (\<exists>c es status logged. http_service mux h validate swagger metrics port logger cid r (Conn new_conn) =
        (Conn c, map Did es @ Completed (r_Method r) (r_RequestURI r) logged cid #
          (if lock_ans (h_etcd h) = LockPanicked then [Panicked] else []), False) \<and>
        sent c = Some status \<and> empty_answer is_email h validate r status logged (out c))
    | ToSwagger \<Rightarrow> http_service mux h validate swagger metrics port logger cid r w =
        foldr (\<lambda>m h. m h) (service_middlewares logger cid) swagger r w
    | ToMetrics \<Rightarrow> http_service mux h validate swagger metrics port logger cid r w =
        foldr (\<lambda>m h. m h) (service_middlewares logger cid) metrics r w
    | WrongMethod \<Rightarrow> (\<exists>c. http_service mux h validate swagger metrics port logger cid r (Conn new_conn) =
        (Conn c, [], False) \<and> sent c = Some 405)
    | NoRoute \<Rightarrow> (\<exists>c. http_service mux h validate swagger metrics port logger cid r (Conn new_conn) =
        (Conn c, [], False) \<and> sent c = Some 404)"
proof (cases "target_of (r_Method r) (r_Path r)")
  case ToHealth
  then have "r_Path r = ''/health''" "r_Method r = ''GET''" by (auto simp: target_of_def split: if_splits)
  with ToHealth health_answer [OF assms(1)] show ?thesis by simp
next
  case ToEmpty
  with empty_served_answer [OF assms(1,2)] show ?thesis by simp
qed (use mux_matched [OF assms(1,3)] mux_unmatched [OF assms(1,3),
    of "Router (HandlerList h validate swagger metrics (newSimpleHTTPServer port))" "service_middlewares logger cid"] in
  \<open>auto simp: service_routes route_target path_known_target\<close>)

text \<open>
  C27: over any sequence of requests the counter of a path counts the requests that reached
  \<open>EmptyHandler\<close> and nothing else, so every other path stays at zero; each request whose insert
  succeeded leaves one database connection checked out, and no other request does; and no
  statement runs while the request holds the distributed mutex.
\<close>

theorem empty_effects:
  assumes "mux_laws mux" "no_effects swagger" "no_effects metrics" "list_all (\<lambda>(h, cid, r). clean_path (r_Path r)) reqs"
  shows "count_list (concat (map (request_effects mux validate swagger metrics port logger) reqs)) (IncCounter q) =
      (if q = ''/empty'' then length (filter to_empty reqs) else 0) \<and>
    held (concat (map (request_effects mux validate swagger metrics port logger) reqs)) =
      int (length (filter (inserts validate) reqs)) \<and>
    list_all (queries_unlocked False) (map (request_effects mux validate swagger metrics port logger) reqs)"
  using assms(4)
proof (induction reqs)
  case (Cons x reqs)
  obtain h cid r where x: "x = (h, cid, r)" by (cases x)
  then show ?case
    using Cons request_effects_facts [OF assms(1-3), of r validate port logger h cid q] by auto
qed simp

section \<open>Witnesses\<close>

definition has_at :: "string \<Rightarrow> bool" where
  "has_at s = (CHR ''@'' \<in> set s)"

definition tag_check :: "EmptyRequest \<Rightarrow> string option" where
  "tag_check q = (if tags_ok has_at q then None else Some ''validation failed'')"

lemma tag_check_laws: "validator_laws has_at tag_check"
  by (simp add: validator_laws_def tag_check_def)

definition free_handlers :: Handlers where
  "free_handlers = NewHandlers \<lparr>insert_ans = Inr (), select_ans = Inr 1\<rparr> \<lparr>lock_ans = Locked, unlock_ans = Inr ()\<rparr>
     \<lparr>json_Unmarshal = (\<lambda>b. Inr \<lparr>Name = b, Age = 0, Email = ''a@b''\<rparr>), json_Marshal = (\<lambda>q. Inr (Name q))\<rparr> NewPrometheus"

definition post_empty :: "string \<Rightarrow> request" where
  "post_empty b = \<lparr>r_Method = ''POST'', r_RequestURI = ''/empty'', r_Path = ''/empty'', r_Body = Inr b,
     r_CtxErr = None, r_logger = None, r_correlation = None\<rparr>"

definition file_server :: handler where
  "file_server = script (\<lambda>_. ([], [Write ''docs''], False))"

lemma file_server_quiet: "no_effects file_server"
  by (simp add: no_effects_def file_server_def script_def)

theorem HandlerList_answers_witness:
  "\<exists>c es. http_service plain_mux free_handlers tag_check file_server file_server '':3000'' [''app''] ''cid''
      (post_empty ''Alice'') (Conn new_conn) =
    (Conn c, map Did es @ [Completed ''POST'' ''/empty'' 200 ''cid''], False) \<and> sent c = Some 200 \<and> out c = ''Alice''"
proof -
  have "clean_path (r_Path (post_empty ''Alice''))"
    "target_of (r_Method (post_empty ''Alice'')) (r_Path (post_empty ''Alice'')) = ToEmpty"
    by (simp_all add: post_empty_def target_of_def)
  with HandlerList_answers [OF plain_mux_laws tag_check_laws this(1),
      of free_handlers file_server file_server "'':3000''" "[''app'']" "''cid''"]
  show ?thesis
    by (simp add: empty_answer_def free_handlers_def NewHandlers_def post_empty_def tags_ok_def has_at_def)
qed

theorem empty_effects_witness:
  "held (concat (map (request_effects plain_mux tag_check file_server file_server '':3000'' [''app''])
     [(free_handlers, ''1'', post_empty ''Alice''), (free_handlers, ''2'', post_empty ''Bob''),
      (free_handlers, ''3'', get_request)])) = 1"
proof -
  have "list_all (\<lambda>(h, cid, r). clean_path (r_Path r))
      [(free_handlers, ''1'', post_empty ''Alice''), (free_handlers, ''2'', post_empty ''Bob''),
       (free_handlers, ''3'', get_request)]"
    by (simp add: post_empty_def get_request_def)
  from empty_effects [OF plain_mux_laws file_server_quiet file_server_quiet this,
      of tag_check "'':3000''" "[''app'']" "''/empty''"]
  show ?thesis
    by (simp add: inserts_def to_empty_def accepted_def free_handlers_def NewHandlers_def post_empty_def
        get_request_def target_of_def tag_check_def tags_ok_def has_at_def)
qed

end
