(* ===== verification/Service_Discovery.thy ===== *)
theory Service_Discovery
  imports Load_Balancer Etcd Http_Handlers
begin

text \<open>
  The balancer over registered services: what \<open>Register\<close> puts into etcd (\<open>Etcd\<close>) is what
  \<open>UpdateBackends\<close> reads (\<open>Load_Balancer\<close>), and what a health probe meets is the \<^verbatim>\<open>/health\<close> route of
  an instance (\<open>Http_Handlers\<close>). The network is outside: \<open>network_laws\<close> says that a probe of an
  instance that is up gets its answer, and of one that is down an error.
\<close>

section \<open>Instances\<close>

record service_instance =
  registered :: EtcdClientService
  up :: bool
  handlers :: Handlers

text \<open>The key and value that registration puts, as the answer to a \<open>Get\<close> with prefix.\<close>

definition etcd_entries :: "service_instance list \<Rightarrow> (string \<times> string) list" where
  "etcd_entries is = map (\<lambda>i. (key (registered i), host (registered i))) is"

definition probe_request :: request where
  "probe_request = \<lparr>r_Method = ''GET'', r_RequestURI = ''/health'', r_Path = ''/health'', r_Body = Inr [],
     r_CtxErr = None, r_logger = None, r_correlation = None\<rparr>"

text \<open>The status an HTTP client reads: a handler that panics cuts the connection, and one that
  ends without a status sends 200.\<close>

definition client_status :: "handled \<Rightarrow> int result" where
  "client_status = (\<lambda>(w, logs, panicked). if panicked then Inl ''EOF''
     else Inr (case sent (conn_of w) of None \<Rightarrow> 200 | Some s \<Rightarrow> s))"

text \<open>How an instance serves; \<open>srv\<close> stands for the server \<open>http_service\<close> with its middlewares.\<close>

definition probe_answer :: "(Handlers \<Rightarrow> handler) \<Rightarrow> service_instance \<Rightarrow> int result" where
  "probe_answer srv i = (if up i
     then client_status (srv (handlers i) probe_request (Conn new_conn))
     else Inl ''connection refused'')"

definition network_laws :: "(Handlers \<Rightarrow> handler) \<Rightarrow> (string \<Rightarrow> int result) \<Rightarrow> service_instance list \<Rightarrow> bool" where
  "network_laws srv get is \<longleftrightarrow>
     list_all (\<lambda>i. get (host (registered i) @ ''/health'') = probe_answer srv i) is"

text \<open>The hosts are URLs of scheme and host: they parse, print back and take a path.\<close>

definition host_urls :: "'u url_ops \<Rightarrow> service_instance list \<Rightarrow> bool" where
  "host_urls ops is \<longleftrightarrow> list_all (\<lambda>i.
     (\<exists>u. url_Parse ops (host (registered i)) = Inr u \<and> url_String ops u = host (registered i)) \<and>
     (\<forall>u. url_String ops u = host (registered i) \<longrightarrow>
        url_String ops (with_Path ops ''/health'' u) = host (registered i) @ ''/health'')) is"

text \<open>The hosts a balancer with the key \<open>own\<close> should send requests to.\<close>

definition live :: "string \<Rightarrow> service_instance list \<Rightarrow> string list" where
  "live own is = map (\<lambda>i. host (registered i)) (filter (\<lambda>i. key (registered i) \<noteq> own \<and> up i) is)"

section \<open>Requests one after the other\<close>

fun serve_many :: "nat \<Rightarrow> 'u balancer \<Rightarrow> 'u served option list \<times> 'u balancer" where
  "serve_many 0 lb = ([], lb)"
| "serve_many (Suc k) lb = (let (a, lb1) = ServeHTTP lb; (as, lb2) = serve_many k lb1 in (a # as, lb2))"

definition proxy_of :: "'u bheap \<Rightarrow> addr option \<Rightarrow> 'u served option" where
  "proxy_of h b = (case b of None \<Rightarrow> Some (Unavailable (503, ''Service not available''))
     | Some b \<Rightarrow> map_option (\<lambda>x. Proxied (ReverseProxy x)) (cells h b))"

lemma ServeHTTP_proxy_of: "fst (ServeHTTP lb) = proxy_of (objs lb) (fst (RoundRobbinNextBackend lb))"
  using RoundRobbin_frame_simps(2) [of lb]
  by (auto simp: ServeHTTP_def proxy_of_def simp del: RoundRobbin_frame_simps split: prod.splits option.splits)

lemma serve_many_next: "fst (serve_many k lb) = map (proxy_of (objs lb)) (fst (next_backends k lb))"
proof (induction k arbitrary: lb)
  case (Suc k)
  then show ?case
    using ServeHTTP_proxy_of [of lb] ServeHTTP_state [of lb] by (simp add: split_beta Let_def)
qed simp

lemma next_backends_none:
  assumes "due lb = []" "Backends lb \<noteq> [] \<Longrightarrow> Current lb < length (Backends lb)"
  shows "fst (next_backends k lb) = replicate k None"
  using assms
proof (induction k arbitrary: lb)
  case (Suc k)
  let ?lb1 = "snd (RoundRobbinNextBackend lb)"
  have "due ?lb1 = []" using Suc.prems(1) by (simp add: due_empty)
  moreover have "Backends ?lb1 \<noteq> [] \<Longrightarrow> Current ?lb1 < length (Backends ?lb1)"
    using Suc.prems(2) RoundRobbin_range [of lb] by simp
  ultimately have "fst (next_backends k ?lb1) = replicate k None" by (rule Suc.IH)
  then show ?case using RoundRobbin_none [OF Suc.prems] by (simp add: split_beta Let_def)
qed simp

section \<open>What stays with a backend\<close>

text \<open>Its URL and the target of its proxy, which are the same.\<close>

definition proxies_ok :: "'u bheap \<Rightarrow> bool" where
  "proxies_ok h \<longleftrightarrow> (\<forall>b x. cells h b = Some x \<longrightarrow> ReverseProxy x = URL x)"

definition same_urls :: "'u bheap \<Rightarrow> 'u bheap \<Rightarrow> bool" where
  "same_urls h h' \<longleftrightarrow> (\<forall>b. map_option URL (cells h b) = map_option URL (cells h' b) \<and>
     map_option ReverseProxy (cells h b) = map_option ReverseProxy (cells h' b))"

lemma same_urls_refl [simp]: "same_urls h h"
  by (simp add: same_urls_def)

lemma same_urls_trans: "same_urls h h1 \<Longrightarrow> same_urls h1 h2 \<Longrightarrow> same_urls h h2"
  by (simp add: same_urls_def)

lemma same_urls_sym: "same_urls h h' \<Longrightarrow> same_urls h' h"
  by (simp add: same_urls_def)

lemma same_urls_at:
  assumes "same_urls h h'" "cells h b = Some x"
  obtains y where "cells h' b = Some y" "URL y = URL x" "ReverseProxy y = ReverseProxy x"
  using assms by (cases "cells h' b") (auto simp: same_urls_def dest!: spec [of _ b])

lemma same_urls_proxies:
  assumes "same_urls h h'" "proxies_ok h"
  shows "proxies_ok h'"
  unfolding proxies_ok_def
proof (intro allI impI)
  fix b x assume x: "cells h' b = Some x"
  obtain y where "cells h b = Some y" "URL y = URL x" "ReverseProxy y = ReverseProxy x"
    by (rule same_urls_at [OF same_urls_sym [OF assms(1)] x])
  with assms(2) show "ReverseProxy x = URL x" by (auto simp: proxies_ok_def)
qed

lemma finish_probe_urls:
  assumes "finish_probe ops get i lb = Some lb'"
  shows "same_urls (objs lb) (objs lb')" "Backends lb' = Backends lb" "Current lb' = Current lb"
    "own_key lb' = own_key lb"
proof -
  obtain x where x: "cells (objs lb) (probes lb ! i) = Some x"
    "lb' = lb\<lparr>objs := hput (probes lb ! i) (x\<lparr>Alive := isBackendAlive ops get (URL x)\<rparr>) (objs lb),
       probes := take i (probes lb) @ drop (Suc i) (probes lb)\<rparr>"
    using assms by (rule finish_probe_elim)
  then show "same_urls (objs lb) (objs lb')" by (simp add: same_urls_def)
  show "Backends lb' = Backends lb" "Current lb' = Current lb" "own_key lb' = own_key lb" by (simp_all add: x(2))
qed

lemma finish_probes_urls:
  "finish_probes ops get n lb = Some lb' \<Longrightarrow> same_urls (objs lb) (objs lb')"
proof (induction n arbitrary: lb)
  case (Suc n)
  then obtain lb1 where "finish_probe ops get 0 lb = Some lb1" "finish_probes ops get n lb1 = Some lb'"
    by (auto simp: bind_eq_Some_conv)
  with Suc.IH finish_probe_urls(1) show ?case by (blast intro: same_urls_trans)
qed simp

lemma refresh_loop_proxies:
  "refresh_loop ops own old kvs new h = (new', h') \<Longrightarrow> proxies_ok h \<Longrightarrow> proxies_ok h'"
proof (induction ops own old kvs new h rule: refresh_loop.induct)
  case (2 ops own old k v kvs new h)
  have "proxies_ok (halloc \<lparr>URL = u, Alive = True, ReverseProxy = u\<rparr> h)" for u
    using "2.prems"(2) by (auto simp: proxies_ok_def)
  with 2 show ?case by (auto split: if_splits sum.splits option.splits)
qed simp

definition steady :: "string \<Rightarrow> 'u balancer \<Rightarrow> bool" where
  "steady own lb \<longleftrightarrow> own_key lb = own \<and> proxies_ok (objs lb)"

lemma steady_compute: "steady own lb \<Longrightarrow> steady own (update_compute ops resp lb)"
  using refresh_loop_proxies [of ops "own_key lb" "Backends lb" _ "[]" "objs lb"]
  by (auto simp: steady_def update_compute_def split: sum.splits prod.splits)

lemma steady_step: "bal_step ops lb lb' \<Longrightarrow> steady own lb \<Longrightarrow> steady own lb'"
proof (induction rule: bal_step.induct)
  case (request lb)
  have "own_key (snd (RoundRobbinNextBackend lb)) = own_key lb" by (subst RoundRobbin_frame) simp
  with request show ?case by (simp add: ServeHTTP_state steady_def)
next
  case (watch_install lb bs)
  then show ?case by (simp add: steady_def update_install_def)
next
  case (health_probe i lb get lb')
  then show ?case using same_urls_proxies finish_probe_urls by (fastforce simp: steady_def)
next
  case (watch_event lb resp)
  then show ?case by (simp add: steady_compute)
qed (simp_all add: start_probes_def steady_def)

lemma steady_new: "steady own (NewLoadBalancer own)"
  by (simp add: steady_def NewLoadBalancer_def proxies_ok_def empty_heap_def)

interpretation steady_run: run_invariant "bal_step ops" "steady own" "NewLoadBalancer own" for ops own
  by unfold_locales (fact steady_step steady_new)+

section \<open>A refresh and a round of health checks\<close>

text \<open>Which backends stand for which URLs, by how they print.\<close>

definition shows_as :: "'u url_ops \<Rightarrow> 'u bheap \<Rightarrow> string \<Rightarrow> addr \<Rightarrow> bool" where
  "shows_as ops h t b \<longleftrightarrow> (\<exists>x. cells h b = Some x \<and> url_String ops (URL x) = t \<and> ReverseProxy x = URL x)"

lemma shows_as_same:
  assumes "same_urls h h'" "shows_as ops h t b"
  shows "shows_as ops h' t b"
proof -
  obtain x where x: "cells h b = Some x" "url_String ops (URL x) = t" "ReverseProxy x = URL x"
    using assms(2) unfolding shows_as_def by blast
  obtain y where "cells h' b = Some y" "URL y = URL x" "ReverseProxy y = ReverseProxy x"
    by (rule same_urls_at [OF assms(1) x(1)])
  with x show ?thesis by (simp add: shows_as_def)
qed

lemma find_backend_shows:
  "find_backend ops h u old = Some b \<Longrightarrow> \<exists>x. cells h b = Some x \<and> url_String ops (URL x) = url_String ops u"
  by (induction old) (auto split: option.splits if_splits)

lemma stands_for_shows:
  assumes "stands_for ops h old h' u b" "cells h \<subseteq>\<^sub>m cells h'" "proxies_ok h"
  shows "shows_as ops h' (url_String ops u) b"
proof (cases "find_backend ops h u old")
  case None
  with assms(1) show ?thesis by (simp add: stands_for_def shows_as_def)
next
  case (Some b')
  then obtain x where "cells h b = Some x" "url_String ops (URL x) = url_String ops u"
    using find_backend_shows [OF Some] assms(1) by (auto simp: stands_for_def)
  moreover from this have "cells h' b = Some x" using assms(2) by (metis domI map_le_def)
  ultimately show ?thesis using assms(3) by (auto simp: shows_as_def proxies_ok_def)
qed

lemma refreshed_and_checked:
  assumes "bal_inv lb" "steady own lb" "pending lb = None"
  shows "\<exists>lb'. health_round ops get (UpdateBackends ops (Inr kvs) lb) = Some lb' \<and> Current lb' = 0 \<and>
    list_all2 (\<lambda>u. shows_as ops (objs lb') (url_String ops u)) (wanted ops own kvs) (Backends lb') \<and>
    set (Backends lb') \<subseteq> Collect (checked ops get (objs lb'))"
proof -
  define lb1 where "lb1 = UpdateBackends ops (Inr kvs) lb"
  have own: "own_key lb = own" "proxies_ok (objs lb)" using assms(2) by (simp_all add: steady_def)
  obtain bs h where new: "update_compute ops (Inr kvs) lb = lb\<lparr>pending := Some bs, objs := h\<rparr>"
      "list_all2 (stands_for ops (objs lb) (Backends lb) h) (wanted ops (own_key lb) kvs) bs"
      "cells (objs lb) \<subseteq>\<^sub>m cells h"
    by (rule update_compute_spec [OF assms(1)]) blast
  have lb1: "lb1 = lb\<lparr>pending := None, objs := h, Backends := bs, Current := 0\<rparr>"
    using assms(3) by (simp add: lb1_def UpdateBackends_def new(1) update_install_def)
  have inv: "bal_inv lb1"
    unfolding lb1_def UpdateBackends_def by (intro bal_inv_install bal_inv_update assms(1,3))
  have named: "list_all2 (\<lambda>u. shows_as ops h (url_String ops u)) (wanted ops own kvs) bs"
    using new(2) stands_for_shows [OF _ new(3) own(2)] by (auto simp: own(1) elim!: list_all2_mono)
  obtain h' where h': "health_round ops get lb1 = Some (lb1\<lparr>objs := h', probes := []\<rparr>)"
      "set (Backends lb1) \<subseteq> Collect (checked ops get h')"
    using health_round_spec [OF inv, of ops get] by blast
  have "same_urls h h'"
    using finish_probes_urls [of ops get _ "start_probes lb1"] h'(1) by (fastforce simp: health_round_def start_probes_def lb1)
  then have "list_all2 (\<lambda>u. shows_as ops h' (url_String ops u)) (wanted ops own kvs) bs"
    using named by (auto intro: shows_as_same elim!: list_all2_mono)
  then show ?thesis using h' lb1 by (intro exI [of _ "lb1\<lparr>objs := h', probes := []\<rparr>"]) (simp add: lb1_def)
qed

lemma filter_list_all2:
  assumes "list_all2 R xs ys" "\<And>x y. R x y \<Longrightarrow> P x \<longleftrightarrow> Q y"
  shows "list_all2 R (filter P xs) (filter Q ys)"
  using assms by (induction rule: list_all2_induct) auto

lemma wanted_hosts:
  assumes "host_urls ops is"
  shows "map (url_String ops) (wanted ops own (etcd_entries is)) =
    map (\<lambda>i. host (registered i)) (filter (\<lambda>i. key (registered i) \<noteq> own) is)"
  using assms by (induction "is") (auto simp: host_urls_def etcd_entries_def)

lemma probe_of_service:
  assumes "mux_laws mux"
  shows "probe_answer (\<lambda>h. http_service mux h validate swagger metrics port logger cid) i =
    (if up i then Inr 200 else Inl ''connection refused'')"
  using health_answer [OF assms, of probe_request "handlers i" validate swagger metrics port logger cid]
  by (auto simp: probe_answer_def client_status_def probe_request_def)

text \<open>A backend that shows as the host of an instance is alive after the round iff it is up.\<close>

lemma checked_alive:
  assumes "mux_laws mux" "host_urls ops is"
    "network_laws (\<lambda>h. http_service mux h validate swagger metrics port logger cid) get is"
    "i \<in> set is" "shows_as ops h (host (registered i)) b" "checked ops get h b"
  shows "IsAlive h b \<longleftrightarrow> up i"
proof -
  obtain x where x: "cells h b = Some x" "url_String ops (URL x) = host (registered i)"
    using assms(5) by (auto simp: shows_as_def)
  then have "url_String ops (with_Path ops ''/health'' (URL x)) = host (registered i) @ ''/health''"
    using assms(2,4) by (auto simp: host_urls_def list_all_iff)
  moreover have "get (host (registered i) @ ''/health'') = (if up i then Inr 200 else Inl ''connection refused'')"
    using assms(3,4) probe_of_service [OF assms(1)] by (auto simp: network_laws_def list_all_iff)
  ultimately show ?thesis using x(1) assms(6) by (simp add: checked_def IsAlive_def isBackendAlive_def)
qed

lemma due_live:
  assumes "mux_laws mux" "host_urls ops is"
    "network_laws (\<lambda>h. http_service mux h validate swagger metrics port logger cid) get is"
    "list_all2 (\<lambda>u. shows_as ops (objs lb) (url_String ops u)) (wanted ops own (etcd_entries is)) (Backends lb)"
    "set (Backends lb) \<subseteq> Collect (checked ops get (objs lb))" "Current lb = 0"
  shows "list_all2 (shows_as ops (objs lb)) (live own is) (due lb)"
proof -
  let ?own = "filter (\<lambda>i. key (registered i) \<noteq> own) is"
  have "list_all2 (shows_as ops (objs lb)) (map (url_String ops) (wanted ops own (etcd_entries is))) (Backends lb)"
    using assms(4) by (simp add: list_all2_map1)
  then have shown: "list_all2 (\<lambda>i. shows_as ops (objs lb) (host (registered i))) ?own (Backends lb)"
    by (simp add: wanted_hosts [OF assms(2)] list_all2_map1)
  have "list_all2 (\<lambda>i b. i \<in> set is \<and> shows_as ops (objs lb) (host (registered i)) b \<and> checked ops get (objs lb) b)
      ?own (Backends lb)"
    using assms(5) by (intro list.rel_mono_strong [OF shown]) auto
  then have "list_all2 (\<lambda>i b. i \<in> set is \<and> shows_as ops (objs lb) (host (registered i)) b \<and> checked ops get (objs lb) b)
      (filter up ?own) (filter (IsAlive (objs lb)) (Backends lb))"
    by (rule filter_list_all2) (use checked_alive [OF assms(1-3)] in blast)
  then show ?thesis
    by (auto simp: live_def due_def assms(6) list_all2_map1 filter_filter conj_commute elim!: list_all2_mono)
qed

lemma proxy_of_shown:
  "shows_as ops h t b \<Longrightarrow> map_option (map_served (url_String ops)) (proxy_of h (Some b)) = Some (Proxied t)"
  by (auto simp: shows_as_def proxy_of_def)

lemma serve_many_live:
  assumes "list_all2 (shows_as ops (objs lb)) ts (due lb)" "Current lb = 0"
  shows "map (map_option (map_served (url_String ops))) (fst (serve_many k lb)) =
    map (\<lambda>j. Some (if ts = [] then Unavailable (503, ''Service not available'') else Proxied (ts ! (j mod length ts)))) [0..<k]"
proof (cases "ts = []")
  case True
  with assms show ?thesis
    by (simp add: serve_many_next next_backends_none proxy_of_def map_replicate_trivial map_replicate_const)
next
  case False
  then have ne: "due lb \<noteq> []" and len: "length (due lb) = length ts"
    using assms(1) list_all2_lengthD by fastforce+
  have "Backends lb \<noteq> []" using ne by (auto simp: due_def)
  then have "fst (next_backends k lb) = map (\<lambda>j. Some (due lb ! (j mod length ts))) [0..<k]"
    using next_backends_due [OF ne] assms(2) by (simp add: len)
  moreover have "shows_as ops (objs lb) (ts ! (j mod length ts)) (due lb ! (j mod length ts))" for j
    using list_all2_nthD [OF assms(1), of "j mod length ts"] False by simp
  then have "map_option (map_served (url_String ops)) (proxy_of (objs lb) (Some (due lb ! (j mod length ts)))) =
      Some (Proxied (ts ! (j mod length ts)))" for j
    by (rule proxy_of_shown)
  ultimately show ?thesis using False by (simp add: serve_many_next del: map_option_eq_Some)
qed

section \<open>Properties\<close>

text \<open>
  C7: registration, balancer and service together. Whatever the balancer has been through, once
  it has read the entries of the registered instances and a round of health checks has run to
  its end, its requests go round exactly the instances that are up (its own entry left out), one
  after the other in the order of their keys, each to the address that instance registered; and
  when none is up every request gets 503.
\<close>

theorem balancer_reaches_live_instances:
  assumes "bal_steps ops (NewLoadBalancer own) lb" "pending lb = None"
    and "mux_laws mux" "host_urls ops is"
    and "network_laws (\<lambda>h. http_service mux h validate swagger metrics port logger cid) get is"
  shows "\<exists>lb'. health_round ops get (UpdateBackends ops (Inr (etcd_entries is)) lb) = Some lb' \<and>
    map (map_option (map_served (url_String ops))) (fst (serve_many k lb')) =
      map (\<lambda>j. Some (if live own is = [] then Unavailable (503, ''Service not available'')
        else Proxied (live own is ! (j mod length (live own is))))) [0..<k]"
proof -
  obtain lb' where lb': "health_round ops get (UpdateBackends ops (Inr (etcd_entries is)) lb) = Some lb'"
      "Current lb' = 0"
      "list_all2 (\<lambda>u. shows_as ops (objs lb') (url_String ops u)) (wanted ops own (etcd_entries is)) (Backends lb')"
      "set (Backends lb') \<subseteq> Collect (checked ops get (objs lb'))"
    using refreshed_and_checked [OF bal_run.reachable [OF assms(1)] steady_run.reachable [OF assms(1)] assms(2)]
    by blast
  from serve_many_live [OF due_live [OF assms(3-5) lb'(3,4,2)] lb'(2)] lb'(1) show ?thesis by blast
qed

section \<open>Witnesses\<close>

definition demo_instance :: "string \<Rightarrow> string \<Rightarrow> bool \<Rightarrow> service_instance" where
  "demo_instance sid addr alive =
     \<lparr>registered = \<lparr>Client = 0, lease = Some 1, has_register = True, session = None, serviceId = sid,
        host = addr, key = NewServiceKey sid ''s''\<rparr>, up = alive, handlers = free_handlers\<rparr>"

definition demo_cluster :: "service_instance list" where
  "demo_cluster = [demo_instance ''1'' ''a:1'' True, demo_instance ''2'' ''b:1'' True,
     demo_instance ''3'' ''c:1'' False, demo_instance ''4'' ''d:1'' True]"

theorem balancer_reaches_live_instances_witness:
  "\<exists>get lb'. health_round plain_urls get
      (UpdateBackends plain_urls (Inr (etcd_entries demo_cluster)) (NewLoadBalancer (NewServiceKey ''2'' ''s''))) = Some lb' \<and>
    map (map_option (map_served (url_String plain_urls))) (fst (serve_many 3 lb')) =
      [Some (Proxied ''a:1''), Some (Proxied ''d:1''), Some (Proxied ''a:1'')]"
proof -
  let ?own = "NewServiceKey ''2'' ''s''"
  let ?srv = "\<lambda>h. http_service plain_mux h tag_check file_server file_server '':3000'' [''app''] ''cid''"
  let ?get = "\<lambda>u. if u = ''c:1/health'' then Inl ''connection refused'' else Inr 200"
  have net: "network_laws ?srv ?get demo_cluster"
    by (simp add: network_laws_def probe_of_service [OF plain_mux_laws] demo_cluster_def demo_instance_def)
  have urls: "host_urls plain_urls demo_cluster"
    by (simp add: host_urls_def plain_urls_def demo_cluster_def demo_instance_def)
  have live: "live ?own demo_cluster = [''a:1'', ''d:1'']"
    by (simp add: live_def demo_cluster_def demo_instance_def NewServiceKey_def)
  have pend: "pending (NewLoadBalancer ?own :: string balancer) = None" by (simp add: NewLoadBalancer_def)
  show ?thesis
    using balancer_reaches_live_instances [OF rtranclp.rtrancl_refl pend plain_mux_laws urls net, of 3]
    by (intro exI [of _ ?get]) (simp add: live upt_conv_Cons)
qed

end
