(* ===== verification/Di_Container.thy ===== *)
theory Di_Container
  imports Etcd
begin

text \<open>
  The dependency containers of \<^verbatim>\<open>container/dig.go\<close>. The package \<^verbatim>\<open>go.uber.org/dig\<close> is a parameter:
  \<open>provide\<close> is its method \<open>Provide\<close>, which returns the container and an error, and \<open>dig_laws\<close> is
  what its documentation promises. A constructor closure is a \<open>provider\<close>: the type (and name)
  it returns, the types of its parameters, and the call it makes with the literals of the
  source. Each \<open>Build\<close> function is the list of its \<open>Provide\<close> calls in order, with the text of
  the \<open>log.Fatalf\<close> that checks the error, or \<open>None\<close> where the error is not checked.
\<close>

section \<open>Providers\<close>

datatype go_type =
    T_Logger | T_Config | T_PostgresRepository | T_EtcdClientService | T_SrvRepository | T_Srv
  | T_Serializer | T_RedisClient | T_ElasticFacade | T_Migrations | T_Prometheus | T_Handlers
  | T_Conn | T_MyService | T_MyService2 | T_RedisRepository | T_Cron | T_CronService | T_RabbitMQ
  | T_ConsumerRabbitService | T_Publisher

text \<open>A dependency is a type with a name, empty unless \<open>dig.Name\<close> gives one.\<close>

type_synonym dep = "go_type \<times> string"

abbreviation typ_dep :: "go_type \<Rightarrow> dep" where
  "typ_dep t \<equiv> (t, [])"

record Config =
  db_Host :: string
  db_Port :: string
  db_Username :: string
  db_Password :: string
  db_Database :: string

record redis_options =
  r_Addr :: string
  r_Username :: string
  r_Password :: string
  r_DB :: int
  r_DialTimeout :: int    \<comment> \<open>seconds, as the two below\<close>
  r_ReadTimeout :: int
  r_WriteTimeout :: int
  r_PoolSize :: int
  r_MinIdleConns :: int

text \<open>The call in the body of a constructor closure.\<close>

datatype ctor =
    ReturnCaptured
  | NewPostgres string string string string string string
  | NewEtcd string string string string string string string
  | NewRedisClient redis_options
  | NewElasticFacade "string list" string string
  | NewClusterConn "string list" bool
  | RegisterPublisher string string   \<comment> \<open>exchange, and the label in the confirmation log\<close>
  | Plain string                      \<comment> \<open>a constructor without literals\<close>

record provider =
  pkey :: dep
  params :: "dep list"
  body :: ctor

type_synonym provide_call = "provider \<times> string option"

definition prov :: "go_type \<Rightarrow> go_type list \<Rightarrow> ctor \<Rightarrow> provider" where
  "prov t ps b = \<lparr>pkey = typ_dep t, params = map typ_dep ps, body = b\<rparr>"

definition named_prov :: "string \<Rightarrow> go_type \<Rightarrow> go_type list \<Rightarrow> ctor \<Rightarrow> provider" where
  "named_prov n t ps b = \<lparr>pkey = (t, n), params = map typ_dep ps, body = b\<rparr>"

section \<open>The containers\<close>

text \<open>The closures that several containers repeat literally.\<close>

definition logger_call :: provide_call where
  "logger_call = (prov T_Logger [] ReturnCaptured, Some ''failed to provide logger '')"

definition config_call :: provide_call where
  "config_call = (prov T_Config [] ReturnCaptured, Some ''failed to provide config '')"

definition postgres_call :: "Config \<Rightarrow> provide_call" where
  "postgres_call cfg =
     (prov T_PostgresRepository []
        (NewPostgres (db_Host cfg) (db_Port cfg) (db_Username cfg) (db_Password cfg) (db_Database cfg) ''disable''),
      Some ''failed to provide postgres '')"

definition redis_call :: provide_call where
  "redis_call =
     (prov T_RedisClient [] (NewRedisClient \<lparr>r_Addr = ''127.0.0.1:6379'', r_Username = ''myuser'',
        r_Password = ''mypassword'', r_DB = 1, r_DialTimeout = 5, r_ReadTimeout = 3, r_WriteTimeout = 3,
        r_PoolSize = 10, r_MinIdleConns = 2\<rparr>),
      Some ''failed to provide redis '')"

definition rabbit_conn_call :: "string \<Rightarrow> provide_call" where
  "rabbit_conn_call conn =
     (prov T_Conn [] (NewClusterConn [conn] False), Some ''failed to provide rabbitmq '')"

definition service_call :: provide_call where
  "service_call = (prov T_Srv [] (Plain ''NewSrv''), Some ''failed to provide service '')"

definition serializer_call :: provide_call where
  "serializer_call = (prov T_Serializer [] (Plain ''NewSerializer''), Some ''failed to provide serializer '')"

definition migrations_call :: provide_call where
  "migrations_call =
     (prov T_Migrations [T_PostgresRepository, T_Logger, T_RedisClient] (Plain ''NewMigrations''),
      Some ''failed to provide migrations '')"

definition http_calls :: "Config \<Rightarrow> string \<Rightarrow> string \<Rightarrow> provide_call list" where
  "http_calls cfg port serviceID =
     [logger_call, config_call, postgres_call cfg,
      (prov T_EtcdClientService []
         (NewEtcd ''http://localhost:2379'' ''admin'' ''adminpassword'' port ''http''
            (NewServiceKey serviceID ''my-service'') serviceID),
       Some ''failed to provide etcd ''),
      (prov T_SrvRepository [] (Plain ''NewSrvRepository''), Some ''failed to provide repository ''),
      service_call, serializer_call, redis_call,
      (prov T_ElasticFacade [] (NewElasticFacade [''http://localhost:9200''] ''elastic'' ''elasticpassword''),
       Some ''failed to provide elastic ''),
      migrations_call,
      (prov T_Prometheus [] (Plain ''NewPrometheus''), Some ''failed to provide prometheus ''),
      (prov T_Handlers [T_Prometheus, T_PostgresRepository, T_EtcdClientService, T_Serializer] (Plain ''NewHandlers''),
       Some ''failed to provide prometheus '')]"

definition grpc_calls :: "Config \<Rightarrow> string \<Rightarrow> provide_call list" where
  "grpc_calls cfg conn =
     [logger_call, config_call, postgres_call cfg, rabbit_conn_call conn, redis_call, service_call,
      serializer_call, migrations_call,
      (prov T_MyService [T_PostgresRepository, T_Srv] (Plain ''NewMyService''),
       Some ''failed to provide grpc_handler.MyService ''),
      (prov T_MyService2 [T_PostgresRepository, T_Srv] (Plain ''NewMyService2''),
       Some ''failed to provide grpc_handler.MyService2 '')]"

text \<open>The errors of the two cron constructors are overwritten unread.\<close>

definition cron_calls :: "Config \<Rightarrow> string \<Rightarrow> provide_call list" where
  "cron_calls cfg conn =
     [logger_call, config_call, postgres_call cfg, rabbit_conn_call conn, redis_call,
      (prov T_RedisRepository [T_RedisClient] (Plain ''NewRedisRepository''),
       Some ''failed to provide redis repository ''),
      (prov T_Cron [T_RedisClient, T_Logger] (Plain ''NewCronClient''), None),
      (prov T_CronService [T_RedisClient, T_Cron, T_RedisRepository] (Plain ''NewCronService''), None),
      service_call, serializer_call, migrations_call]"

definition publisher_call :: "string \<Rightarrow> string \<Rightarrow> string \<Rightarrow> provide_call" where
  "publisher_call name exchange label =
     (named_prov name T_Publisher [T_Conn, T_ConsumerRabbitService, T_RabbitMQ]
        (RegisterPublisher exchange label), Some (''failed to provide '' @ name @ '' ''))"

text \<open>The consumer container and the background container make the same calls.\<close>

definition rabbit_calls :: "Config \<Rightarrow> string \<Rightarrow> provide_call list" where
  "rabbit_calls cfg conn =
     [logger_call, config_call, postgres_call cfg, rabbit_conn_call conn,
      (prov T_RabbitMQ [] (Plain ''NewRabbitMQ''), Some ''failed to provide rabbitmq ''),
      (prov T_ConsumerRabbitService [T_PostgresRepository] (Plain ''NewConsumerRabbitService''),
       Some ''failed to provide consumer ''),
      publisher_call ''publisherZero'' ''events'' ''publisher_0'',
      publisher_call ''publisherFirst'' ''my_events'' ''publisher_1'',
      redis_call, service_call, serializer_call, migrations_call]"

text \<open>A checked error ends the process with its text; an unchecked one is dropped.\<close>

fun provide_all ::
  "('c \<Rightarrow> provider \<Rightarrow> 'c \<times> string option) \<Rightarrow> provide_call list \<Rightarrow> 'c \<Rightarrow> 'c result" where
  "provide_all provide [] c = Inr c"
| "provide_all provide ((p, msg) # calls) c =
     (let (c', err) = provide c p in
      case (err, msg) of
        (Some e, Some m) \<Rightarrow> Inl (m @ e)
      | _ \<Rightarrow> provide_all provide calls c')"

definition BuildContainerForHttpServer where
  "BuildContainerForHttpServer provide new cfg port serviceID =
     provide_all provide (http_calls cfg port serviceID) new"

definition BuildContainerForGrpcServer where
  "BuildContainerForGrpcServer provide new cfg conn = provide_all provide (grpc_calls cfg conn) new"

definition BuildContainerForCron where
  "BuildContainerForCron provide new cfg conn = provide_all provide (cron_calls cfg conn) new"

definition BuildContainerForConsumers where
  "BuildContainerForConsumers provide new cfg conn = provide_all provide (rabbit_calls cfg conn) new"

definition BuildContainerForBackgroundRabbitMq where
  "BuildContainerForBackgroundRabbitMq provide new cfg conn =
     provide_all provide (rabbit_calls cfg conn) new"

text \<open>The fields of \<open>ConsumerDependencies\<close> and of \<open>RabbitBackgroundDependencies\<close>.\<close>

definition ConsumerDependencies :: "dep list" where
  "ConsumerDependencies = [typ_dep T_PostgresRepository, typ_dep T_Conn, typ_dep T_ConsumerRabbitService,
     typ_dep T_RedisClient, (T_Publisher, ''publisherZero''), (T_Publisher, ''publisherFirst''),
     typ_dep T_RabbitMQ, typ_dep T_Migrations]"

definition RabbitBackgroundDependencies :: "dep list" where
  "RabbitBackgroundDependencies = [typ_dep T_PostgresRepository, typ_dep T_Conn,
     typ_dep T_ConsumerRabbitService, typ_dep T_RedisClient, (T_Publisher, ''publisherZero''),
     (T_Publisher, ''publisherFirst''), typ_dep T_RabbitMQ, typ_dep T_Migrations]"

section \<open>What dig promises\<close>

definition dep_edges :: "provider list \<Rightarrow> (dep \<times> dep) set" where
  "dep_edges ps = {(pkey p, d) | p d. p \<in> set ps \<and> d \<in> set (params p)}"

text \<open>
  \<open>Provide\<close> refuses a second constructor of the same dependency and a constructor that closes
  a cycle, and then leaves the container as it was; otherwise it adds the constructor.
\<close>

definition dig_laws ::
  "'c \<Rightarrow> ('c \<Rightarrow> provider \<Rightarrow> 'c \<times> string option) \<Rightarrow> ('c \<Rightarrow> provider list) \<Rightarrow> bool" where
  "dig_laws new provide graph \<longleftrightarrow> graph new = [] \<and>
     (\<forall>c p. let (c', err) = provide c p in
        if pkey p \<in> pkey ` set (graph c) \<or> \<not> acyclic (dep_edges (graph c @ [p]))
        then err \<noteq> None \<and> graph c' = graph c
        else err = None \<and> graph c' = graph c @ [p])"

text \<open>\<open>Invoke\<close> finds everything it needs when all dependencies reachable from its parameters
  have a constructor.\<close>

definition resolvable :: "provider list \<Rightarrow> dep list \<Rightarrow> bool" where
  "resolvable ps ds \<longleftrightarrow> (dep_edges ps)\<^sup>* `` set ds \<subseteq> pkey ` set ps"

section \<open>Well-ordered lists of constructors\<close>

text \<open>No dependency has two constructors, and every parameter has an earlier one.\<close>

fun well_ordered :: "dep list \<Rightarrow> provider list \<Rightarrow> bool" where
  "well_ordered seen [] \<longleftrightarrow> True"
| "well_ordered seen (p # ps) \<longleftrightarrow> pkey p \<notin> set seen \<and> set (params p) \<subseteq> set seen \<and>
     well_ordered (pkey p # seen) ps"

lemma well_ordered_append:
  "well_ordered seen (ps @ qs) \<longleftrightarrow> well_ordered seen ps \<and> well_ordered (rev (map pkey ps) @ seen) qs"
  by (induction ps arbitrary: seen) auto

lemma well_ordered_snoc:
  "well_ordered [] (ps @ [p]) \<longleftrightarrow>
   well_ordered [] ps \<and> pkey p \<notin> pkey ` set ps \<and> set (params p) \<subseteq> pkey ` set ps"
  by (simp add: well_ordered_append)

lemma dep_edges_snoc:
  "dep_edges (ps @ [p]) = dep_edges ps \<union> {(pkey p, d) | d. d \<in> set (params p)}"
  by (auto simp: dep_edges_def)

text \<open>Edges lead from a constructor to earlier ones: a rank shows that there is no cycle.\<close>

lemma well_ordered_rank:
  "well_ordered [] ps \<Longrightarrow> \<exists>r :: dep \<Rightarrow> nat. (\<forall>(a, b) \<in> dep_edges ps. r b < r a) \<and>
     (\<forall>d \<in> pkey ` set ps. r d < length ps) \<and> dep_edges ps \<subseteq> pkey ` set ps \<times> pkey ` set ps"
proof (induction ps rule: rev_induct)
  case Nil
  then show ?case by (auto simp: dep_edges_def)
next
  case (snoc p ps)
  then have p: "pkey p \<notin> pkey ` set ps" "set (params p) \<subseteq> pkey ` set ps"
    and wo: "well_ordered [] ps"
    by (simp_all add: well_ordered_snoc)
  from snoc.IH [OF wo] obtain r :: "dep \<Rightarrow> nat" where r: "\<forall>(a, b) \<in> dep_edges ps. r b < r a"
      "\<forall>d \<in> pkey ` set ps. r d < length ps" "dep_edges ps \<subseteq> pkey ` set ps \<times> pkey ` set ps"
    by blast
  define r' where "r' = r(pkey p := length ps)"
  have old: "r' d = r d" if "d \<in> pkey ` set ps" for d
    using that p(1) unfolding r'_def by (metis fun_upd_other)
  have "r' b < r' a" if "(a, b) \<in> dep_edges (ps @ [p])" for a b
  proof (cases "(a, b) \<in> dep_edges ps")
    case True
    then have "a \<in> pkey ` set ps" "b \<in> pkey ` set ps" "r b < r a" using r(1,3) by blast+
    then show ?thesis by (simp add: old)
  next
    case False
    then have "a = pkey p" "b \<in> set (params p)" using that by (auto simp: dep_edges_snoc)
    then have "b \<in> pkey ` set ps" "r' a = length ps" using p(2) by (auto simp: r'_def)
    then show ?thesis using r(2) old [of b] by auto
  qed
  moreover have "\<forall>d \<in> pkey ` set (ps @ [p]). r' d < length (ps @ [p])"
    using r(2) old by (auto simp: r'_def less_Suc_eq)
  moreover have "dep_edges (ps @ [p]) \<subseteq> pkey ` set (ps @ [p]) \<times> pkey ` set (ps @ [p])"
    using r(3) p(2) by (auto simp: dep_edges_snoc)
  ultimately show ?case by (intro exI [of _ r']) auto
qed

lemma well_ordered_acyclic:
  assumes "well_ordered [] ps"
  shows "acyclic (dep_edges ps)"
proof -
  obtain r :: "dep \<Rightarrow> nat" where "\<forall>(a, b) \<in> dep_edges ps. r b < r a"
    using well_ordered_rank [OF assms] by blast
  then have "dep_edges ps \<subseteq> (measure r)\<inverse>" by auto
  moreover have "acyclic ((measure r)\<inverse>)" by (simp add: acyclic_converse wf_acyclic)
  ultimately show ?thesis by (rule acyclic_subset [rotated])
qed

lemma well_ordered_resolvable:
  assumes "well_ordered [] ps" "set ds \<subseteq> pkey ` set ps"
  shows "resolvable ps ds"
proof -
  have edges: "dep_edges ps \<subseteq> pkey ` set ps \<times> pkey ` set ps"
    using well_ordered_rank [OF assms(1)] by blast
  have "b \<in> pkey ` set ps" if "(a, b) \<in> (dep_edges ps)\<^sup>*" "a \<in> set ds" for a b
    using that edges assms(2) by (induction rule: rtrancl_induct) blast+
  then show ?thesis by (auto simp: resolvable_def)
qed

lemma dig_provide_ok:
  assumes "dig_laws new provide graph" "well_ordered [] (graph c @ [p])"
  obtains c' where "provide c p = (c', None)" "graph c' = graph c @ [p]"
proof -
  obtain c' err where cp: "provide c p = (c', err)" by fastforce
  have "pkey p \<notin> pkey ` set (graph c)" "acyclic (dep_edges (graph c @ [p]))"
    using assms(2) well_ordered_acyclic [OF assms(2)] by (simp_all add: well_ordered_snoc)
  moreover have "let (c', err) = provide c p in
      if pkey p \<in> pkey ` set (graph c) \<or> \<not> acyclic (dep_edges (graph c @ [p]))
      then err \<noteq> None \<and> graph c' = graph c else err = None \<and> graph c' = graph c @ [p]"
    using assms(1) unfolding dig_laws_def by blast
  ultimately have "err = None" "graph c' = graph c @ [p]" using cp by simp_all
  with cp that show ?thesis by blast
qed

lemma dig_provide_all:
  assumes "dig_laws new provide graph" "well_ordered [] (graph c @ map fst calls)"
  shows "\<exists>c'. provide_all provide calls c = Inr c' \<and> graph c' = graph c @ map fst calls"
  using assms(2)
proof (induction calls arbitrary: c)
  case (Cons call calls)
  obtain p msg where call: "call = (p, msg)" by (cases call)
  have "well_ordered [] (graph c @ [p])"
    using Cons.prems call well_ordered_append [of "[]" "graph c @ [p]" "map fst calls"] by simp
  then obtain c1 where c1: "provide c p = (c1, None)" "graph c1 = graph c @ [p]"
    using dig_provide_ok [OF assms(1)] by blast
  then have "\<exists>c'. provide_all provide calls c1 = Inr c' \<and> graph c' = graph c1 @ map fst calls"
    using Cons.IH [of c1] Cons.prems call by simp
  with c1 call show ?case by simp
qed simp

lemmas call_lists = logger_call_def config_call_def postgres_call_def redis_call_def
  rabbit_conn_call_def service_call_def serializer_call_def migrations_call_def publisher_call_def
  http_calls_def grpc_calls_def cron_calls_def rabbit_calls_def prov_def named_prov_def

lemma calls_well_ordered:
  "well_ordered [] (map fst (http_calls cfg port sid))"
  "well_ordered [] (map fst (grpc_calls cfg conn))"
  "well_ordered [] (map fst (cron_calls cfg conn))"
  "well_ordered [] (map fst (rabbit_calls cfg conn))"
  by (simp_all add: call_lists)

section \<open>Properties\<close>

text \<open>A dig in which every constructor of \<open>bad\<close> is refused.\<close>

definition refuses :: "dep set \<Rightarrow> ('c \<Rightarrow> provider \<Rightarrow> 'c \<times> string option) \<Rightarrow> bool" where
  "refuses bad provide \<longleftrightarrow> (\<forall>c p. (snd (provide c p) \<noteq> None) = (pkey p \<in> bad))"

lemma provide_all_refused:
  assumes "refuses bad provide"
  shows "isl (provide_all provide calls c) \<longleftrightarrow>
    (\<exists>call \<in> set calls. snd call \<noteq> None \<and> pkey (fst call) \<in> bad)"
proof (induction calls arbitrary: c)
  case (Cons call calls)
  obtain p msg where call: "call = (p, msg)" by (cases call)
  obtain c' err where cp: "provide c p = (c', err)" by fastforce
  have "(err \<noteq> None) = (pkey p \<in> bad)" using assms cp by (metis refuses_def snd_conv)
  then show ?case using Cons.IH [of c'] cp call by (cases err; cases msg) auto
qed simp

lemma failed_Provide_is_fatal:
  assumes "refuses bad provide"
  shows "(isl (BuildContainerForCron provide new cfg conn) \<longleftrightarrow>
      bad \<inter> pkey ` set (map fst (cron_calls cfg conn)) - {typ_dep T_Cron, typ_dep T_CronService} \<noteq> {}) \<and>
    (isl (BuildContainerForHttpServer provide new cfg port sid) \<longleftrightarrow>
      bad \<inter> pkey ` set (map fst (http_calls cfg port sid)) \<noteq> {}) \<and>
    (isl (BuildContainerForGrpcServer provide new cfg conn) \<longleftrightarrow>
      bad \<inter> pkey ` set (map fst (grpc_calls cfg conn)) \<noteq> {}) \<and>
    (isl (BuildContainerForConsumers provide new cfg conn) \<longleftrightarrow>
      bad \<inter> pkey ` set (map fst (rabbit_calls cfg conn)) \<noteq> {}) \<and>
    (isl (BuildContainerForBackgroundRabbitMq provide new cfg conn) \<longleftrightarrow>
      bad \<inter> pkey ` set (map fst (rabbit_calls cfg conn)) \<noteq> {})"
  unfolding BuildContainerForHttpServer_def BuildContainerForGrpcServer_def BuildContainerForCron_def
    BuildContainerForConsumers_def BuildContainerForBackgroundRabbitMq_def
    provide_all_refused [OF assms]
  by (auto simp: call_lists)

text \<open>No call fails.\<close>

lemma containers_complete:
  assumes "dig_laws new provide graph"
  shows "(\<exists>c. BuildContainerForHttpServer provide new cfg port sid = Inr c \<and>
      graph c = map fst (http_calls cfg port sid)) \<and>
    (\<exists>c. BuildContainerForGrpcServer provide new cfg conn = Inr c \<and> graph c = map fst (grpc_calls cfg conn)) \<and>
    (\<exists>c. BuildContainerForCron provide new cfg conn = Inr c \<and> graph c = map fst (cron_calls cfg conn)) \<and>
    (\<exists>c. BuildContainerForConsumers provide new cfg conn = Inr c \<and> graph c = map fst (rabbit_calls cfg conn)) \<and>
    (\<exists>c. BuildContainerForBackgroundRabbitMq provide new cfg conn = Inr c \<and>
      graph c = map fst (rabbit_calls cfg conn))"
proof -
  have "\<exists>c. provide_all provide calls new = Inr c \<and> graph c = map fst calls"
    if "well_ordered [] (map fst calls)" for calls
    using dig_provide_all [OF assms, of new calls] that assms by (simp add: dig_laws_def)
  then show ?thesis
    using calls_well_ordered
    by (simp add: BuildContainerForHttpServer_def BuildContainerForGrpcServer_def
        BuildContainerForCron_def BuildContainerForConsumers_def BuildContainerForBackgroundRabbitMq_def)
qed

lemma containers_outcomes:
  assumes "dig_laws new provide graph"
  shows "(\<exists>c. BuildContainerForHttpServer provide new cfg port sid = Inr c \<and>
      graph c = map fst (http_calls cfg port sid)) \<and>
    (\<exists>c. BuildContainerForGrpcServer provide new cfg conn = Inr c \<and> graph c = map fst (grpc_calls cfg conn)) \<and>
    (\<exists>c. BuildContainerForCron provide new cfg conn = Inr c \<and> graph c = map fst (cron_calls cfg conn)) \<and>
    (\<exists>c. BuildContainerForConsumers provide new cfg conn = Inr c \<and> graph c = map fst (rabbit_calls cfg conn)) \<and>
    (\<exists>c. BuildContainerForBackgroundRabbitMq provide new cfg conn = Inr c \<and>
      graph c = map fst (rabbit_calls cfg conn)) \<and>
    (\<forall>bad provide'. refuses bad provide' \<longrightarrow>
      (isl (BuildContainerForCron provide' new cfg conn) \<longleftrightarrow>
        bad \<inter> pkey ` set (map fst (cron_calls cfg conn)) - {typ_dep T_Cron, typ_dep T_CronService} \<noteq> {}) \<and>
      (isl (BuildContainerForHttpServer provide' new cfg port sid) \<longleftrightarrow>
        bad \<inter> pkey ` set (map fst (http_calls cfg port sid)) \<noteq> {}) \<and>
      (isl (BuildContainerForGrpcServer provide' new cfg conn) \<longleftrightarrow>
        bad \<inter> pkey ` set (map fst (grpc_calls cfg conn)) \<noteq> {}) \<and>
      (isl (BuildContainerForConsumers provide' new cfg conn) \<longleftrightarrow>
        bad \<inter> pkey ` set (map fst (rabbit_calls cfg conn)) \<noteq> {}) \<and>
      (isl (BuildContainerForBackgroundRabbitMq provide' new cfg conn) \<longleftrightarrow>
        bad \<inter> pkey ` set (map fst (rabbit_calls cfg conn)) \<noteq> {}))"
    (is "_ \<and> _ \<and> _ \<and> _ \<and> _ \<and> ?fails")
proof -
  have "?fails" by (intro allI impI failed_Provide_is_fatal)
  with containers_complete [OF assms, of cfg port sid conn] show ?thesis
    by (elim conjE) (intro conjI; assumption)
qed

section \<open>Witnesses\<close>

text \<open>A container that is the list of its constructors.\<close>

definition list_provide :: "provider list \<Rightarrow> provider \<Rightarrow> provider list \<times> string option" where
  "list_provide c p = (if pkey p \<in> pkey ` set c \<or> \<not> acyclic (dep_edges (c @ [p]))
     then (c, Some ''cannot provide'') else (c @ [p], None))"

lemma list_provide_laws: "dig_laws [] list_provide (\<lambda>c. c)"
  by (simp add: dig_laws_def list_provide_def)

definition demo_config :: Config where
  "demo_config = \<lparr>db_Host = ''db'', db_Port = ''5432'', db_Username = ''u'', db_Password = ''p'', db_Database = ''d''\<rparr>"

end
