(* ===== verification/Main_Programs.thy ===== *)
theory Main_Programs
  imports App_Shutdown Di_Container
begin

text \<open>
  The main functions under \<^verbatim>\<open>cmd/\<close>, between \<open>app.Start\<close> and \<open>app.Run\<close>: the calls they make and
  the shutdown functions they register, in order, over the registry of \<open>App_Shutdown\<close>. A body
  is a list of \<open>main_act\<close>s; a registered closure closes one resource, which is recorded. The closures
  of \<^verbatim>\<open>cmd/grpc_client\<close> read a shared variable when they run, so the variable is part of the world.
  What a call does inside is the matter of the other theories (or of packages outside the
  repository); here it is a name, with the ways in which it may fail. \<open>run_main\<close> is the run in which
  no call fails; the runs with failures and signals are in \<open>Process_Runs\<close>.
\<close>

section \<open>Bodies\<close>

datatype resource = Dep dep | Obj string

text \<open>
  What may become of a call besides its return: an error that is logged or dropped, the end of the
  process (\<open>logger.Fatal\<close>, \<open>log.Fatalf\<close>), a panic of the main goroutine, a return from \<open>main\<close>, or a
  goroutine it leaves behind that ends the process when it cannot do its work.
\<close>

datatype failure = Dropped | Fatals | Panics | Returns | Spawns

datatype main_act =
    Call string "failure list"
  | Reg string resource int            \<comment> \<open>a closure that closes this resource\<close>
  | SetVar resource                    \<comment> \<open>assignment to the variable \<open>shutdown\<close>\<close>
  | RegVar string int                  \<comment> \<open>a closure that calls the variable\<close>

datatype event = Called string | ClosedRes resource

text \<open>How a shutdown function can fail to return: a fatal log line or a panic.\<close>

datatype close_break = FatalClose | PanicClose

record world =
  trace :: "event list"
  var :: "resource option"
  broken :: "resource \<rightharpoonup> close_break"       \<comment> \<open>whose shutdown function does not return\<close>
  broke :: "close_break option"                \<comment> \<open>how \<open>Stop\<close> has been cut short\<close>

definition new_world :: "(resource \<rightharpoonup> close_break) \<Rightarrow> world" where
  "new_world bs = \<lparr>trace = [], var = None, broken = bs, broke = None\<rparr>"

text \<open>
  The shutdown functions of the programs that can do so: that of \<open>PostgresRepository\<close> is fatal when its \<open>Close\<close>
  fails, and the one that closes the RabbitMQ connection panics when the connection is nil, since its constructor
  drops the error of connecting. The others log or drop their errors.
\<close>

definition close_breaks :: "bool \<Rightarrow> bool \<Rightarrow> resource \<rightharpoonup> close_break" where
  "close_breaks db_fails conn_nil =
     [Dep (typ_dep T_PostgresRepository) \<mapsto> FatalClose, Dep (typ_dep T_Conn) \<mapsto> PanicClose]
       |` ((if db_fails then {Dep (typ_dep T_PostgresRepository)} else {}) \<union> (if conn_nil then {Dep (typ_dep T_Conn)} else {}))"

definition close_fn :: "resource \<Rightarrow> world shutdown_fn" where
  "close_fn r w = (case broken w r of
       Some b \<Rightarrow> Panic (w\<lparr>broke := Some b\<rparr>)
     | None \<Rightarrow> Ok (w\<lparr>trace := trace w @ [ClosedRes r]\<rparr>))"

text \<open>Calling a nil function variable panics.\<close>

definition close_var :: "world shutdown_fn" where
  "close_var w = (case var w of None \<Rightarrow> Panic w | Some r \<Rightarrow> close_fn r w)"

fun run_body :: "main_act list \<Rightarrow> world App \<Rightarrow> world \<Rightarrow> (world App \<times> world) option" where
  "run_body [] app w = Some (app, w)"
| "run_body (Call c fs # as) app w = run_body as app (w\<lparr>trace := trace w @ [Called c]\<rparr>)"
| "run_body (Reg n r p # as) app w =
     Option.bind (RegisterShutdown n (close_fn r) p app) (\<lambda>app'. run_body as app' w)"
| "run_body (SetVar r # as) app w = run_body as app (w\<lparr>var := Some r\<rparr>)"
| "run_body (RegVar n p # as) app w =
     Option.bind (RegisterShutdown n close_var p app) (\<lambda>app'. run_body as app' w)"

text \<open>A whole run without failures: a new application, the body, then the deferred \<open>Stop\<close>.\<close>

definition run_main :: "main_act list \<Rightarrow> (world App \<times> world) outcome option" where
  "run_main as = Option.bind (run_body as NewApp (new_world Map.empty)) (\<lambda>(app, w). Stop app w)"

section \<open>The programs\<close>

text \<open>
  \<open>Invoke\<close> runs the constructors of the container, which are fatal when they cannot connect; the constructors of
  the publishers panic on a nil connection. When \<open>Invoke\<close> returns an error itself, the body has not run, and the
  program returns or is fatal. A panic of the first consumer's handler, in a goroutine of the client library, ends the process.
\<close>

abbreviation reg_logger :: main_act where
  "reg_logger \<equiv> Reg ''logger'' (Obj ''logger'') 101"

abbreviation reg_postgres :: main_act where
  "reg_postgres \<equiv> Reg ''postgres'' (Dep (typ_dep T_PostgresRepository)) 100"

abbreviation reg_rabbit :: main_act where
  "reg_rabbit \<equiv> Reg ''rabbitmq'' (Dep (typ_dep T_Conn)) 100"

abbreviation reg_redis :: main_act where
  "reg_redis \<equiv> Reg ''redis-node'' (Dep (typ_dep T_RedisClient)) 100"

definition http_server_main :: "main_act list" where
  "http_server_main =
     [Call ''Invoke'' [Fatals, Returns],
      Call ''prometheus.MustRegister'' [Panics],
      Reg ''prometheus-http'' (Obj ''prom.Http'') 200,
      reg_logger,
      reg_postgres,
      Call ''Migrate'' [Dropped, Fatals], Call ''MigrateRabbitMq'' [Dropped, Fatals],
      Call ''CreateSession'' [Dropped],
      Reg ''etcd_session'' (Obj ''etcd session'') 98,
      Reg ''etcd-client-service'' (Dep (typ_dep T_EtcdClientService)) 99,
      Call ''Register'' [],
      Call ''CreateHttpServer'' [Spawns],
      Reg ''simple_https_server'' (Obj ''http server'') 1,
      Call ''CreateHttpsServer'' [Spawns],
      Reg ''simple_https_server'' (Obj ''https server'') 1]"

definition grpc_server_main :: "main_act list" where
  "grpc_server_main =
     [Call ''Invoke'' [Fatals], reg_logger, reg_postgres, Call ''Migrate'' [Dropped, Fatals],
      reg_rabbit, Call ''MigrateRabbitMq'' [Dropped, Fatals],
      reg_redis,
      Call ''CreateGRPCServer'' [Fatals, Spawns],
      Reg ''gRPC server'' (Obj ''grpc server'') 1,
      Call ''CreateGRPCServerTLS'' [Fatals, Spawns],
      Reg ''gRPCS server'' (Obj ''grpcs server'') 1]"

definition cron_main :: "main_act list" where
  "cron_main =
     [Call ''Invoke'' [Fatals], reg_logger, reg_postgres, Call ''Migrate'' [Dropped, Fatals],
      reg_rabbit, Call ''MigrateRabbitMq'' [Dropped, Fatals],
      reg_redis,
      Call ''AddSchedule blank_cron_lock'' [Fatals], Call ''AddSchedule blank_1_cron_lock'' [Fatals], Call ''C.Start'' [],
      Reg ''cron'' (Dep (typ_dep T_Cron)) 10]"

text \<open>The consumer and the background program register the same; the latter also publishes.\<close>

definition consumer_main :: "main_act list" where
  "consumer_main =
     [Call ''Invoke'' [Fatals, Panics, Returns], reg_logger, reg_postgres, Call ''Migrate'' [Dropped, Fatals],
      reg_rabbit, Call ''MigrateRabbitMq'' [Dropped, Fatals],
      Reg ''publisher'' (Dep (T_Publisher, ''publisherZero'')) 9,
      Reg ''publisher1'' (Dep (T_Publisher, ''publisherFirst'')) 9,
      Call ''SetPublishers'' [],
      reg_redis,
      Call ''RegisterConsumer my_queue'' [Fatals],
      Reg ''consumer'' (Obj ''consumer'') 10,
      Call ''RegisterConsumer test_queue'' [Fatals],
      Reg ''consumer1'' (Obj ''consumer1'') 10,
      Call ''bg.Run'' [Spawns]]"

definition background_main :: "main_act list" where
  "background_main =
     [Call ''Invoke'' [Fatals, Panics, Returns], reg_logger, reg_postgres, Call ''Migrate'' [Dropped, Fatals],
      reg_rabbit, Call ''MigrateRabbitMq'' [Dropped, Fatals],
      Reg ''publisher'' (Dep (T_Publisher, ''publisherZero'')) 9,
      Reg ''publisher1'' (Dep (T_Publisher, ''publisherFirst'')) 9,
      Call ''SetPublishers'' [],
      reg_redis,
      Call ''RegisterConsumer my_queue'' [Fatals],
      Reg ''consumer'' (Obj ''consumer'') 10,
      Call ''RegisterConsumer test_queue'' [Fatals],
      Reg ''consumer1'' (Obj ''consumer1'') 10,
      Call ''bg.Run'' [Spawns], Call ''go push'' []]"

definition etcd_balancer_main :: "main_act list" where
  "etcd_balancer_main =
     [reg_logger,
      Call ''NewEtcdClientService'' [Fatals],
      Reg ''etcd-client-service'' (Dep (typ_dep T_EtcdClientService)) 99,
      Call ''Register'' [], Call ''CreateSession'' [Dropped],
      Reg ''etcd_session'' (Obj ''etcd session'') 98,
      Call ''NewElection'' [], Call ''DoElection'' [],
      Reg ''election'' (Obj ''election'') 97,
      Call ''NewLoadBalancer'' [], Call ''loadBalancer.Run'' [], Call ''go g.Run'' [Dropped],
      Call ''CreateHttpServer'' [Spawns],
      Reg ''simple_https_server'' (Obj ''http server'') 1]"

definition websocket_server_main :: "main_act list" where
  "websocket_server_main =
     [reg_logger,
      Call ''NewHub'' [], Call ''CollectGarbageConnections'' [],
      Reg ''garbage_collector'' (Obj ''garbage collector'') 1,
      Call ''NewUpgrader'' [], Call ''RegisterWsRoutes'' [],
      Call ''CreateHttpServer'' [Spawns],
      Reg ''websocket_http_server'' (Obj ''http server'') 1,
      Call ''CreateHttpsServer'' [Spawns],
      Reg ''websocket_https_server'' (Obj ''https server'') 1]"

definition sse_server_main :: "main_act list" where
  "sse_server_main =
     [reg_logger,
      Call ''CreateHttpServer'' [Spawns],
      Reg ''websocket_http_server'' (Obj ''http server'') 1,
      Call ''CreateHttpsServer'' [Spawns],
      Reg ''websocket_https_server'' (Obj ''https server'') 1]"

definition custom_gc_main :: "main_act list" where
  "custom_gc_main =
     [Call ''SetGCPercent -1'' [],
      reg_logger,
      Call ''MemoryCompactionCycle'' [],
      Reg ''memory-compaction'' (Obj ''memory compaction'') 100,
      Call ''go allocate'' []]"

definition http_client_main :: "main_act list" where
  "http_client_main =
     [reg_logger, Call ''NewHttpClientConnection'' [], Call ''NewHttpsClientConnection'' [Fatals], Call ''Do http'' [Panics], Call ''Do https'' [Panics]]"

definition sse_client_main :: "main_act list" where
  "sse_client_main =
     [reg_logger, Call ''NewHttpClientConnection'' [], Call ''NewHttpsClientConnection'' [Fatals],
      Call ''go listen https'' [Dropped], Call ''go listen http'' [Dropped]]"

definition websocket_client_main :: "main_act list" where
  "websocket_client_main = [reg_logger, Call ''NewHandlers'' [], Call ''go DoClientApp'' [Spawns]]"

text \<open>Here the second \<open>:=\<close> assigns the variable that the first closure has captured.\<close>

definition grpc_client_main :: "main_act list" where
  "grpc_client_main =
     [reg_logger,
      Call ''NewGRPCSClientConnection'' [Fatals], SetVar (Obj ''grpcs connection''), RegVar ''grpcsClient'' 1,
      Call ''NewGRPCClientConnection'' [Fatals], SetVar (Obj ''grpc connection''), RegVar ''grpcClient'' 1,
      Call ''DoWithTLS'' [Dropped], Call ''Do'' [Dropped]]"

section \<open>What a run does\<close>

fun act_regs :: "main_act list \<Rightarrow> world reg list" where
  "act_regs [] = []"
| "act_regs (Reg n r p # as) = (n, p, close_fn r) # act_regs as"
| "act_regs (RegVar n p # as) = (n, p, close_var) # act_regs as"
| "act_regs (_ # as) = act_regs as"

fun act_world :: "main_act list \<Rightarrow> world \<Rightarrow> world" where
  "act_world [] w = w"
| "act_world (Call c fs # as) w = act_world as (w\<lparr>trace := trace w @ [Called c]\<rparr>)"
| "act_world (SetVar r # as) w = act_world as (w\<lparr>var := Some r\<rparr>)"
| "act_world (_ # as) w = act_world as w"

lemma run_body_eq:
  "run_body as app w = map_option (\<lambda>app'. (app', act_world as w)) (register_all (act_regs as) app)"
  by (induction as app w rule: run_body.induct) (auto split: option.splits simp: Option.bind_eq_Some_conv)

lemma run_main_spec:
  "\<exists>r. run_main as = Some r \<and>
     app_agrees r (spec_stop (sort_key reg_priority (act_regs as)) (act_world as (new_world Map.empty)))"
proof -
  obtain app where app: "register_all (act_regs as) NewApp = Some app"
      "app_regs app (sort_key reg_priority (act_regs as))"
    using register_all_sorted by blast
  obtain r where "Stop app (act_world as (new_world Map.empty)) = Some r"
      "app_agrees r (spec_stop (sort_key reg_priority (act_regs as)) (act_world as (new_world Map.empty)))"
    using Stop_regs [OF app(2)] by blast
  then show ?thesis using app(1) by (simp add: run_main_def run_body_eq)
qed

text \<open>The closures that name their resource, and the order in which \<open>Stop\<close> reaches them.\<close>

fun act_closes :: "main_act list \<Rightarrow> (string \<times> int \<times> resource) list" where
  "act_closes [] = []"
| "act_closes (Reg n r p # as) = (n, p, r) # act_closes as"
| "act_closes (_ # as) = act_closes as"

fun no_var :: "main_act \<Rightarrow> bool" where
  "no_var (RegVar _ _) = False"
| "no_var _ = True"

definition close_order :: "main_act list \<Rightarrow> resource list" where
  "close_order as = map (\<lambda>x. snd (snd x)) (sort_key (\<lambda>x. fst (snd x)) (act_closes as))"

fun closed_of :: "event list \<Rightarrow> resource list" where
  "closed_of [] = []"
| "closed_of (ClosedRes r # es) = r # closed_of es"
| "closed_of (Called _ # es) = closed_of es"

lemma closed_of_append [simp]: "closed_of (xs @ ys) = closed_of xs @ closed_of ys"
  by (induction xs rule: closed_of.induct) auto

abbreviation to_reg :: "string \<times> int \<times> resource \<Rightarrow> world reg" where
  "to_reg x \<equiv> (fst x, fst (snd x), close_fn (snd (snd x)))"

lemma act_regs_closes: "list_all no_var as \<Longrightarrow> act_regs as = map to_reg (act_closes as)"
  by (induction as rule: act_regs.induct) auto

lemma insort_key_to_reg:
  "insort_key reg_priority (to_reg x) (map to_reg xs) = map to_reg (insort_key (\<lambda>x. fst (snd x)) x xs)"
  by (induction xs) auto

lemma sort_key_to_reg: "sort_key reg_priority (map to_reg xs) = map to_reg (sort_key (\<lambda>x. fst (snd x)) xs)"
  by (induction xs) (auto simp: insort_key_to_reg)

lemma spec_stop_closes:
  assumes "broken w = Map.empty"
  shows "\<exists>w'. spec_stop (map to_reg xs) w = Ok ([], w') \<and>
    closed_of (trace w') = closed_of (trace w) @ map (\<lambda>x. snd (snd x)) xs"
  using assms
proof (induction xs arbitrary: w)
  case (Cons x xs)
  then show ?case
    using Cons.IH [of "w\<lparr>trace := trace w @ [ClosedRes (snd (snd x))]\<rparr>"] by (auto simp: close_fn_def)
qed simp

lemma act_world_closes [simp]:
  "closed_of (trace (act_world as w)) = closed_of (trace w)" "broken (act_world as w) = broken w"
  by (induction as w rule: act_world.induct) auto

lemma new_world_simps [simp]:
  "trace (new_world bs) = []" "broken (new_world bs) = bs" "var (new_world bs) = None"
  by (simp_all add: new_world_def)

text \<open>The whole run returns, with an empty registry, and closes these resources in this order.\<close>

definition stops_with :: "main_act list \<Rightarrow> resource list \<Rightarrow> bool" where
  "stops_with as rs \<longleftrightarrow> (\<exists>app w. run_main as = Some (Ok (app, w)) \<and> app_node app = None \<and>
     closed_of (trace w) = rs)"

lemma run_main_closes:
  assumes "list_all no_var as"
  shows "stops_with as (close_order as)"
proof -
  let ?w = "act_world as (new_world Map.empty)"
  obtain w' where w': "spec_stop (sort_key reg_priority (act_regs as)) ?w = Ok ([], w')"
      "closed_of (trace w') = close_order as"
    using spec_stop_closes [of ?w "sort_key (\<lambda>x. fst (snd x)) (act_closes as)"]
    by (auto simp: act_regs_closes [OF assms] sort_key_to_reg close_order_def)
  obtain r where r: "run_main as = Some r" "app_agrees r (Ok ([], w'))"
    using run_main_spec [of as] w'(1) by auto
  then obtain app where "r = Ok (app, w')" "app_regs app []" by (elim app_agrees_OkD)
  with r w'(2) show ?thesis using app_regs_Nil by (auto simp: stops_with_def)
qed

text \<open>What the body of each \<open>Invoke\<close> asks of its container.\<close>

definition http_server_invoke :: "dep list" where
  "http_server_invoke = map typ_dep [T_PostgresRepository, T_EtcdClientService, T_SrvRepository, T_Srv,
     T_ElasticFacade, T_RedisClient, T_Migrations, T_Prometheus, T_Handlers]"

definition grpc_server_invoke :: "dep list" where
  "grpc_server_invoke = map typ_dep [T_PostgresRepository, T_Conn, T_RedisClient, T_Migrations,
     T_MyService, T_MyService2]"

definition cron_invoke :: "dep list" where
  "cron_invoke = map typ_dep [T_PostgresRepository, T_Conn, T_RedisRepository, T_RedisClient, T_Cron,
     T_CronService, T_Migrations]"

text \<open>
  The two RabbitMQ programs close their publishers first, before the consumers whose
  handler still publishes through \<open>publisherFirst\<close>.
\<close>

definition rabbit_order :: "resource list" where
  "rabbit_order = [Dep (T_Publisher, ''publisherZero''), Dep (T_Publisher, ''publisherFirst''),
     Obj ''consumer'', Obj ''consumer1'', Dep (typ_dep T_PostgresRepository), Dep (typ_dep T_Conn),
     Dep (typ_dep T_RedisClient), Obj ''logger'']"

lemma publishers_close_before_consumers:
  "stops_with consumer_main rabbit_order \<and> stops_with background_main rabbit_order"
  using run_main_closes [of consumer_main] run_main_closes [of background_main]
  by (simp add: close_order_def consumer_main_def background_main_def rabbit_order_def)

text \<open>
  Both closures of the gRPC client close the plain connection, the second one again; the
  TLS connection is never closed.
\<close>

lemma grpc_client_closes_one_connection_twice:
  "stops_with grpc_client_main [Obj ''grpc connection'', Obj ''grpc connection'', Obj ''logger'']"
proof -
  obtain r where r: "run_main grpc_client_main = Some r"
    "app_agrees r (spec_stop (sort_key reg_priority (act_regs grpc_client_main))
       (act_world grpc_client_main (new_world Map.empty)))"
    using run_main_spec by blast
  obtain w' where "spec_stop (sort_key reg_priority (act_regs grpc_client_main))
       (act_world grpc_client_main (new_world Map.empty)) = Ok ([], w')"
      "closed_of (trace w') = [Obj ''grpc connection'', Obj ''grpc connection'', Obj ''logger'']"
    by (simp add: grpc_client_main_def close_var_def close_fn_def)
  moreover from this r obtain app where "r = Ok (app, w')" "app_regs app []"
    by (auto elim: app_agrees_OkD)
  ultimately show ?thesis using r app_regs_Nil by (auto simp: stops_with_def)
qed

section \<open>Properties\<close>

lemma Invoke_finds_its_dependencies:
  "resolvable (map fst (http_calls cfg port sid)) http_server_invoke \<and>
   resolvable (map fst (grpc_calls cfg conn)) grpc_server_invoke \<and>
   resolvable (map fst (cron_calls cfg conn)) cron_invoke \<and>
   resolvable (map fst (rabbit_calls cfg conn)) ConsumerDependencies \<and>
   resolvable (map fst (rabbit_calls cfg conn)) RabbitBackgroundDependencies"
  by (intro conjI well_ordered_resolvable calls_well_ordered)
    (simp_all add: call_lists http_server_invoke_def grpc_server_invoke_def cron_invoke_def
      ConsumerDependencies_def RabbitBackgroundDependencies_def)

text \<open>
  C38: with a dig that keeps its documented promises, no container ends the process with
  \<open>log.Fatalf\<close>: each of the five \<open>Build\<close> functions returns a container that holds exactly the
  constructors it lists, because no dependency is provided twice and every parameter is
  provided before it is used. When a \<open>Provide\<close> call fails, each of them ends the process, except
  for the calls of \<open>pkg.Cron\<close> and \<open>cron.CronService\<close> in the cron service, whose errors are not
  checked: the container is then returned as if it were complete. Every parameter of the
  \<open>Invoke\<close> of each of the five programs, and everything such a parameter needs in turn, has a
  constructor in the container that the program builds, so that starting the program does not
  fail on a missing dependency.
\<close>

theorem containers_build:
  assumes "dig_laws new provide graph"
  shows "(\<exists>c. BuildContainerForHttpServer provide new cfg port sid = Inr c \<and>
      graph c = map fst (http_calls cfg port sid)) \<and>
    (\<exists>c. BuildContainerForGrpcServer provide new cfg conn = Inr c \<and> graph c = map fst (grpc_calls cfg conn)) \<and>
    (\<exists>c. BuildContainerForCron provide new cfg conn = Inr c \<and> graph c = map fst (cron_calls cfg conn)) \<and>
    (\<exists>c. BuildContainerForConsumers provide new cfg conn = Inr c \<and> graph c = map fst (rabbit_calls cfg conn)) \<and>
    (\<exists>c. BuildContainerForBackgroundRabbitMq provide new cfg conn = Inr c \<and>
      graph c = map fst (rabbit_calls cfg conn)) \<and>
    (\<forall>bad provide'. refuses bad provide' \<longrightarrow>
      (isl (BuildContainerForCron provide' new cfg conn) \<longleftrightarrow>
        bad \<inter> pkey ` set (map fst (cron_calls cfg conn)) - {typ_dep T_Cron, typ_dep T_CronService} \<noteq> {}) \<and>
      (isl (BuildContainerForHttpServer provide' new cfg port sid) \<longleftrightarrow>
        bad \<inter> pkey ` set (map fst (http_calls cfg port sid)) \<noteq> {}) \<and>
      (isl (BuildContainerForGrpcServer provide' new cfg conn) \<longleftrightarrow>
        bad \<inter> pkey ` set (map fst (grpc_calls cfg conn)) \<noteq> {}) \<and>
      (isl (BuildContainerForConsumers provide' new cfg conn) \<longleftrightarrow>
        bad \<inter> pkey ` set (map fst (rabbit_calls cfg conn)) \<noteq> {}) \<and>
      (isl (BuildContainerForBackgroundRabbitMq provide' new cfg conn) \<longleftrightarrow>
        bad \<inter> pkey ` set (map fst (rabbit_calls cfg conn)) \<noteq> {})) \<and>
   resolvable (map fst (http_calls cfg port sid)) http_server_invoke \<and>
   resolvable (map fst (grpc_calls cfg conn)) grpc_server_invoke \<and>
   resolvable (map fst (cron_calls cfg conn)) cron_invoke \<and>
   resolvable (map fst (rabbit_calls cfg conn)) ConsumerDependencies \<and>
   resolvable (map fst (rabbit_calls cfg conn)) RabbitBackgroundDependencies"
  using containers_outcomes [OF assms, of cfg port sid conn] Invoke_finds_its_dependencies [of cfg port sid conn]
  by (elim conjE) (intro conjI; assumption)

theorem containers_build_witness:
  "\<exists>c. BuildContainerForHttpServer list_provide [] demo_config '':80'' ''7'' = Inr c \<and> length c = 12"
proof -
  have "length (http_calls demo_config '':80'' ''7'') = 12" by (simp add: http_calls_def)
  with containers_build [OF list_provide_laws, of demo_config "'':80''" "''7''"] show ?thesis by auto
qed

text \<open>
  The order in which the service programs release what they hold. Servers and the cron
  scheduler go before the connections their handlers use, the election before the etcd
  session and the session before the etcd client, and the logger after everything that logs;
  the run ends with an empty registry. The two RabbitMQ programs close their publishers first,
  before the consumers whose handler still publishes through \<open>publisherFirst\<close>. Both closures of
  the gRPC client close the plain connection, the second one again; the TLS connection is
  never closed.
\<close>

lemma services_close_in_order:
  "stops_with http_server_main [Obj ''http server'', Obj ''https server'', Obj ''etcd session'',
     Dep (typ_dep T_EtcdClientService), Dep (typ_dep T_PostgresRepository), Obj ''logger'', Obj ''prom.Http''] \<and>
   stops_with grpc_server_main [Obj ''grpc server'', Obj ''grpcs server'', Dep (typ_dep T_PostgresRepository),
     Dep (typ_dep T_Conn), Dep (typ_dep T_RedisClient), Obj ''logger''] \<and>
   stops_with cron_main [Dep (typ_dep T_Cron), Dep (typ_dep T_PostgresRepository), Dep (typ_dep T_Conn),
     Dep (typ_dep T_RedisClient), Obj ''logger''] \<and>
   stops_with etcd_balancer_main [Obj ''http server'', Obj ''election'', Obj ''etcd session'',
     Dep (typ_dep T_EtcdClientService), Obj ''logger''] \<and>
   stops_with websocket_server_main [Obj ''garbage collector'', Obj ''http server'', Obj ''https server'',
     Obj ''logger''] \<and>
   stops_with sse_server_main [Obj ''http server'', Obj ''https server'', Obj ''logger''] \<and>
   stops_with custom_gc_main [Obj ''memory compaction'', Obj ''logger''] \<and>
   stops_with http_client_main [Obj ''logger''] \<and> stops_with sse_client_main [Obj ''logger''] \<and>
   stops_with websocket_client_main [Obj ''logger''] \<and>
   stops_with consumer_main rabbit_order \<and> stops_with background_main rabbit_order \<and>
   stops_with grpc_client_main [Obj ''grpc connection'', Obj ''grpc connection'', Obj ''logger'']"
  using publishers_close_before_consumers grpc_client_closes_one_connection_twice
    run_main_closes [of http_server_main] run_main_closes [of grpc_server_main]
    run_main_closes [of cron_main] run_main_closes [of etcd_balancer_main]
    run_main_closes [of websocket_server_main] run_main_closes [of sse_server_main]
    run_main_closes [of custom_gc_main] run_main_closes [of http_client_main]
    run_main_closes [of sse_client_main] run_main_closes [of websocket_client_main]
  by (simp add: close_order_def http_server_main_def grpc_server_main_def cron_main_def
      etcd_balancer_main_def websocket_server_main_def sse_server_main_def custom_gc_main_def
      http_client_main_def sse_client_main_def websocket_client_main_def)

end
