(* ===== verification/Process_Runs.thy ===== *)
theory Process_Runs
  imports App_Lifecycle Main_Programs "HOL-Library.Sublist"
begin

text \<open>
  The programs as processes: the body of \<open>main\<close> (\<open>Main_Programs\<close>) is executed call by call between
  \<open>Start\<close> and \<open>Run\<close> of the application (\<open>App_Lifecycle\<close>), and \<open>Stop\<close> one shutdown function after the other, over
  the registry of \<open>App_Shutdown\<close>. Signals may arrive at any moment, and one that arrives when the
  process no longer listens kills it; a call may fail in the ways that are noted with it; a goroutine
  that was started may end the whole process, also in the middle of \<open>Stop\<close>; and \<open>Stop\<close> may be cut short
  by a shutdown function. Every step is a step of the life cycle, or leaves it alone, or ends the process.
\<close>

section \<open>Processes\<close>

text \<open>How a process ends: \<open>main\<close> returns, \<open>os.Exit\<close> of a fatal log line or a signal, or a panic nobody recovers.\<close>

datatype fate = Finished | Killed | Crashed


record process =
  life :: proc
  body :: "main_act list"       \<comment> \<open>what is left before \<open>app.Run\<close>\<close>
  past :: "main_act list"       \<comment> \<open>what has been done\<close>
  registry :: "world App"
  outside :: world
  fate :: "fate option"


text \<open>The deferred \<open>Stop\<close> begins, with its log line.\<close>

definition begin_stop :: "(proc \<Rightarrow> proc) \<Rightarrow> process \<Rightarrow> process" where
  "begin_stop f p = p\<lparr>life := f ((life p)\<lparr>main_at := MStopping\<rparr>),
     registry := (registry p)\<lparr>app_logs := app_logs (registry p) @ [''Stop()'']\<rparr>\<rparr>"



section \<open>Bodies, step by step\<close>



section \<open>How far Stop is\<close>














section \<open>Invariant\<close>






lemma begin_stop_simps [simp]:
  "past (begin_stop f p) = past p" "body (begin_stop f p) = body p" "fate (begin_stop f p) = fate p"
  "life (begin_stop f p) = f ((life p)\<lparr>main_at := MStopping\<rparr>)"
  by (simp_all add: begin_stop_def)





section \<open>Ways out\<close>











section \<open>Properties\<close>




end
