(* ===== verification/Sse.thy ===== *)
theory Sse
  imports Prelude
begin

text \<open>
  Server-sent events: the writer \<open>sendSSE\<close> of \<^verbatim>\<open>cmd/sse_server/main.go\<close> and the reader \<open>StartListen\<close>
  of \<^verbatim>\<open>server/http_client.go\<close>. Text is a list of Unicode code points, since \<open>strings.TrimSpace\<close>
  trims Unicode white space. The HTTP client below is outside the model: what it returns is an
  argument.
\<close>

section \<open>Text\<close>

type_synonym rune = nat
type_synonym rtext = "rune list"

definition lit :: "string \<Rightarrow> rtext" where
  "lit s = map of_char s"

abbreviation newline :: rune where
  "newline \<equiv> 10"

text \<open>\<open>unicode.IsSpace\<close>.\<close>

definition is_space :: "rune \<Rightarrow> bool" where
  "is_space r \<longleftrightarrow> 9 \<le> r \<and> r \<le> 13 \<or> r = 32 \<or> r = 133 \<or> r = 160 \<or> r = 5760 \<or>
     8192 \<le> r \<and> r \<le> 8202 \<or> r = 8232 \<or> r = 8233 \<or> r = 8239 \<or> r = 8287 \<or> r = 12288"

definition TrimSpace :: "rtext \<Rightarrow> rtext" where
  "TrimSpace s = rev (dropWhile is_space (rev (dropWhile is_space s)))"

text \<open>\<open>strings.Split(s, "\n")\<close>: always at least one piece.\<close>

fun split_lines :: "rtext \<Rightarrow> rtext list" where
  "split_lines [] = [[]]"
| "split_lines (r # s) =
     (if r = newline then [] # split_lines s
      else (case split_lines s of [] \<Rightarrow> [[r]] | l # ls \<Rightarrow> (r # l) # ls))"

text \<open>\<open>strings.HasPrefix(line, p)\<close> and, if so, the rest of the line.\<close>

fun strip_prefix :: "rtext \<Rightarrow> rtext \<Rightarrow> rtext option" where
  "strip_prefix [] s = Some s"
| "strip_prefix (p # ps) [] = None"
| "strip_prefix (p # ps) (r # s) = (if p = r then strip_prefix ps s else None)"

section \<open>The writer\<close>

definition sendSSE :: "rtext \<Rightarrow> rtext \<Rightarrow> rtext \<Rightarrow> rtext" where
  "sendSSE event ident data =
     (if event \<noteq> [] then lit ''event: '' @ event @ [newline] else []) @
     (if ident \<noteq> [] then lit ''id: '' @ ident @ [newline] else []) @
     concat (map (\<lambda>line. lit ''data: '' @ line @ [newline]) (split_lines data)) @
     [newline]"

text \<open>The three texts of the handler, in Russian, as code points.\<close>

definition alert_text :: rtext where
  "alert_text = [123, 39, 109, 101, 115, 115, 97, 103, 101, 39, 58, 32, 39, 1055, 1088, 1080, 1074, 1077, 1090,
      44, 32, 1084, 1080, 1088, 33, 39, 125]"

definition news_text :: rtext where
  "news_text = [1055, 1077, 1088, 1074, 1072, 1103, 32, 1089, 1090, 1088, 1086, 1082, 1072, 32, 1042, 1090,
      1086, 1088, 1072, 1103, 32, 1089, 1090, 1088, 1086, 1082, 1072, 32, 1058, 1088, 1077, 1090,
      1100, 1103, 32, 1089, 1090, 1088, 1086, 1082, 1072]"

definition plain_text :: rtext where
  "plain_text = [1057, 1086, 1073, 1099, 1090, 1080, 1077, 32, 1073, 1077, 1079, 32, 1080, 1084, 1077, 1085,
      1080, 32, 40, 111, 110, 109, 101, 115, 115, 97, 103, 101, 41]"

text \<open>The handler: the headers it sets, and the events it writes, or the \<open>http.Error\<close> when the
  writer cannot stream.\<close>

definition sseHandler :: "bool \<Rightarrow> (string \<times> rtext) list \<times> ((int \<times> string) + rtext)" where
  "sseHandler is_flusher =
     ([(''Content-Type'', lit ''text/event-stream''), (''Cache-Control'', lit ''no-cache''),
       (''Connection'', lit ''keep-alive'')],
      if \<not> is_flusher then Inl (500, ''Streaming unsupported!'')
      else Inr (
        sendSSE (lit ''alert'') (lit ''1'') alert_text @
        sendSSE (lit ''news'') (lit ''2'') news_text @
        sendSSE [] (lit ''3'') plain_text))"

section \<open>The reader\<close>

text \<open>\<open>ReadString('\n')\<close>: a line with its delimiter and the rest, or end of input.\<close>

fun read_line :: "rtext \<Rightarrow> (rtext \<times> rtext) option" where
  "read_line [] = None"
| "read_line (r # s) =
     (if r = newline then Some ([r], s)
      else (case read_line s of None \<Rightarrow> None | Some (l, rest) \<Rightarrow> Some (r # l, rest)))"

lemma read_line_shorter [termination_simp]: "read_line s = Some (l, rest) \<Longrightarrow> length rest < length s"
  by (induction s arbitrary: l) (auto split: if_splits option.splits intro: less_SucI)

datatype listen_end =
    CreateError string      \<comment> \<open>failed to create request\<close>
  | DoError string          \<comment> \<open>failed to do request\<close>
  | BadContentType rtext    \<comment> \<open>unexpected Content-Type\<close>
  | CtxDone | ServerClosed | ReadError

text \<open>
  The loop over a body: \<open>cancel\<close> says before which round the context is done, \<open>broken\<close> whether
  the connection breaks at the end of the body rather than closing. The result is what
  \<open>onData\<close> was called with, and how the loop ended.
\<close>

fun listen_loop :: "nat option \<Rightarrow> bool \<Rightarrow> rtext \<Rightarrow> rtext list \<times> listen_end" where
  "listen_loop cancel broken s =
     (if cancel = Some 0 then ([], CtxDone)
      else (case read_line s of
          None \<Rightarrow> ([], if broken then ReadError else ServerClosed)
        | Some (l, rest) \<Rightarrow>
            (let (ms, e) = listen_loop (map_option (\<lambda>n. n - 1) cancel) broken rest
             in (case strip_prefix (lit ''data:'') (TrimSpace l) of
                   None \<Rightarrow> (ms, e)
                 | Some msg \<Rightarrow> (TrimSpace msg # ms, e)))))"

declare listen_loop.simps [simp del]

text \<open>
  \<open>create\<close> is the error of building the request, \<open>resp\<close> what \<open>Do\<close> returned: an error, or a content
  type and a body. The result: the calls of \<open>onData\<close>, how often the body was closed, and how the
  method ended.
\<close>

definition StartListen ::
  "string option \<Rightarrow> (string + rtext \<times> rtext) \<Rightarrow> nat option \<Rightarrow> bool \<Rightarrow> rtext list \<times> nat \<times> listen_end" where
  "StartListen create resp cancel broken = (case create of
       Some e \<Rightarrow> ([], 0, CreateError e)
     | None \<Rightarrow> (case resp of
           Inl e \<Rightarrow> ([], 0, DoError e)
         | Inr (contentType, resp_body) \<Rightarrow>
             if strip_prefix (lit ''text/event-stream'') contentType = None
             then ([], 1, BadContentType contentType)
             else (let (ms, e) = listen_loop cancel broken resp_body in (ms, 1, e))))"

text \<open>
  \<open>listen\<close> of \<^verbatim>\<open>cmd/sse_client/main.go\<close>: what it logs. The end of the stream is no error.
\<close>

datatype listen_log = GotMessage rtext | ClosedByServer | ListenError listen_end | ListenStopped

definition listen :: "rtext list \<times> nat \<times> listen_end \<Rightarrow> listen_log list" where
  "listen = (\<lambda>(ms, closed, e). map GotMessage ms @
     (if e = ServerClosed then [ClosedByServer] else [ListenError e]) @ [ListenStopped])"

section \<open>Lemmas\<close>

lemma lit_simps [simp]: "lit [] = []" "lit (c # s) = of_char c # lit s"
  by (simp_all add: lit_def)

lemma read_line_prefix: "newline \<notin> set l \<Longrightarrow> read_line (l @ newline # s) = Some (l @ [newline], s)"
  by (induction l) auto

lemma TrimSpace_append_newline: "TrimSpace (s @ [newline]) = TrimSpace s"
  by (induction s) (auto simp: TrimSpace_def is_space_def dropWhile_append)

lemma split_lines_no_newline: "l \<in> set (split_lines s) \<Longrightarrow> newline \<notin> set l"
  by (induction s arbitrary: l rule: split_lines.induct) (fastforce split: if_splits list.splits)+

fun join_lines :: "rtext list \<Rightarrow> rtext" where
  "join_lines [] = []"
| "join_lines [l] = l"
| "join_lines (l # ls) = l @ newline # join_lines ls"

lemma split_lines_nonempty: "split_lines s \<noteq> []"
  by (induction s) (auto split: list.splits)

lemma join_split: "join_lines (split_lines s) = s"
proof (induction s)
  case (Cons r s)
  then show ?case using split_lines_nonempty [of s]
    by (cases "split_lines s"; cases "tl (split_lines s)") auto
qed simp

abbreviation rtrim :: "rtext \<Rightarrow> rtext" where
  "rtrim s \<equiv> rev (dropWhile is_space (rev s))"

lemma rtrim_Cons: "rtrim (a # s) = (if rtrim s = [] \<and> is_space a then [] else a # rtrim s)"
  by (auto simp: dropWhile_append dropWhile_eq_Nil_conv)

lemma rtrim_append: "\<not> is_space (last xs) \<Longrightarrow> xs \<noteq> [] \<Longrightarrow> rtrim (xs @ ys) = xs @ rtrim ys"
proof (induction xs)
  case (Cons a xs)
  then show ?case by (cases "xs = []") (auto simp: rtrim_Cons simp del: rev.simps rev_append)
qed simp

lemma rtrim_idem: "rtrim (rtrim s) = rtrim s"
  by (simp add: dropWhile_idem)

lemma trim_commute: "dropWhile is_space (rtrim s) = rtrim (dropWhile is_space s)"
proof (induction s)
  case (Cons a s)
  then show ?case
    by (auto simp: rtrim_Cons simp del: rev.simps dest: set_dropWhileD)
qed simp

lemma TrimSpace_rtrim: "TrimSpace (rtrim s) = TrimSpace s"
  by (simp add: TrimSpace_def trim_commute dropWhile_idem)

lemma TrimSpace_space: "TrimSpace (32 # s) = TrimSpace s"
  by (simp add: TrimSpace_def is_space_def)

text \<open>What the reader makes of the three kinds of lines.\<close>

lemma data_line: "strip_prefix (lit ''data:'') (TrimSpace (lit ''data: '' @ l @ [newline])) = Some (rtrim (32 # l))"
proof -
  have "TrimSpace (lit ''data: '' @ l @ [newline]) = TrimSpace (lit ''data:'' @ 32 # l)"
    using TrimSpace_append_newline [of "lit ''data: '' @ l"] by simp
  also have "\<dots> = rtrim (lit ''data:'' @ 32 # l)" by (simp add: TrimSpace_def is_space_def)
  also have "\<dots> = lit ''data:'' @ rtrim (32 # l)" by (rule rtrim_append) (simp_all add: is_space_def)
  finally show ?thesis by simp
qed

lemma other_line:
  assumes "p # ps \<noteq> []" "\<not> is_space p" "p \<noteq> 100"
  shows "strip_prefix (lit ''data:'') (TrimSpace ((p # ps) @ s)) = None"
proof -
  have "TrimSpace ((p # ps) @ s) = p # rtrim (ps @ s)"
    using assms by (simp add: TrimSpace_def rtrim_Cons del: rev.simps)
  then show ?thesis using assms by simp
qed

lemma listen_line:
  "newline \<notin> set l \<Longrightarrow> listen_loop None b (l @ newline # s) =
     (let (ms, e) = listen_loop None b s in
      case strip_prefix (lit ''data:'') (TrimSpace (l @ [newline])) of
        None \<Rightarrow> (ms, e) | Some msg \<Rightarrow> (TrimSpace msg # ms, e))"
  by (simp add: listen_loop.simps [of None b "l @ newline # s"] read_line_prefix)

lemma listen_data_lines:
  "\<forall>l \<in> set ls. newline \<notin> set l \<Longrightarrow>
   listen_loop None b (concat (map (\<lambda>l. lit ''data: '' @ l @ [newline]) ls) @ s) =
     (map TrimSpace ls @ fst (listen_loop None b s), snd (listen_loop None b s))"
proof (induction ls)
  case (Cons l ls)
  have "newline \<notin> set (lit ''data: '' @ l)" using Cons.prems by simp
  from listen_line [OF this, of b] Cons.IH Cons.prems data_line [of l] show ?case
    by (simp add: split_beta TrimSpace_rtrim TrimSpace_space del: rev.simps)
qed simp

lemma listen_blank: "listen_loop None b (newline # s) = listen_loop None b s"
  using listen_line [of "[]" b s] by (simp add: TrimSpace_def is_space_def split_beta)

lemma listen_field:
  assumes "newline \<notin> set (p # ps @ v)" "\<not> is_space p" "p \<noteq> 100"
  shows "listen_loop None b (p # ps @ v @ newline # s) = listen_loop None b s"
  using listen_line [OF assms(1), of b s] other_line [of p ps "v @ [newline]"] assms
  by (simp add: split_beta)

lemma listen_event:
  assumes "newline \<notin> set event" "newline \<notin> set ident"
  shows "listen_loop None b (sendSSE event ident data @ s) =
    (map TrimSpace (split_lines data) @ fst (listen_loop None b s), snd (listen_loop None b s))"
proof -
  let ?rest = "concat (map (\<lambda>l. lit ''data: '' @ l @ [newline]) (split_lines data)) @ newline # s"
  have data: "listen_loop None b ?rest =
      (map TrimSpace (split_lines data) @ fst (listen_loop None b s), snd (listen_loop None b s))"
    using listen_data_lines [of "split_lines data" b "newline # s"] split_lines_no_newline
    by (auto simp: listen_blank)
  have "listen_loop None b ((if ident \<noteq> [] then lit ''id: '' @ ident @ [newline] else []) @ ?rest) =
      listen_loop None b ?rest"
    using listen_field [of 105 "lit ''d: ''" ident b ?rest] assms(2) by (simp add: is_space_def)
  then have "listen_loop None b ((if event \<noteq> [] then lit ''event: '' @ event @ [newline] else []) @
      (if ident \<noteq> [] then lit ''id: '' @ ident @ [newline] else []) @ ?rest) = listen_loop None b ?rest"
    using assms(1) listen_field [of 101 "lit ''vent: ''" event b
        "(if ident \<noteq> [] then lit ''id: '' @ ident @ [newline] else []) @ ?rest"]
    by (simp add: is_space_def)
  with data show ?thesis by (simp add: sendSSE_def)
qed

lemma listen_events:
  "\<forall>(event, ident, data) \<in> set evs. newline \<notin> set event \<and> newline \<notin> set ident \<Longrightarrow>
   listen_loop None b (concat (map (\<lambda>(event, ident, data). sendSSE event ident data) evs)) =
     (concat (map (\<lambda>(_, _, data). map TrimSpace (split_lines data)) evs),
      if b then ReadError else ServerClosed)"
proof (induction evs)
  case Nil
  then show ?case by (simp add: listen_loop.simps)
next
  case (Cons ev evs)
  then show ?case by (cases ev) (simp add: listen_event)
qed

lemma strip_prefix_append [simp]: "strip_prefix p (p @ s) = Some s"
  by (induction p) auto

text \<open>
  C29: whatever events the server writes (their names and ids without line breaks), the
  client that reads the stream to its end calls \<open>onData\<close> with exactly the lines of their data,
  in order and trimmed, and never with a name or an id; joining the lines of one event gives
  its data back when no line has outer white space. Whatever happens, a body that was opened
  is closed once.
\<close>

theorem sse_round_trip:
  assumes "\<forall>(event, ident, data) \<in> set evs. newline \<notin> set event \<and> newline \<notin> set ident"
  shows "StartListen None (Inr (lit ''text/event-stream'' @ params,
      concat (map (\<lambda>(event, ident, data). sendSSE event ident data) evs))) None broken =
      (concat (map (\<lambda>(_, _, data). map TrimSpace (split_lines data)) evs), 1,
       if broken then ReadError else ServerClosed) \<and>
    (\<forall>create resp cancel brk. fst (snd (StartListen create resp cancel brk)) =
       (if create = None \<and> \<not> isl resp then 1 else 0)) \<and>
    (\<forall>data. (\<forall>l \<in> set (split_lines data). TrimSpace l = l) \<longrightarrow>
       join_lines (map TrimSpace (split_lines data)) = data)"
proof -
  have "join_lines (map TrimSpace (split_lines data)) = data"
    if "\<forall>l \<in> set (split_lines data). TrimSpace l = l" for data
    using that join_split [of data] map_idI [of "split_lines data" TrimSpace] by simp
  moreover have "fst (snd (StartListen create resp cancel brk)) = (if create = None \<and> \<not> isl resp then 1 else 0)"
    for create resp cancel brk
    by (auto simp: StartListen_def split_beta split: option.split sum.split simp del: lit_simps)
  ultimately show ?thesis
    using listen_events [OF assms, of broken] by (simp add: StartListen_def del: lit_simps)
qed

text \<open>\<open>listen\<close> logs every line of the events, in order, and then either the close or one error.\<close>

lemma listen_logs_events:
  assumes "\<forall>(event, ident, data) \<in> set evs. newline \<notin> set event \<and> newline \<notin> set ident"
  shows "listen (StartListen None (Inr (lit ''text/event-stream'' @ params,
      concat (map (\<lambda>(event, ident, data). sendSSE event ident data) evs))) None broken) =
    map GotMessage (concat (map (\<lambda>(_, _, data). map TrimSpace (split_lines data)) evs)) @
      [if broken then ListenError ReadError else ClosedByServer, ListenStopped]"
  using listen_events [OF assms, of broken] by (simp add: listen_def StartListen_def del: lit_simps)

theorem sse_round_trip_witness:
  "\<exists>ct bdy hs. sseHandler True = ((''Content-Type'', ct) # hs, Inr bdy) \<and>
     StartListen None (Inr (ct, bdy)) None False = ([alert_text, news_text, plain_text], 1, ServerClosed)"
proof -
  have trim: "TrimSpace alert_text = alert_text" "TrimSpace news_text = news_text" "TrimSpace plain_text = plain_text"
    by (simp_all add: alert_text_def news_text_def plain_text_def TrimSpace_def is_space_def)
  have split: "split_lines alert_text = [alert_text]" "split_lines news_text = [news_text]"
    "split_lines plain_text = [plain_text]"
    by (simp_all add: alert_text_def news_text_def plain_text_def)
  have "\<forall>(event, ident, data) \<in> set [(lit ''alert'', lit ''1'', alert_text), (lit ''news'', lit ''2'', news_text),
      ([], lit ''3'', plain_text)]. newline \<notin> set event \<and> newline \<notin> set ident"
    by simp
  from sse_round_trip [OF this, of "[]" False] trim split show ?thesis
    by (simp add: sseHandler_def del: lit_simps)
qed

end
