(* ===== verification/Utf8.thy ===== *)
theory Utf8
  imports Prelude
begin

text \<open>
  UTF-8, as Go's strings use it: text is a list of Unicode scalars, its encoding a list of bytes.
  Shared by the gRPC replies and the event stream.
\<close>

section \<open>Bytes and scalars\<close>

type_synonym bytes = "nat list"

definition ascii :: "string \<Rightarrow> bytes" where
  "ascii s = map of_char s"

definition is_scalar :: "nat \<Rightarrow> bool" where
  "is_scalar r \<longleftrightarrow> r < 55296 \<or> 57344 \<le> r \<and> r < 1114112"

text \<open>The code of one scalar.\<close>

definition encode_scalar :: "nat \<Rightarrow> bytes" where
  "encode_scalar r =
     (if r < 128 then [r]
      else if r < 2048 then [192 + r div 64, 128 + r mod 64]
      else if r < 65536 then [224 + r div 4096, 128 + r div 64 mod 64, 128 + r mod 64]
      else [240 + r div 262144, 128 + r div 4096 mod 64, 128 + r div 64 mod 64, 128 + r mod 64])"

text \<open>Strict decoding; a protocol buffer string field must decode.\<close>

definition cont :: "nat \<Rightarrow> bool" where
  "cont b \<longleftrightarrow> 128 \<le> b \<and> b < 192"

fun decode_utf8 :: "bytes \<Rightarrow> nat list option" where
  "decode_utf8 [] = Some []"
| "decode_utf8 (b # bs) =
     (if b < 128 then map_option ((#) b) (decode_utf8 bs)
      else case bs of
        [] \<Rightarrow> None
      | c1 # bs1 \<Rightarrow>
         if \<not> cont c1 then None
         else if b < 192 then None
         else if b < 224 then
           (let r = (b - 192) * 64 + (c1 - 128) in
            if r < 128 then None else map_option ((#) r) (decode_utf8 bs1))
         else case bs1 of
           [] \<Rightarrow> None
         | c2 # bs2 \<Rightarrow>
            if \<not> cont c2 then None
            else if b < 240 then
              (let r = (b - 224) * 4096 + (c1 - 128) * 64 + (c2 - 128) in
               if r < 2048 \<or> \<not> is_scalar r then None else map_option ((#) r) (decode_utf8 bs2))
            else case bs2 of
              [] \<Rightarrow> None
            | c3 # bs3 \<Rightarrow>
               if \<not> cont c3 then None
               else (let r = (b - 240) * 262144 + (c1 - 128) * 4096 + (c2 - 128) * 64 + (c3 - 128) in
                 if r < 65536 \<or> \<not> is_scalar r then None else map_option ((#) r) (decode_utf8 bs3)))"

section \<open>Lemmas\<close>

lemma digits64: "r = r div 64 * 64 + r mod 64" for r :: nat
  by simp

lemma div64: "r div 4096 = r div 64 div 64" "r div 262144 = r div 64 div 64 div 64" for r :: nat
  by (simp_all add: div_mult2_eq [symmetric])

lemma decode_encode: "is_scalar r \<Longrightarrow> decode_utf8 (encode_scalar r @ bs) = map_option ((#) r) (decode_utf8 bs)"
proof -
  assume r: "is_scalar r"
  have [simp]: "cont (128 + m mod 64)" "cont (128 + r mod 64)" for m by (simp_all add: cont_def)
  consider "r < 128" | "128 \<le> r" "r < 2048" | "2048 \<le> r" "r < 65536" | "65536 \<le> r" "r < 1114112"
    using r by (fastforce simp: is_scalar_def)
  then show ?thesis
  proof cases
    case 2
    then have "r div 64 < 32" by linarith
    then show ?thesis using 2 by (simp add: encode_scalar_def Let_def \<open>r div 64 < 32\<close>)
  next
    case 3
    then have d: "r div 4096 < 16" by linarith
    have "r div 4096 * 4096 + r div 64 mod 64 * 64 + r mod 64 = r"
      using digits64 [of r] digits64 [of "r div 64"] unfolding div64 by linarith
    then show ?thesis using 3 r by (simp add: encode_scalar_def Let_def d)
  next
    case 4
    then have d: "r div 262144 < 8" by linarith
    have "r div 262144 * 262144 + r div 4096 mod 64 * 4096 + r div 64 mod 64 * 64 + r mod 64 = r"
      using digits64 [of r] digits64 [of "r div 64"] digits64 [of "r div 64 div 64"] unfolding div64 by linarith
    then show ?thesis using 4 r by (simp add: encode_scalar_def Let_def d)
  qed (simp add: encode_scalar_def)
qed

lemma decode_ascii: "list_all (\<lambda>c. of_char c < (128 :: nat)) s \<Longrightarrow>
    decode_utf8 (ascii s @ bs) = map_option ((@) (ascii s)) (decode_utf8 bs)"
  by (induction s) (auto simp: ascii_def option.map_comp comp_def map_option_case split: option.splits)

lemma decode_scalars: "list_all is_scalar rs \<Longrightarrow> decode_utf8 (concat (map encode_scalar rs)) = Some rs"
  by (induction rs) (simp_all add: decode_encode)

lemma encode_scalar_bytes: "is_scalar r \<Longrightarrow> b \<in> set (encode_scalar r) \<Longrightarrow> b < 256"
  by (auto simp: encode_scalar_def is_scalar_def split: if_splits)

end
