(* ===== verification/Page_Servers.thy ===== *)
theory Page_Servers
  imports Sse Utf8 Http_Handlers
begin

text \<open>
  The routes of the event-stream server (\<^verbatim>\<open>cmd/sse_server/main.go\<close>) and of the WebSocket server
  (\<^verbatim>\<open>cmd/websocket_server/main.go\<close>), each a prefix for its protocol and a page for everything else, and
  the way of the event stream: from \<open>sseHandler\<close> through the middlewares to the connection, in UTF-8,
  and into the client's \<open>StartListen\<close>. \<open>http.ServeFile\<close> is a handler given as an argument.
\<close>

section \<open>Text on the wire\<close>

definition utf8 :: "rtext \<Rightarrow> string" where
  "utf8 s = map char_of (concat (map encode_scalar s))"

definition text_of :: "string \<Rightarrow> rtext option" where
  "text_of s = decode_utf8 (map of_char s)"

section \<open>The handlers on a response writer\<close>

text \<open>\<open>http.Error\<close>.\<close>

definition http_Error :: "string \<Rightarrow> int \<Rightarrow> wcall list" where
  "http_Error msg code =
     [SetHeader ''Content-Type'' ''text/plain; charset=utf-8'', SetHeader ''X-Content-Type-Options'' ''nosniff'',
      WriteHeader code, Write (msg @ [CHR 0x0A])]"

definition sse_calls :: "bool \<Rightarrow> script_run" where
  "sse_calls is_flusher = (case sseHandler is_flusher of (hs, answer) \<Rightarrow>
     ([], map (\<lambda>(k, v). SetHeader k (utf8 v)) hs @
       (case answer of Inl (code, msg) \<Rightarrow> http_Error msg code | Inr stream \<Rightarrow> [Write (utf8 stream)]), False))"

text \<open>The type assertion looks at the writer it is given.\<close>

definition sse_route :: "conn_can \<Rightarrow> handler" where
  "sse_route k r w = script (\<lambda>_. sse_calls (is_Flusher k w)) r w"

section \<open>The routes\<close>

definition sse_handlerList :: "conn_can \<Rightarrow> handler \<Rightarrow> HTTPServer \<Rightarrow> HTTPServer" where
  "sse_handlerList k clientFrontend simple = simple\<lparr>Router := Router simple @
     [\<lparr>rt_pattern = PathPrefix ''/events'', rt_methods = [], rt_handler = sse_route k\<rparr>,
      \<lparr>rt_pattern = PathPrefix ''/'', rt_methods = [], rt_handler = clientFrontend\<rparr>]\<rparr>"

definition ws_handlerList :: "handler \<Rightarrow> handler \<Rightarrow> HTTPServer \<Rightarrow> HTTPServer" where
  "ws_handlerList ws page simple = simple\<lparr>Router := Router simple @
     [\<lparr>rt_pattern = PathPrefix ''/ws'', rt_methods = [], rt_handler = ws\<rparr>,
      \<lparr>rt_pattern = PathPrefix ''/'', rt_methods = [], rt_handler = page\<rparr>]\<rparr>"

definition page_service :: "router \<Rightarrow> (HTTPServer \<Rightarrow> HTTPServer) \<Rightarrow> string \<Rightarrow> string list \<Rightarrow> string \<Rightarrow> handler" where
  "page_service mux fn port logger cid = snd (CreateHttpServer mux None fn port (service_middlewares logger cid))"

section \<open>Lemmas\<close>

lemma text_utf8: "list_all is_scalar s \<Longrightarrow> text_of (utf8 s) = Some s"
proof -
  assume s: "list_all is_scalar s"
  have "(of_char (char_of b :: char) :: nat) = b" if "b \<in> set (concat (map encode_scalar s))" for b
    using that s by (auto simp: list_all_iff dest!: encode_scalar_bytes)
  then have "map (of_char \<circ> char_of) (concat (map encode_scalar s)) = concat (map encode_scalar s)"
    by (intro map_idI) simp
  then show ?thesis using decode_scalars [OF s] by (simp add: text_of_def utf8_def)
qed

lemma page_service_mux:
  "page_service mux fn port logger cid = mux (service_middlewares logger cid) (Router (fn (newSimpleHTTPServer port)))"
  by (simp add: page_service_def CreateHttpServer_def RunHTTPServer_def ToConfigureHandlers_def Let_def)

text \<open>Under a logging writer the assertion for a flusher always succeeds.\<close>

lemma sse_route_wrapped: "sse_route k r (Lrw s w) = script (\<lambda>_. sse_calls True) r (Lrw s w)"
  by (simp add: sse_route_def)

definition sse_stream :: rtext where
  "sse_stream = concat (map (\<lambda>(event, ident, data). sendSSE event ident data)
     [(lit ''alert'', lit ''1'', alert_text), (lit ''news'', lit ''2'', news_text), ([], lit ''3'', plain_text)])"

lemma lit_scalars: "list_all is_scalar (lit s)"
proof -
  have "of_char c < (55296 :: nat)" for c :: char by (rule less_trans [OF nat_of_char_less_256]) simp
  then have "is_scalar (of_char c)" for c :: char by (simp add: is_scalar_def)
  then show ?thesis by (simp add: lit_def list_all_iff)
qed

lemma sendSSE_scalars:
  assumes "list_all is_scalar event" "list_all is_scalar ident" "list_all (list_all is_scalar) (split_lines data)"
  shows "list_all is_scalar (sendSSE event ident data)"
proof -
  have "is_scalar newline" by (simp add: is_scalar_def)
  with assms show ?thesis
    unfolding sendSSE_def using lit_scalars [of "''event: ''"] lit_scalars [of "''id: ''"] lit_scalars [of "''data: ''"]
    by (auto simp: list_all_iff simp del: lit_simps)
qed

lemma sse_texts:
  "TrimSpace alert_text = alert_text" "TrimSpace news_text = news_text" "TrimSpace plain_text = plain_text"
  "split_lines alert_text = [alert_text]" "split_lines news_text = [news_text]" "split_lines plain_text = [plain_text]"
  "list_all is_scalar alert_text" "list_all is_scalar news_text" "list_all is_scalar plain_text"
  by (simp_all add: alert_text_def news_text_def plain_text_def TrimSpace_def is_space_def is_scalar_def)

lemma sse_stream_scalars: "list_all is_scalar sse_stream"
  unfolding sse_stream_def by (simp add: sendSSE_scalars lit_scalars sse_texts del: lit_simps)

lemma sse_calls_True:
  "sse_calls True = ([], [SetHeader ''Content-Type'' ''text/event-stream'', SetHeader ''Cache-Control'' ''no-cache'',
     SetHeader ''Connection'' ''keep-alive'', Write (utf8 sse_stream)], False)"
proof -
  have "utf8 (lit ''text/event-stream'') = ''text/event-stream''" "utf8 (lit ''no-cache'') = ''no-cache''"
    "utf8 (lit ''keep-alive'') = ''keep-alive''"
    by code_simp+
  then show ?thesis by (simp add: sse_calls_def sseHandler_def sse_stream_def del: lit_simps)
qed

lemma sse_stream_heard:
  "listen_loop None False sse_stream = ([alert_text, news_text, plain_text], ServerClosed)"
  using listen_events [of "[(lit ''alert'', lit ''1'', alert_text), (lit ''news'', lit ''2'', news_text),
      ([], lit ''3'', plain_text)]" False]
  by (simp add: sse_stream_def sse_texts del: lit_simps) (simp add: lit_def)

section \<open>Properties\<close>

text \<open>
  C28: the event stream from end to end: a request whose path begins with \<^verbatim>\<open>/events\<close>, whatever its
  method and whether or not the connection can flush, is answered 200 with the event-stream content
  type, and the bytes on the wire decode to text from which the client hears exactly the three
  messages of the handler, in order, and then the end; every other path is served by the page.
\<close>

theorem sse_stream_arrives:
  assumes "mux_laws mux" "clean_path (r_Path r)"
  shows "if take 7 (r_Path r) = ''/events''
    then \<exists>c stream. page_service mux (sse_handlerList k page) port logger cid r (Conn new_conn) =
        (Conn c, [Completed (r_Method r) (r_RequestURI r) 200 cid], False) \<and> sent c = Some 200 \<and>
      (''Content-Type'', ''text/event-stream'') \<in> set (headers c) \<and> text_of (out c) = Some stream \<and>
      StartListen None (Inr (lit ''text/event-stream'', stream)) None False =
        ([alert_text, news_text, plain_text], 1, ServerClosed)
    else page_service mux (sse_handlerList k page) port logger cid r w =
      foldr (\<lambda>m h. m h) (service_middlewares logger cid) page r w"
proof (cases "take 7 (r_Path r) = ''/events''")
  case True
  define c where "c = \<lparr>sent = Some 200, headers = [(''X-Correlation-ID'', cid), (''Content-Type'', ''text/event-stream''),
    (''Cache-Control'', ''no-cache''), (''Connection'', ''keep-alive'')], out = utf8 sse_stream\<rparr>"
  have route: "route_for (Router (sse_handlerList k page (newSimpleHTTPServer port))) r = Some (sse_route k)"
    using True by (simp add: sse_handlerList_def newSimpleHTTPServer_def method_matches_def numeral_eq_Suc)
  have "do_calls [SetHeader ''Content-Type'' ''text/event-stream'', SetHeader ''Cache-Control'' ''no-cache'',
      SetHeader ''Connection'' ''keep-alive'', Write (utf8 sse_stream)]
      (Conn (new_conn\<lparr>headers := [(''X-Correlation-ID'', cid)]\<rparr>)) = Conn c"
    by (simp add: c_def new_conn_def)
  from service_chain_calls [OF assms route sse_route_wrapped sse_calls_True this, of logger]
  have "page_service mux (sse_handlerList k page) port logger cid r (Conn new_conn) =
      (Conn c, [Completed (r_Method r) (r_RequestURI r) 200 cid], False)"
    by (simp add: page_service_mux)
  moreover have "text_of (out c) = Some sse_stream" using text_utf8 [OF sse_stream_scalars] by (simp add: c_def)
  moreover have "StartListen None (Inr (lit ''text/event-stream'', sse_stream)) None False =
      ([alert_text, news_text, plain_text], 1, ServerClosed)"
    using strip_prefix_append [of "lit ''text/event-stream''" "[]"]
    by (simp add: StartListen_def sse_stream_heard del: lit_simps strip_prefix_append)
  moreover have "sent c = Some 200" "(''Content-Type'', ''text/event-stream'') \<in> set (headers c)" by (simp_all add: c_def)
  ultimately show ?thesis unfolding if_P [OF True] by (intro exI conjI)
next
  case False
  have "take 1 (r_Path r) = ''/''" using assms(2) by (cases "r_Path r") simp_all
  with False have "route_for (Router (sse_handlerList k page (newSimpleHTTPServer port))) r = Some page"
    by (simp add: sse_handlerList_def newSimpleHTTPServer_def method_matches_def numeral_eq_Suc)
  from mux_matched [OF assms this] False show ?thesis by (simp add: page_service_mux)
qed

text \<open>The WebSocket server: its handler for every path that begins with \<^verbatim>\<open>/ws\<close>, else the page.\<close>

lemma ws_routes:
  assumes "mux_laws mux" "clean_path (r_Path r)"
  shows "page_service mux (ws_handlerList ws page) port logger cid r w =
    foldr (\<lambda>m h. m h) (service_middlewares logger cid) (if take 3 (r_Path r) = ''/ws'' then ws else page) r w"
proof -
  have "take 1 (r_Path r) = ''/''" using assms(2) by (cases "r_Path r") simp_all
  then have "route_for (Router (ws_handlerList ws page (newSimpleHTTPServer port))) r =
      Some (if take 3 (r_Path r) = ''/ws'' then ws else page)"
    by (simp add: ws_handlerList_def newSimpleHTTPServer_def method_matches_def numeral_eq_Suc)
  from mux_matched [OF assms this] show ?thesis by (simp add: page_service_mux)
qed

definition events_request :: request where
  "events_request = \<lparr>r_Method = ''GET'', r_RequestURI = ''/events'', r_Path = ''/events'', r_Body = Inr [],
     r_CtxErr = None, r_logger = None, r_correlation = None\<rparr>"

theorem sse_stream_arrives_witness:
  "\<exists>c stream. page_service plain_mux (sse_handlerList \<lparr>can_flush = False, can_hijack = False\<rparr> file_server) '':8081''
       [''app''] ''cid'' events_request (Conn new_conn) =
       (Conn c, [Completed ''GET'' ''/events'' 200 ''cid''], False) \<and> text_of (out c) = Some stream \<and>
     StartListen None (Inr (lit ''text/event-stream'', stream)) None False =
       ([alert_text, news_text, plain_text], 1, ServerClosed)"
proof -
  have e: "clean_path (r_Path events_request)" "take 7 (r_Path events_request) = ''/events''"
    "r_Method events_request = ''GET''" "r_RequestURI events_request = ''/events''"
    by (simp_all add: events_request_def)
  show ?thesis
    using sse_stream_arrives [OF plain_mux_laws e(1), of "\<lparr>can_flush = False, can_hijack = False\<rparr>" file_server
        "'':8081''" "[''app'']" "''cid''"]
    unfolding e(2-4) if_P [OF refl] by blast
qed

end
