(* ===== verification/Migrations.thy ===== *)
theory Migrations
  imports Prelude
begin

text \<open>
  The RabbitMQ migrations: \<^verbatim>\<open>pkg/migrations_custom.go\<close>, \<^verbatim>\<open>pkg/migrations_rabbit_mq.go\<close> and the
  migration \<^verbatim>\<open>rabbit_migrations/202412170001_create_rabbit_queue.go\<close>. The database is the table
  \<open>rabbit_migrations\<close> (version to description), each node of the cluster has its queues,
  exchanges and bindings. What the database, the nodes and the Redis lock answer is the
  argument \<open>env\<close>: an error text, or \<open>None\<close> for success. \<open>logger.Fatal\<close> ends the process; it is
  the \<open>Inl\<close> result, with the state the process leaves behind.
\<close>

section \<open>Nodes and the migration\<close>

record broker =
  queues :: "string set"
  exchanges :: "string \<rightharpoonup> string"
  bindings :: "(string \<times> string \<times> string) set"   \<comment> \<open>queue, key, exchange\<close>

definition empty_broker :: broker where
  "empty_broker = \<lparr>queues = {}, exchanges = Map.empty, bindings = {}\<rparr>"

datatype amqp_call =
    QueueDeclare string
  | ExchangeDeclare string string
  | QueueBind string string string

fun do_amqp :: "amqp_call \<Rightarrow> broker \<Rightarrow> broker" where
  "do_amqp (QueueDeclare q) b = b\<lparr>queues := insert q (queues b)\<rparr>"
| "do_amqp (ExchangeDeclare x kind) b = b\<lparr>exchanges := (exchanges b)(x \<mapsto> kind)\<rparr>"
| "do_amqp (QueueBind q k x) b = b\<lparr>bindings := insert (q, k, x) (bindings b)\<rparr>"

text \<open>Calls one after the other; the first error stops the sequence.\<close>

fun run_calls :: "(nat \<Rightarrow> string option) \<Rightarrow> nat \<Rightarrow> amqp_call list \<Rightarrow> broker \<Rightarrow> broker \<times> string option" where
  "run_calls err i [] b = (b, None)"
| "run_calls err i (c # cs) b =
     (case err i of Some e \<Rightarrow> (b, Some e) | None \<Rightarrow> run_calls err (Suc i) cs (do_amqp c b))"

definition RabbitMqVersion202412170001 :: int where
  "RabbitMqVersion202412170001 = 202412170001"

definition up_calls :: "amqp_call list" where
  "up_calls =
     [QueueDeclare ''my_queue'',
      ExchangeDeclare ''my_events'' ''direct'',
      QueueBind ''my_queue'' ''my_queue'' ''my_events'',
      QueueDeclare ''test_queue'',
      ExchangeDeclare ''events'' ''direct'',
      QueueBind ''test_queue'' ''test_queue'' ''events'']"

definition Up202412170001 :: "(nat \<Rightarrow> string option) \<Rightarrow> broker \<Rightarrow> broker \<times> string \<times> string option" where
  "Up202412170001 err b = (case run_calls err 0 up_calls b of
       (b', None) \<Rightarrow> (b', ''Create RabbitMQ queue'', None)
     | (b', Some e) \<Rightarrow> (b', [], Some e))"

section \<open>Applying migrations\<close>

record mig_env =
  obtain_err :: "string option"           \<comment> \<open>the Redis lock, refused or failed\<close>
  dial_err :: "nat \<Rightarrow> string option"
  exists_err :: "string option"
  channel_err :: "nat \<Rightarrow> string option"
  call_err :: "nat \<Rightarrow> nat \<Rightarrow> string option"
  set_err :: "string option"

record mig_state =
  applied :: "int \<rightharpoonup> string"
  nodes :: "nat \<Rightarrow> broker"
  open_conns :: int
  lock_held :: bool

text \<open>\<open>INSERT ... ON CONFLICT (version_id) DO NOTHING\<close>; the caller only logs the error.\<close>

definition mig_set :: "string option \<Rightarrow> int \<Rightarrow> string \<Rightarrow> mig_state \<Rightarrow> mig_state" where
  "mig_set err version description m =
     (if err \<noteq> None \<or> applied m version \<noteq> None then m
      else m\<lparr>applied := (applied m)(version \<mapsto> description)\<rparr>)"

text \<open>An error of the query counts as "does not exist".\<close>

definition mig_exists :: "string option \<Rightarrow> int \<Rightarrow> mig_state \<Rightarrow> bool" where
  "mig_exists err version m \<longleftrightarrow> err = None \<and> applied m version \<noteq> None"

text \<open>The loop over the connections; \<open>description\<close> is overwritten in every round.\<close>

fun apply_loop ::
  "((nat \<Rightarrow> string option) \<Rightarrow> broker \<Rightarrow> broker \<times> string \<times> string option) \<Rightarrow> mig_env \<Rightarrow> nat list \<Rightarrow>
   string \<Rightarrow> mig_state \<Rightarrow> mig_state + (string \<times> mig_state)" where
  "apply_loop up env [] description m = Inr (description, m)"
| "apply_loop up env (i # is) description m =
     (case channel_err env i of
        Some e \<Rightarrow> Inl m
      | None \<Rightarrow> (case up (call_err env i) (nodes m i) of
            (b, d, _) \<Rightarrow> apply_loop up env is d (m\<lparr>nodes := (nodes m)(i := b)\<rparr>)))"

definition applyCustom ::
  "((nat \<Rightarrow> string option) \<Rightarrow> broker \<Rightarrow> broker \<times> string \<times> string option) \<Rightarrow> int \<Rightarrow> mig_env \<Rightarrow> nat \<Rightarrow>
   mig_state \<Rightarrow> mig_state + mig_state" where
  "applyCustom up version env n m =
     (if mig_exists (exists_err env) version m then Inr m
      else (case apply_loop up env [0..<n] [] m of
          Inl m' \<Rightarrow> Inl m'
        | Inr (description, m') \<Rightarrow> Inr (mig_set (set_err env) version description m')))"

text \<open>Dialling stops at the first error, and then nothing closes the connections made so far.\<close>

fun dial_all :: "mig_env \<Rightarrow> nat list \<Rightarrow> mig_state \<Rightarrow> mig_state + mig_state" where
  "dial_all env [] m = Inr m"
| "dial_all env (i # is) m = (case dial_err env i of
       Some e \<Rightarrow> Inl m
     | None \<Rightarrow> dial_all env is (m\<lparr>open_conns := open_conns m + 1\<rparr>))"

definition setupRabbitMQ :: "mig_env \<Rightarrow> nat \<Rightarrow> mig_state \<Rightarrow> mig_state + mig_state" where
  "setupRabbitMQ env n m = (case dial_all env [0..<n] m of
       Inl m' \<Rightarrow> Inl m'
     | Inr m1 \<Rightarrow> (case applyCustom Up202412170001 RabbitMqVersion202412170001 env n m1 of
           Inl m' \<Rightarrow> Inl m'
         | Inr m2 \<Rightarrow> Inr (m2\<lparr>open_conns := open_conns m2 - int n\<rparr>)))"

text \<open>
  \<open>MigrateRabbitMq\<close> with \<open>n\<close> nodes. Without the lock it does nothing; a fatal error ends the
  process before the deferred release, so the lock stays held until it expires.
\<close>

definition MigrateRabbitMq :: "mig_env \<Rightarrow> nat \<Rightarrow> mig_state \<Rightarrow> mig_state + mig_state" where
  "MigrateRabbitMq env n m =
     (if obtain_err env \<noteq> None then Inr m
      else (case setupRabbitMQ env n (m\<lparr>lock_held := True\<rparr>) of
          Inl m' \<Rightarrow> Inl m'
        | Inr m' \<Rightarrow> Inr (m'\<lparr>lock_held := False\<rparr>)))"

section \<open>Lemmas\<close>

definition no_errors :: "mig_env \<Rightarrow> bool" where
  "no_errors env \<longleftrightarrow> obtain_err env = None \<and> (\<forall>i. dial_err env i = None) \<and> exists_err env = None \<and>
     (\<forall>i. channel_err env i = None) \<and> (\<forall>i j. call_err env i j = None) \<and> set_err env = None"

lemma dial_all_ok:
  "(\<And>i. i \<in> set is \<Longrightarrow> dial_err env i = None) \<Longrightarrow>
   dial_all env is m = Inr (m\<lparr>open_conns := open_conns m + int (length is)\<rparr>)"
  by (induction "is" arbitrary: m) (auto simp: add.assoc)

text \<open>How many of the six calls on a node get through before the first that fails.\<close>

definition calls_done :: "(nat \<Rightarrow> string option) \<Rightarrow> nat" where
  "calls_done err = length (takeWhile (\<lambda>j. err j = None) [0..<6])"

lemma run_calls_done:
  "run_calls err i cs b = (let k = length (takeWhile (\<lambda>j. err j = None) [i..<i + length cs]) in
     (fold do_amqp (take k cs) b, if k = length cs then None else err (i + k)))"
proof (induction cs arbitrary: i b)
  case (Cons c cs)
  have "[i..<i + length (c # cs)] = i # [Suc i..<Suc i + length cs]" using upt_conv_Cons [of i "i + length (c # cs)"] by simp
  with Cons.IH [of "Suc i" "do_amqp c b"] show ?case by (auto simp: Let_def split: option.split)
qed simp

lemma length_up_calls [simp]: "length up_calls = 6"
  by (simp add: up_calls_def)

lemma Up_done:
  "fst (Up202412170001 err b) = fold do_amqp (take (calls_done err) up_calls) b"
  "fst (snd (Up202412170001 err b)) = (if calls_done err = 6 then ''Create RabbitMQ queue'' else [])"
proof -
  have k: "run_calls err 0 up_calls b =
      (fold do_amqp (take (calls_done err) up_calls) b, if calls_done err = 6 then None else err (calls_done err))"
    by (simp add: run_calls_done calls_done_def Let_def del: upt_Suc)
  have "err (calls_done err) \<noteq> None" if "calls_done err \<noteq> 6"
  proof -
    have "calls_done err < length [0..<6]" using that length_takeWhile_le [of "\<lambda>j. err j = None" "[0..<6]"]
      by (simp add: calls_done_def del: upt_Suc)
    from nth_length_takeWhile [OF this [unfolded calls_done_def]] show ?thesis
      using that length_takeWhile_le [of "\<lambda>j. err j = None" "[0..<6]"] by (simp add: calls_done_def del: upt_Suc)
  qed
  then show "fst (Up202412170001 err b) = fold do_amqp (take (calls_done err) up_calls) b"
    "fst (snd (Up202412170001 err b)) = (if calls_done err = 6 then ''Create RabbitMQ queue'' else [])"
    by (cases "calls_done err = 6"; auto simp: Up202412170001_def k split: option.split)+
qed

lemma apply_loop_ok:
  assumes "\<And>i. i \<in> set is \<Longrightarrow> channel_err env i = None"
  shows "\<exists>d m'. apply_loop up env is description m = Inr (d, m') \<and> applied m' = applied m \<and>
    open_conns m' = open_conns m \<and> lock_held m' = lock_held m"
  using assms
proof (induction "is" arbitrary: description m)
  case (Cons i "is")
  obtain b d e where up: "up (call_err env i) (nodes m i) = (b, d, e)" by (cases "up (call_err env i) (nodes m i)")
  from Cons.IH [of d "m\<lparr>nodes := (nodes m)(i := b)\<rparr>"] Cons.prems up show ?case by auto
qed auto

lemma apply_loop_nodes:
  assumes "distinct is" "apply_loop up env is description m = Inr (d, m')"
  shows "nodes m' i = (if i \<in> set is then fst (up (call_err env i) (nodes m i)) else nodes m i)"
  using assms
proof (induction "is" arbitrary: description m)
  case (Cons j "is")
  obtain b d' e where up: "up (call_err env j) (nodes m j) = (b, d', e)" by (cases "up (call_err env j) (nodes m j)")
  have "nodes m' i = (if i \<in> set is then fst (up (call_err env i) (nodes (m\<lparr>nodes := (nodes m)(j := b)\<rparr>) i))
      else nodes (m\<lparr>nodes := (nodes m)(j := b)\<rparr>) i)"
    using Cons.IH [of d' "m\<lparr>nodes := (nodes m)(j := b)\<rparr>"] Cons.prems up by (auto split: option.splits)
  then show ?case using up Cons.prems(1) by auto
qed simp

text \<open>The description is that of the last node.\<close>

lemma apply_loop_description:
  assumes "\<And>i b. fst (snd (up (call_err env i) b)) = D i" "apply_loop up env is description m = Inr (d, m')"
  shows "d = (if is = [] then description else D (last is))"
  using assms(2)
proof (induction "is" arbitrary: description m)
  case (Cons i "is")
  obtain b d1 e where up: "up (call_err env i) (nodes m i) = (b, d1, e)" by (cases "up (call_err env i) (nodes m i)")
  then have "d1 = D i" using assms(1) [of i "nodes m i"] by simp
  then show ?case
    using Cons.IH [of d1 "m\<lparr>nodes := (nodes m)(i := b)\<rparr>"] Cons.prems up by (auto split: option.splits)
qed simp

text \<open>A recorded version makes every later run leave the table and the nodes alone.\<close>

definition keeps :: "mig_state \<Rightarrow> mig_state + mig_state \<Rightarrow> bool" where
  "keeps m r \<longleftrightarrow> (case r of Inl m' \<Rightarrow> applied m' = applied m \<and> nodes m' = nodes m
     | Inr m' \<Rightarrow> applied m' = applied m \<and> nodes m' = nodes m)"

lemma keeps_simps [simp]:
  "keeps (m\<lparr>open_conns := x\<rparr>) r = keeps m r" "keeps (m\<lparr>lock_held := l\<rparr>) r = keeps m r"
  "keeps m (Inl (m'\<lparr>open_conns := x\<rparr>)) = keeps m (Inl m')" "keeps m (Inr (m'\<lparr>open_conns := x\<rparr>)) = keeps m (Inr m')"
  "keeps m (Inr (m'\<lparr>lock_held := l\<rparr>)) = keeps m (Inr m')" "keeps m (Inl m)" "keeps m (Inr m)"
  by (simp_all add: keeps_def split: sum.splits)

lemma dial_all_keeps: "keeps m (dial_all env is m)"
proof (induction "is" arbitrary: m)
  case (Cons i "is")
  show ?case using Cons.IH [of "m\<lparr>open_conns := open_conns m + 1\<rparr>"]
    by (cases "dial_err env i") simp_all
qed simp

lemma recorded_run_keeps:
  assumes "exists_err env = None" "applied m RabbitMqVersion202412170001 \<noteq> None"
  shows "keeps m (MigrateRabbitMq env n m)"
proof (cases "dial_all env [0..<n] (m\<lparr>lock_held := True\<rparr>)")
  case (Inl m1)
  then show ?thesis
    using dial_all_keeps [of "m\<lparr>lock_held := True\<rparr>" env "[0..<n]"]
    by (simp add: MigrateRabbitMq_def setupRabbitMQ_def keeps_def)
next
  case (Inr m1)
  have "keeps m (Inr m1)" using dial_all_keeps [of "m\<lparr>lock_held := True\<rparr>" env "[0..<n]"] Inr by simp
  then have "mig_exists (exists_err env) RabbitMqVersion202412170001 m1"
    using assms by (simp add: mig_exists_def keeps_def)
  with Inr \<open>keeps m (Inr m1)\<close> show ?thesis
    by (simp add: MigrateRabbitMq_def setupRabbitMQ_def applyCustom_def keeps_def)
qed

text \<open>A run that gets as far as the nodes.\<close>

definition reaches_nodes :: "mig_env \<Rightarrow> bool" where
  "reaches_nodes env \<longleftrightarrow> obtain_err env = None \<and> (\<forall>i. dial_err env i = None) \<and> (\<forall>i. channel_err env i = None)"

abbreviation up_description :: "mig_env \<Rightarrow> nat \<Rightarrow> string" where
  "up_description env i \<equiv> if calls_done (call_err env i) = 6 then ''Create RabbitMQ queue'' else []"

lemma full_run:
  assumes "reaches_nodes env" "\<not> mig_exists (exists_err env) RabbitMqVersion202412170001 m" "0 < n"
  obtains m' where "MigrateRabbitMq env n m = Inr m'"
    "\<forall>i. nodes m' i = (if i < n then fold do_amqp (take (calls_done (call_err env i)) up_calls) (nodes m i) else nodes m i)"
    "applied m' = applied (mig_set (set_err env) RabbitMqVersion202412170001 (up_description env (n - 1)) m)"
    "open_conns m' = open_conns m" "\<not> lock_held m'"
proof -
  let ?m = "m\<lparr>lock_held := True, open_conns := open_conns m + int n\<rparr>"
  have dial: "dial_all env [0..<n] (m\<lparr>lock_held := True\<rparr>) = Inr ?m"
    using dial_all_ok [of "[0..<n]" env "m\<lparr>lock_held := True\<rparr>"] assms(1) by (simp add: reaches_nodes_def)
  obtain d m2 where loop: "apply_loop Up202412170001 env [0..<n] [] ?m = Inr (d, m2)"
      "applied m2 = applied ?m" "open_conns m2 = open_conns ?m"
    using apply_loop_ok [of "[0..<n]" env Up202412170001 "[]" ?m] assms(1) by (auto simp: reaches_nodes_def)
  have d: "d = up_description env (n - 1)"
    using apply_loop_description [OF Up_done(2) loop(1)] assms(3) by simp
  have nodes: "nodes m2 i = (if i < n then fold do_amqp (take (calls_done (call_err env i)) up_calls) (nodes m i) else nodes m i)" for i
    using apply_loop_nodes [OF _ loop(1), of i] by (simp add: Up_done(1))
  show ?thesis
    by (rule that [of "(mig_set (set_err env) RabbitMqVersion202412170001 d m2)\<lparr>open_conns := open_conns m, lock_held := False\<rparr>"])
      (use dial loop assms d nodes in \<open>auto simp: MigrateRabbitMq_def setupRabbitMQ_def applyCustom_def
        mig_exists_def mig_set_def reaches_nodes_def\<close>)
qed

lemma calls_done_all: "(\<forall>j < 6. err j = None) \<longleftrightarrow> calls_done err = 6"
proof
  assume "\<forall>j < 6. err j = None"
  then have "takeWhile (\<lambda>j. err j = None) [0..<6] = [0..<6]" by (simp add: takeWhile_eq_all_conv del: upt_Suc)
  then show "calls_done err = 6" unfolding calls_done_def by (metis length_upt diff_zero)
next
  assume "calls_done err = 6"
  then have "takeWhile (\<lambda>j. err j = None) [0..<6] = [0..<6]"
    using takeWhile_eq_take [of "\<lambda>j. err j = None" "[0..<6]"] by (simp add: calls_done_def del: upt_Suc)
  then show "\<forall>j < 6. err j = None" by (auto simp: takeWhile_eq_all_conv simp del: upt_Suc)
qed

lemma clean_run:
  assumes "no_errors env" "applied m RabbitMqVersion202412170001 = None" "0 < n"
  obtains m' where "MigrateRabbitMq env n m = Inr m'" "\<forall>i < n. nodes m' i = fold do_amqp up_calls (nodes m i)"
proof -
  have "calls_done (call_err env i) = 6" for i
    using assms(1) calls_done_all [of "call_err env i"] by (auto simp: no_errors_def)
  moreover have "reaches_nodes env" "\<not> mig_exists (exists_err env) RabbitMqVersion202412170001 m"
    using assms(1,2) by (simp_all add: no_errors_def reaches_nodes_def mig_exists_def)
  ultimately show ?thesis using full_run [OF _ _ assms(3), of env m] that by (metis length_up_calls order_refl take_all)
qed

section \<open>Properties\<close>

text \<open>
  C32: a migration that is not recorded yet, run on any number of nodes when the lock, the connections
  and the database answer but calls on the nodes may fail. On every node exactly the calls before the
  first failing one are carried out, so that a node without a failing call has both queues with their
  exchanges and bindings. The version is recorded whatever failed, with an empty description
  when a call failed on the last node; the connections are closed and the lock is released. A later run that can
  query the table then changes neither the table nor the nodes, so that a half-done migration is not
  repaired; only a later run whose query fails carries the migration out again, and keeps the
  recorded row as it is.
\<close>

theorem rabbit_migration_applies_once:
  assumes "reaches_nodes env" "exists_err env = None" "set_err env = None"
    and "applied m RabbitMqVersion202412170001 = None" "0 < n"
  shows "\<exists>m'. MigrateRabbitMq env n m = Inr m' \<and>
    (\<forall>i < n. nodes m' i = fold do_amqp (take (calls_done (call_err env i)) up_calls) (nodes m i) \<and>
      ((\<forall>j < 6. call_err env i j = None) \<longrightarrow> {''my_queue'', ''test_queue''} \<subseteq> queues (nodes m' i) \<and>
         {(''my_queue'', ''my_queue'', ''my_events''), (''test_queue'', ''test_queue'', ''events'')} \<subseteq> bindings (nodes m' i) \<and>
         exchanges (nodes m' i) ''my_events'' = Some ''direct'' \<and> exchanges (nodes m' i) ''events'' = Some ''direct'')) \<and>
    applied m' = (applied m)(RabbitMqVersion202412170001 \<mapsto>
      if \<forall>j < 6. call_err env (n - 1) j = None then ''Create RabbitMQ queue'' else []) \<and>
    open_conns m' = open_conns m \<and> \<not> lock_held m' \<and>
    (\<forall>env' k. exists_err env' = None \<longrightarrow> keeps m' (MigrateRabbitMq env' k m')) \<and>
    (\<forall>env' k. reaches_nodes env' \<and> exists_err env' \<noteq> None \<and> 0 < k \<longrightarrow>
      (\<exists>m2. MigrateRabbitMq env' k m' = Inr m2 \<and> applied m2 = applied m' \<and>
        (\<forall>i < k. nodes m2 i = fold do_amqp (take (calls_done (call_err env' i)) up_calls) (nodes m' i))))"
proof -
  have "\<not> mig_exists (exists_err env) RabbitMqVersion202412170001 m" using assms(4) by (simp add: mig_exists_def)
  then obtain m' where run: "MigrateRabbitMq env n m = Inr m'"
    "\<forall>i. nodes m' i = (if i < n then fold do_amqp (take (calls_done (call_err env i)) up_calls) (nodes m i) else nodes m i)"
    "applied m' = applied (mig_set (set_err env) RabbitMqVersion202412170001 (up_description env (n - 1)) m)"
    "open_conns m' = open_conns m" "\<not> lock_held m'"
    using full_run [OF assms(1) _ assms(5)] by metis
  have rec: "applied m' = (applied m)(RabbitMqVersion202412170001 \<mapsto> up_description env (n - 1))"
    using run(3) assms(3,4) by (simp add: mig_set_def)
  have "keeps m' (MigrateRabbitMq env' k m')" if "exists_err env' = None" for env' k
    using that rec by (intro recorded_run_keeps) simp_all
  moreover have "\<exists>m2. MigrateRabbitMq env' k m' = Inr m2 \<and> applied m2 = applied m' \<and>
      (\<forall>i < k. nodes m2 i = fold do_amqp (take (calls_done (call_err env' i)) up_calls) (nodes m' i))"
    if "reaches_nodes env'" "exists_err env' \<noteq> None" "0 < k" for env' k
  proof -
    have "\<not> mig_exists (exists_err env') RabbitMqVersion202412170001 m'" using that(2) by (simp add: mig_exists_def)
    from full_run [OF that(1) this that(3)] obtain m2 where "MigrateRabbitMq env' k m' = Inr m2"
        "\<forall>i. nodes m2 i = (if i < k then fold do_amqp (take (calls_done (call_err env' i)) up_calls) (nodes m' i) else nodes m' i)"
        "applied m2 = applied (mig_set (set_err env') RabbitMqVersion202412170001 (up_description env' (k - 1)) m')"
      by metis
    then show ?thesis using rec by (simp add: mig_set_def)
  qed
  moreover have "{''my_queue'', ''test_queue''} \<subseteq> queues (fold do_amqp up_calls b)"
    "{(''my_queue'', ''my_queue'', ''my_events''), (''test_queue'', ''test_queue'', ''events'')} \<subseteq> bindings (fold do_amqp up_calls b)"
    "exchanges (fold do_amqp up_calls b) ''my_events'' = Some ''direct''"
    "exchanges (fold do_amqp up_calls b) ''events'' = Some ''direct''" for b
    by (simp_all add: up_calls_def)
  ultimately show ?thesis using run rec unfolding calls_done_all by (intro exI [of _ m']) simp
qed

section \<open>Witnesses\<close>

definition calm_env :: mig_env where
  "calm_env = \<lparr>obtain_err = None, dial_err = (\<lambda>_. None), exists_err = None, channel_err = (\<lambda>_. None),
     call_err = (\<lambda>_ _. None), set_err = None\<rparr>"

definition fresh_state :: mig_state where
  "fresh_state = \<lparr>applied = Map.empty, nodes = (\<lambda>_. empty_broker), open_conns = 0, lock_held = False\<rparr>"

text \<open>Two nodes; the first call on the second one fails.\<close>

definition half_env :: mig_env where
  "half_env = calm_env\<lparr>call_err := (\<lambda>i j. if i = 1 \<and> j = 0 then Some ''closed'' else None)\<rparr>"

theorem rabbit_migration_applies_once_witness:
  "\<exists>m'. MigrateRabbitMq half_env 2 fresh_state = Inr m' \<and> ''my_queue'' \<in> queues (nodes m' 0) \<and>
     queues (nodes m' 1) = {} \<and> applied m' RabbitMqVersion202412170001 = Some []"
proof -
  have "reaches_nodes half_env" "exists_err half_env = None" "set_err half_env = None"
      "applied fresh_state RabbitMqVersion202412170001 = None" "(0 :: nat) < 2"
    by (simp_all add: half_env_def calm_env_def reaches_nodes_def fresh_state_def)
  from rabbit_migration_applies_once [OF this] obtain m' where m': "MigrateRabbitMq half_env 2 fresh_state = Inr m'"
    "\<forall>i < 2. nodes m' i = fold do_amqp (take (calls_done (call_err half_env i)) up_calls) empty_broker"
    "applied m' = (applied fresh_state)(RabbitMqVersion202412170001 \<mapsto>
      if \<forall>j < 6. call_err half_env (2 - 1) j = None then ''Create RabbitMQ queue'' else [])"
    by (auto simp: fresh_state_def)
  have "calls_done (call_err half_env 0) = 6" "calls_done (call_err half_env 1) = 0"
    by (simp_all add: calls_done_def half_env_def upt_rec)
  with m'(2) have "''my_queue'' \<in> queues (nodes m' 0)" "queues (nodes m' 1) = {}"
    by (simp_all add: up_calls_def empty_broker_def)
  moreover have "\<not> (\<forall>j < 6. call_err half_env (2 - 1) j = None)" by (auto simp: half_env_def)
  ultimately show ?thesis using m'(1,3) by auto
qed

end
