(* ===== verification/Rabbit_Consumers.thy ===== *)
theory Rabbit_Consumers
  imports Migrations "HOL-Library.Word" "HOL-Library.Multiset"
begin

text \<open>
  The RabbitMQ consumers: \<^verbatim>\<open>internal/consumer/\<close>, the publishers of \<^verbatim>\<open>pkg/rabbit_mq.go\<close> and the program
  \<^verbatim>\<open>cmd/background_rabbit/main.go\<close>, whose goroutine \<open>push\<close> publishes to one queue, whose first consumer
  answers every message by publishing to a second queue, and whose second consumer reads that.
  The clients \<^verbatim>\<open>go-rabbitmq\<close> and \<^verbatim>\<open>sqlx\<close>, the JSON encoder and the broker are outside: what they
  return is an argument, and how the broker routes is the parameter \<open>deliver\<close> with the law
  \<open>direct_routing\<close>, the documented behaviour of direct exchanges.
\<close>

section \<open>Returned messages\<close>

record ('h, 't) amqp_return =
  ReplyCode :: "16 word"
  ReplyText :: string
  Exchange :: string
  RoutingKey :: string
  ContentType :: string
  ContentEncoding :: string
  Headers :: 'h
  DeliveryMode :: "8 word"
  Priority :: "8 word"
  CorrelationId :: string
  ReplyTo :: string
  Expiration :: string
  MessageId :: string
  Timestamp :: 't
  Type :: string
  UserId :: string
  AppId :: string
  Body :: "8 word list"

text \<open>\<open>pkg.Return\<close>: the same fields with their JSON names, the body as text.\<close>

record ('h, 't) Return =
  reply_code :: "16 word"
  reply_text :: string
  exchange :: string
  routing_key :: string
  content_type :: string
  content_encoding :: string
  ret_headers :: 'h
  delivery_mode :: "8 word"
  priority :: "8 word"
  correlation_id :: string
  reply_to :: string
  expiration :: string
  message_id :: string
  timestamp :: 't
  ret_type :: string
  user_id :: string
  app_id :: string
  body :: string

definition bytes_string :: "8 word list \<Rightarrow> string" where
  "bytes_string bs = map (\<lambda>b. char_of (unat b)) bs"

definition newRet :: "('h, 't) amqp_return \<Rightarrow> ('h, 't) Return" where
  "newRet ret = \<lparr>reply_code = ReplyCode ret, reply_text = ReplyText ret, exchange = Exchange ret,
     routing_key = RoutingKey ret, content_type = ContentType ret, content_encoding = ContentEncoding ret,
     ret_headers = Headers ret, delivery_mode = DeliveryMode ret, priority = Priority ret,
     correlation_id = CorrelationId ret, reply_to = ReplyTo ret, expiration = Expiration ret,
     message_id = MessageId ret, timestamp = Timestamp ret, ret_type = Type ret, user_id = UserId ret,
     app_id = AppId ret, body = bytes_string (Body ret)\<rparr>"

text \<open>
  The queries it runs and how it ends: with or without an error, or in a panic, since
  \<open>rows.Close\<close> is deferred on the nil rows of a failed query.
\<close>

datatype handled_return = Returned "string option" | ReturnPanic

definition HandleFailedMessageFromRabbitServer ::
  "(('h, 't) Return \<Rightarrow> 'j result) \<Rightarrow> ('j \<Rightarrow> unit result) \<Rightarrow> ('h, 't) amqp_return \<Rightarrow> 'j list \<times> handled_return" where
  "HandleFailedMessageFromRabbitServer marshal named_query ret = (case marshal (newRet ret) of
       Inl err \<Rightarrow> ([], Returned (Some err))
     | Inr jsonData \<Rightarrow> (case named_query jsonData of
           Inl err \<Rightarrow> ([jsonData], ReturnPanic)
         | Inr _ \<Rightarrow> ([jsonData], Returned None)))"

section \<open>The first consumer\<close>

datatype action = Ack

text \<open>
  What publishing returned: the confirmations (whether each is not nil) and the error; \<open>wait\<close> is
  what waiting for the first confirmation gives. \<open>None\<close>: the handler panics, by indexing an
  empty slice or waiting on a nil confirmation.
\<close>

definition BlankConsumer ::
  "bool list \<times> string option \<Rightarrow> bool \<times> string option \<Rightarrow> string list \<Rightarrow> string \<Rightarrow> string list \<times> action option" where
  "BlankConsumer pub wait logs d =
     (let confirms = fst pub;
        logs1 = logs @ (case snd pub of None \<Rightarrow> [] | Some e \<Rightarrow> [''failed to publish: '' @ e]);
        logs2 = logs1 @ (if length confirms = 0 \<or> \<not> confirms ! 0 then [''message publishing not confirmed''] else [])
      in if length confirms = 0 \<or> \<not> confirms ! 0 then (logs2, None)
         else (logs2 @ (case snd wait of None \<Rightarrow> [] | Some e \<Rightarrow> [e]) @
             [if fst wait then ''message publishing confirmed'' else ''message publishing not confirmed'',
              ''consumed_0: '' @ d],
            Some Ack))"

section \<open>The service\<close>

text \<open>\<open>ConsumerRabbitService\<close>: its publishers are nil until \<open>SetPublishers\<close>.\<close>

record ('pg, 'pub) ConsumerRabbitService =
  crs_postgres :: 'pg
  publisher0 :: "'pub option"
  publisher1 :: "'pub option"

definition NewConsumerRabbitService :: "'pg \<Rightarrow> ('pg, 'pub) ConsumerRabbitService" where
  "NewConsumerRabbitService postgres = \<lparr>crs_postgres = postgres, publisher0 = None, publisher1 = None\<rparr>"

definition SetPublishers ::
  "'pub \<Rightarrow> 'pub \<Rightarrow> ('pg, 'pub) ConsumerRabbitService \<Rightarrow> ('pg, 'pub) ConsumerRabbitService" where
  "SetPublishers p p1 bs = bs\<lparr>publisher0 := Some p, publisher1 := Some p1\<rparr>"

text \<open>The handler publishes through the second publisher; a nil one panics.\<close>

definition service_BlankConsumer ::
  "('pub \<Rightarrow> bool list \<times> string option) \<Rightarrow> bool \<times> string option \<Rightarrow> ('pg, 'pub) ConsumerRabbitService \<Rightarrow>
   string list \<Rightarrow> string \<Rightarrow> string list \<times> action option" where
  "service_BlankConsumer publish wait bs logs d = (case publisher1 bs of
       None \<Rightarrow> (logs, None)
     | Some p \<Rightarrow> BlankConsumer (publish p) wait logs d)"

record ('c, 'h) RabbitConsumeRoute =
  Consumer :: 'c
  Handler :: 'h

text \<open>The routes that both programs give to \<open>Run\<close>: the queue of each consumer and its handler.\<close>

datatype route_handler = HandleBlank | HandlePrint

definition program_routes :: "string \<rightharpoonup> (string, route_handler) RabbitConsumeRoute" where
  "program_routes = [''consumer'' \<mapsto> \<lparr>Consumer = ''my_queue'', Handler = HandleBlank\<rparr>,
     ''consumer1'' \<mapsto> \<lparr>Consumer = ''test_queue'', Handler = HandlePrint\<rparr>]"

section \<open>The program\<close>

text \<open>Where \<open>push\<close> and \<open>BlankConsumer\<close> publish to: exchange and routing key.\<close>

definition push_route :: "string \<times> string" where
  "push_route = (''my_events'', ''my_queue'')"

definition blank_route :: "string \<times> string" where
  "blank_route = (''events'', ''test_queue'')"

definition push_body :: "nat \<Rightarrow> string" where
  "push_body i = ''my hello, world------>'' @ itoa (int i)"

definition blank_body :: string where
  "blank_body = ''publisher: hello, world''"

text \<open>
  The state of the running program: the counter of \<open>push\<close>, the messages in each queue, those the
  first consumer has in hand (two at most), the acknowledged ones, and what the broker returned
  as unroutable. \<open>pushed\<close> and \<open>answers\<close> record what the broker accepted; \<open>unsure\<close> the messages that were
  acknowledged although waiting for the confirmation of their answer gave none or a negative one, and \<open>unanswered\<close>
  those that were acknowledged although the broker did not accept their answer.
\<close>

record rabbit =
  pushing :: bool
  push_i :: nat
  queued :: "string \<Rightarrow> string list"
  in_hand :: "string list"
  acked0 :: "string list"
  acked1 :: "string list"
  returns :: "string list"
  pushed :: "string list"
  answers :: nat
  unsure :: "string list"
  unanswered :: "string list"
  crashed :: bool

definition rabbit_start :: rabbit where
  "rabbit_start = \<lparr>pushing = True, push_i = 0, queued = (\<lambda>_. []), in_hand = [], acked0 = [], acked1 = [],
     returns = [], pushed = [], answers = 0, unsure = [], unanswered = [], crashed = False\<rparr>"

text \<open>A mandatory message goes to the queues it is routed to, and is returned if there are none.\<close>

definition publish :: "(string \<Rightarrow> string \<Rightarrow> string set) \<Rightarrow> string \<times> string \<Rightarrow> string \<Rightarrow> rabbit \<Rightarrow> rabbit" where
  "publish deliver = (\<lambda>(x, k) m s.
     if deliver x k = {} then s\<lparr>returns := returns s @ [m]\<rparr>
     else s\<lparr>queued := (\<lambda>q. if q \<in> deliver x k then queued s q @ [m] else queued s q)\<rparr>)"

text \<open>
  What publishing an answer returns and whether the broker has taken it are two things: a confirmation that
  is positive is given only for a message that was taken; a negative one, an error while waiting, or
  no confirmation at all may come with or without it.
\<close>

definition publish_if :: "bool \<Rightarrow> (string \<Rightarrow> string \<Rightarrow> string set) \<Rightarrow> rabbit \<Rightarrow> rabbit" where
  "publish_if taken deliver s =
     (if taken then (publish deliver blank_route blank_body s)\<lparr>answers := Suc (answers s)\<rparr> else s)"

inductive rabbit_step :: "(string \<Rightarrow> string \<Rightarrow> string set) \<Rightarrow> rabbit \<Rightarrow> rabbit \<Rightarrow> bool" for deliver where
  push_ok: "pushing s \<Longrightarrow> \<not> crashed s \<Longrightarrow>
    rabbit_step deliver s ((publish deliver push_route (push_body (push_i s)) s)
      \<lparr>push_i := Suc (push_i s), pushed := pushed s @ [push_body (push_i s)]\<rparr>)"
| push_failed: "pushing s \<Longrightarrow> \<not> crashed s \<Longrightarrow> rabbit_step deliver s (s\<lparr>push_i := Suc (push_i s)\<rparr>)"
| push_stops: "rabbit_step deliver s (s\<lparr>pushing := False\<rparr>)"
| take0: "queued s ''my_queue'' = m # ms \<Longrightarrow> length (in_hand s) < 2 \<Longrightarrow> \<not> crashed s \<Longrightarrow>
    rabbit_step deliver s (s\<lparr>queued := (queued s)(''my_queue'' := ms), in_hand := in_hand s @ [m]\<rparr>)"
| handled: "m \<in> set (in_hand s) \<Longrightarrow> \<not> crashed s \<Longrightarrow> snd (BlankConsumer (confirms, err) wait [] m) = Some Ack \<Longrightarrow>
    (fst wait \<longrightarrow> taken) \<Longrightarrow>
    rabbit_step deliver s ((publish_if taken deliver s)
      \<lparr>in_hand := remove1 m (in_hand s), acked0 := acked0 s @ [m],
        unsure := (if fst wait then unsure s else unsure s @ [m]),
        unanswered := (if taken then unanswered s else unanswered s @ [m])\<rparr>)"
| handler_panics: "m \<in> set (in_hand s) \<Longrightarrow> \<not> crashed s \<Longrightarrow> snd (BlankConsumer (confirms, err) wait [] m) = None \<Longrightarrow>
    rabbit_step deliver s ((publish_if taken deliver s)\<lparr>crashed := True\<rparr>)"
| consume1: "queued s ''test_queue'' = m # ms \<Longrightarrow> \<not> crashed s \<Longrightarrow>
    rabbit_step deliver s (s\<lparr>queued := (queued s)(''test_queue'' := ms), acked1 := acked1 s @ [m]\<rparr>)"

abbreviation rabbit_steps :: "(string \<Rightarrow> string \<Rightarrow> string set) \<Rightarrow> rabbit \<Rightarrow> rabbit \<Rightarrow> bool" where
  "rabbit_steps deliver \<equiv> (rabbit_step deliver)\<^sup>*\<^sup>*"

text \<open>How a broker routes by its direct exchanges.\<close>

definition direct_routing :: "(broker \<Rightarrow> string \<Rightarrow> string \<Rightarrow> string set) \<Rightarrow> bool" where
  "direct_routing deliver \<longleftrightarrow> (\<forall>b x k. exchanges b x = Some ''direct'' \<longrightarrow>
     deliver b x k = {q \<in> queues b. (q, k, x) \<in> bindings b})"

section \<open>Lemmas\<close>

lemma BlankConsumer_action:
  "snd (BlankConsumer pub wait logs d) = (if fst pub \<noteq> [] \<and> hd (fst pub) then Some Ack else None)"
  by (cases "fst pub") (simp_all add: BlankConsumer_def Let_def)

text \<open>The programs set the publishers before they run the consumers.\<close>

lemma service_BlankConsumer_ready:
  "service_BlankConsumer send wait (SetPublishers p p1 (NewConsumerRabbitService pg)) logs d =
     BlankConsumer (send p1) wait logs d"
  "snd (service_BlankConsumer send wait (NewConsumerRabbitService pg) logs d) = None"
  by (simp_all add: service_BlankConsumer_def SetPublishers_def NewConsumerRabbitService_def)

text \<open>What the consumers rely on: where the two routes lead.\<close>

definition routes_ok :: "(string \<Rightarrow> string \<Rightarrow> string set) \<Rightarrow> bool" where
  "routes_ok deliver \<longleftrightarrow> deliver ''my_events'' ''my_queue'' = {''my_queue''} \<and>
     deliver ''events'' ''test_queue'' = {''test_queue''}"

lemma migrated_routes:
  assumes "direct_routing deliver" "b = fold do_amqp up_calls empty_broker"
  shows "routes_ok (deliver b)"
proof -
  have "exchanges b ''my_events'' = Some ''direct''" "exchanges b ''events'' = Some ''direct''"
    by (simp_all add: assms(2) up_calls_def)
  then have "deliver b ''my_events'' k = {q \<in> queues b. (q, k, ''my_events'') \<in> bindings b}"
    "deliver b ''events'' k = {q \<in> queues b. (q, k, ''events'') \<in> bindings b}" for k
    using assms(1) by (auto simp: direct_routing_def)
  then show ?thesis by (auto simp: routes_ok_def assms(2) up_calls_def empty_broker_def)
qed

definition inv_rabbit :: "rabbit \<Rightarrow> bool" where
  "inv_rabbit s \<longleftrightarrow> returns s = [] \<and>
     mset (pushed s) = mset (queued s ''my_queue'') + mset (in_hand s) + mset (acked0 s) \<and>
     length (queued s ''test_queue'') + length (acked1 s) = answers s \<and>
     answers s + length (unanswered s) \<in> {length (acked0 s)..length (acked0 s) + (if crashed s then 1 else 0)} \<and>
     mset (unanswered s) \<subseteq># mset (unsure s) \<and> mset (unsure s) \<subseteq># mset (acked0 s) \<and>
     length (in_hand s) \<le> 2 \<and>
     set (queued s ''test_queue'') \<union> set (acked1 s) \<subseteq> {blank_body} \<and>
     set (pushed s) \<subseteq> push_body ` {..<push_i s}"

lemma publish_push:
  "routes_ok deliver \<Longrightarrow> publish deliver push_route m s = s\<lparr>queued := (queued s)(''my_queue'' := queued s ''my_queue'' @ [m])\<rparr>"
  by (auto simp: publish_def push_route_def routes_ok_def fun_eq_iff)

lemma publish_blank:
  "routes_ok deliver \<Longrightarrow> publish deliver blank_route m s = s\<lparr>queued := (queued s)(''test_queue'' := queued s ''test_queue'' @ [m])\<rparr>"
  by (auto simp: publish_def blank_route_def routes_ok_def fun_eq_iff)

lemma subseteq_snoc: "A \<subseteq># B \<Longrightarrow> A \<subseteq># add_mset x B"
  by (simp add: subseteq_mset_def le_SucI)

lemma inv_rabbit_step: "rabbit_step deliver s t \<Longrightarrow> routes_ok deliver \<Longrightarrow> inv_rabbit s \<Longrightarrow> inv_rabbit t"
proof (induction rule: rabbit_step.induct)
  case (push_ok s)
  then show ?case by (auto simp: inv_rabbit_def publish_push less_Suc_eq)
next
  case (push_failed s)
  then show ?case by (auto simp: inv_rabbit_def less_Suc_eq)
next
  case (handled m s confirms err wait taken)
  then have "mset (in_hand s) = add_mset m (mset (remove1 m (in_hand s)))" by simp
  then show ?case using handled
    by (auto simp: inv_rabbit_def publish_blank publish_if_def length_remove1 subseteq_snoc)
next
  case (handler_panics m s confirms err wait taken)
  then show ?case by (auto simp: inv_rabbit_def publish_blank publish_if_def)
qed (auto simp: inv_rabbit_def)

lemma inv_rabbit_reachable:
  assumes "routes_ok deliver" "rabbit_steps deliver rabbit_start s"
  shows "inv_rabbit s"
  using assms(2)
proof (induction rule: rtranclp_induct)
  case base
  then show ?case by (simp add: inv_rabbit_def rabbit_start_def)
qed (rule inv_rabbit_step [OF _ assms(1)])

text \<open>A message that is acknowledged and never answered: the confirmation of its answer is negative.\<close>

lemma answer_can_be_lost:
  assumes "routes_ok deliver"
  shows "\<exists>t. rabbit_steps deliver rabbit_start t \<and> acked0 t = [push_body 0] \<and> unanswered t = [push_body 0] \<and>
    answers t = 0 \<and> \<not> crashed t"
proof -
  let ?m = "push_body 0"
  let ?s1 = "(publish deliver push_route ?m rabbit_start)\<lparr>push_i := 1, pushed := [?m]\<rparr>"
  let ?s2 = "?s1\<lparr>queued := (queued ?s1)(''my_queue'' := []), in_hand := [?m]\<rparr>"
  let ?s3 = "?s2\<lparr>in_hand := [], acked0 := [?m], unsure := [?m], unanswered := [?m]\<rparr>"
  have "rabbit_step deliver rabbit_start ?s1" using push_ok [of rabbit_start deliver] by (simp add: rabbit_start_def)
  moreover have "rabbit_step deliver ?s1 ?s2"
    using take0 [of ?s1 ?m "[]" deliver] assms by (simp add: publish_push rabbit_start_def)
  moreover have "rabbit_step deliver ?s2 ?s3"
    using handled [of ?m ?s2 "[True]" None "(False, None)" False deliver] assms
    by (simp add: publish_push BlankConsumer_action publish_if_def rabbit_start_def)
  ultimately have "rabbit_steps deliver rabbit_start ?s3" by (meson converse_rtranclp_into_rtranclp r_into_rtranclp)
  then show ?thesis by (intro exI [of _ ?s3]) (simp add: publish_push [OF assms] rabbit_start_def)
qed

section \<open>Properties\<close>

text \<open>
  C14: once the migration has run on a fresh node without errors, the program's routes exist,
  and however its goroutines interleave and whatever publishing and waiting return: no message is
  returned as unroutable, and no pushed message is lost or handled twice before it is acknowledged. Every
  acknowledged message was answered exactly once on the second queue, except for those whose answer the
  broker did not take; these were all acknowledged without a positive confirmation. The exception
  is real, since the handler acknowledges whatever the confirmation says: the answer is then lost.
  A crash of the first consumer leaves at most one answer too many.
\<close>

theorem rabbit_pipeline:
  assumes "direct_routing deliver" "no_errors env" "applied m RabbitMqVersion202412170001 = None"
    "nodes m 0 = empty_broker" "MigrateRabbitMq env 1 m = Inr m'"
    "rabbit_steps (deliver (nodes m' 0)) rabbit_start s"
  shows "returns s = [] \<and>
    mset (pushed s) = mset (queued s ''my_queue'') + mset (in_hand s) + mset (acked0 s) \<and>
    length (queued s ''test_queue'') + length (acked1 s) = answers s \<and>
    length (acked0 s) \<le> answers s + length (unanswered s) \<and>
    answers s + length (unanswered s) \<le> length (acked0 s) + (if crashed s then 1 else 0) \<and>
    mset (unanswered s) \<subseteq># mset (unsure s) \<and> mset (unsure s) \<subseteq># mset (acked0 s) \<and>
    (\<exists>t. rabbit_steps (deliver (nodes m' 0)) rabbit_start t \<and> acked0 t = [push_body 0] \<and>
      unanswered t = [push_body 0] \<and> answers t = 0 \<and> \<not> crashed t)"
proof -
  obtain m'' where "MigrateRabbitMq env 1 m = Inr m''" "\<forall>i < 1. nodes m'' i = fold do_amqp up_calls (nodes m i)"
    using clean_run [OF assms(2,3), of 1] by auto
  then have "nodes m' 0 = fold do_amqp up_calls empty_broker" using assms(4,5) by simp
  note ok = migrated_routes [OF assms(1) this]
  from inv_rabbit_reachable [OF ok assms(6)] answer_can_be_lost [OF ok] show ?thesis
    by (simp add: inv_rabbit_def)
qed

text \<open>
  The first consumer acknowledges a message exactly when publishing gave it a confirmation
  to wait for, even if that is negative; after a failed publish it panics. A message the broker
  returns is recorded with all its fields, unless it cannot be encoded (an error) or the insert
  fails, which panics instead of returning the error.
\<close>

lemma consumer_outcomes:
  "(snd (BlankConsumer (confirms, err) wait [] d) = Some Ack \<longleftrightarrow> confirms \<noteq> [] \<and> hd confirms) \<and>
   snd (BlankConsumer ([], Some e) wait [] d) = None \<and>
   HandleFailedMessageFromRabbitServer marshal query ret =
     (case marshal \<lparr>reply_code = ReplyCode ret, reply_text = ReplyText ret, exchange = Exchange ret,
        routing_key = RoutingKey ret, content_type = ContentType ret, content_encoding = ContentEncoding ret,
        ret_headers = Headers ret, delivery_mode = DeliveryMode ret, priority = Priority ret,
        correlation_id = CorrelationId ret, reply_to = ReplyTo ret, expiration = Expiration ret,
        message_id = MessageId ret, timestamp = Timestamp ret, ret_type = Type ret, user_id = UserId ret,
        app_id = AppId ret, body = map (\<lambda>b. char_of (unat b)) (Body ret)\<rparr> of
        Inl e \<Rightarrow> ([], Returned (Some e))
      | Inr j \<Rightarrow> ([j], if isl (query j) then ReturnPanic else Returned None))"
  by (simp add: BlankConsumer_action HandleFailedMessageFromRabbitServer_def newRet_def bytes_string_def
      split: sum.split)

section \<open>Witnesses\<close>

definition plain_deliver :: "broker \<Rightarrow> string \<Rightarrow> string \<Rightarrow> string set" where
  "plain_deliver b x k = {q \<in> queues b. (q, k, x) \<in> bindings b}"

theorem rabbit_pipeline_witness:
  "\<exists>s m'. MigrateRabbitMq calm_env 1 fresh_state = Inr m' \<and>
     rabbit_steps (plain_deliver (nodes m' 0)) rabbit_start s \<and> pushed s = [push_body 0] \<and> returns s = []"
proof -
  have env: "no_errors calm_env" "applied fresh_state RabbitMqVersion202412170001 = None" "nodes fresh_state 0 = empty_broker"
    by (simp_all add: no_errors_def calm_env_def fresh_state_def)
  obtain m' where m: "MigrateRabbitMq calm_env 1 fresh_state = Inr m'" using clean_run [OF env(1,2), of 1] by auto
  let ?d = "plain_deliver (nodes m' 0)"
  let ?s = "(publish ?d push_route (push_body 0) rabbit_start)\<lparr>push_i := 1, pushed := [push_body 0]\<rparr>"
  have st: "rabbit_steps ?d rabbit_start ?s"
    using push_ok [of rabbit_start ?d] by (simp add: rabbit_start_def r_into_rtranclp)
  have "direct_routing plain_deliver" by (simp add: direct_routing_def plain_deliver_def)
  from rabbit_pipeline [OF this env m st] have "returns ?s = []" by blast
  moreover have "pushed ?s = [push_body 0]" by simp
  ultimately show ?thesis using st m by blast
qed

end
