(* ===== verification/Redis_Lock.thy ===== *)
theory Redis_Lock
  imports Prelude
begin

text \<open>
  Work under a Redis lock, as the scheduled jobs (\<^verbatim>\<open>internal/cron/cron_service.go\<close>) and the SQL
  migrations (\<^verbatim>\<open>pkg/migrations_sql.go\<close>) do it: ask once for the lock, and depending on the answer work
  and release it, or skip. The lock client \<^verbatim>\<open>bsm/redislock\<close> is outside the repository: its documented
  behaviour is in the rules of \<open>lock_step\<close> (a lock is given to one holder until it is released by
  that holder or expires; otherwise \<open>ErrNotObtained\<close>, or another error; a release may fail, which
  the callers only log). Runs, in one process or several, are numbered; \<open>script\<close> says what the caller does
  after each answer, event by event, the release included; \<open>may_fail\<close> says whether Redis can fail to answer,
  \<open>may_expire\<close> whether the lock can expire while it is held.
\<close>

datatype obtain_ans = Obtained | ErrNotObtained | OtherError string

datatype run_event = Skip | Start | Finish | Release

type_synonym lock_script = "obtain_ans \<Rightarrow> run_event list set"

datatype run_pc = Waiting | Doing "run_event list"      \<comment> \<open>what a run has still to do\<close>

record lock_runs =
  holder :: "nat option"
  run_at :: "nat \<Rightarrow> run_pc"

definition lock_start :: lock_runs where
  "lock_start = \<lparr>holder = None, run_at = (\<lambda>_. Waiting)\<rparr>"

text \<open>A run works when it has started and not finished.\<close>

definition is_running :: "lock_runs \<Rightarrow> nat \<Rightarrow> bool" where
  "is_running s i \<longleftrightarrow> (case run_at s i of Waiting \<Rightarrow> False | Doing es \<Rightarrow> Finish \<in> set es \<and> Start \<notin> set es)"

text \<open>The answers the lock client can give.\<close>

fun can_answer :: "bool \<Rightarrow> lock_runs \<Rightarrow> obtain_ans \<Rightarrow> bool" where
  "can_answer may_fail s Obtained \<longleftrightarrow> holder s = None"
| "can_answer may_fail s ErrNotObtained \<longleftrightarrow> holder s \<noteq> None"
| "can_answer may_fail s (OtherError _) \<longleftrightarrow> may_fail"

inductive lock_step :: "lock_script \<Rightarrow> bool \<Rightarrow> bool \<Rightarrow> lock_runs \<Rightarrow> lock_runs \<Rightarrow> bool"
  for script may_fail may_expire where
  asked: "run_at s i = Waiting \<Longrightarrow> can_answer may_fail s ans \<Longrightarrow> es \<in> script ans \<Longrightarrow>
    lock_step script may_fail may_expire s
      (s\<lparr>holder := if ans = Obtained then Some i else holder s, run_at := (run_at s)(i := Doing es)\<rparr>)"
| does: "run_at s i = Doing (e # es) \<Longrightarrow>
    lock_step script may_fail may_expire s
      (s\<lparr>holder := if e = Release \<and> holder s = Some i then None else holder s, run_at := (run_at s)(i := Doing es)\<rparr>)"
| unreleased: "run_at s i = Doing es \<Longrightarrow>       \<comment> \<open>its process dies, or the release fails\<close>
    lock_step script may_fail may_expire s (s\<lparr>run_at := (run_at s)(i := Doing [])\<rparr>)"
| expired: "may_expire \<Longrightarrow> lock_step script may_fail may_expire s (s\<lparr>holder := None\<rparr>)"

lemma does_keeping:
  "run_at s i = Doing (e # es) \<Longrightarrow> e \<noteq> Release \<Longrightarrow>
    lock_step script may_fail may_expire s (s\<lparr>run_at := (run_at s)(i := Doing es)\<rparr>)"
  using does [of s i e es script may_fail may_expire] by simp

text \<open>Asking and starting.\<close>

lemma starts:
  assumes "run_at s i = Waiting" "can_answer may_fail s ans" "Start # es \<in> script ans"
  shows "(lock_step script may_fail may_expire)\<^sup>*\<^sup>* s
    (s\<lparr>holder := if ans = Obtained then Some i else holder s, run_at := (run_at s)(i := Doing es)\<rparr>)"
proof -
  let ?s = "s\<lparr>holder := if ans = Obtained then Some i else holder s, run_at := (run_at s)(i := Doing (Start # es))\<rparr>"
  have "lock_step script may_fail may_expire s ?s" using assms by (rule asked)
  moreover have "lock_step script may_fail may_expire ?s (?s\<lparr>run_at := (run_at ?s)(i := Doing es)\<rparr>)"
    by (rule does_keeping [of _ _ Start]) simp_all
  ultimately show ?thesis by (simp add: rtranclp.rtrancl_into_rtrancl r_into_rtranclp)
qed

text \<open>No release before the work is finished.\<close>

primrec releases_last :: "run_event list \<Rightarrow> bool" where
  "releases_last [] = True"
| "releases_last (e # es) \<longleftrightarrow> (e = Release \<longrightarrow> Finish \<notin> set es) \<and> releases_last es"

text \<open>Whoever has to finish holds the lock, and does not release it before.\<close>

definition lock_inv :: "lock_runs \<Rightarrow> bool" where
  "lock_inv s \<longleftrightarrow> (\<forall>i es. run_at s i = Doing es \<longrightarrow> Finish \<in> set es \<longrightarrow>
     holder s = Some i \<and> releases_last es)"

text \<open>The discipline that makes the lock work: only the holder works, and it releases the lock after its work.\<close>

locale lock_discipline =
  fixes script :: lock_script and may_fail :: bool
  assumes refused: "es \<in> script ErrNotObtained \<Longrightarrow> Finish \<notin> set es"
    and failed: "may_fail \<Longrightarrow> es \<in> script (OtherError err) \<Longrightarrow> Finish \<notin> set es"
    and released_last: "es \<in> script Obtained \<Longrightarrow> releases_last es"
begin

lemma lock_inv_step:
  assumes "lock_step script may_fail False s t" "lock_inv s"
  shows "lock_inv t"
  using assms
proof (induction rule: lock_step.induct)
  case (asked s i ans es)
  then show ?case
    using refused failed released_last by (cases ans) (auto simp: lock_inv_def split: if_splits)
next
  case (does s i e es)
  then have "Finish \<in> set (e # es) \<longrightarrow> holder s = Some i \<and> releases_last (e # es)"
    unfolding lock_inv_def by blast
  moreover have "holder s \<noteq> Some i" if "j \<noteq> i" "run_at s j = Doing fs" "Finish \<in> set fs" for j fs
    using does(2) that by (auto simp: lock_inv_def)
  ultimately show ?case using does by (auto simp: lock_inv_def split: if_splits)
qed (auto simp: lock_inv_def split: if_splits)

end

sublocale lock_discipline \<subseteq> run_invariant "lock_step script may_fail False" lock_inv lock_start
  by unfold_locales (fact lock_inv_step, simp add: lock_inv_def lock_start_def)

context lock_discipline
begin

lemma exclusion:
  assumes "(lock_step script may_fail False)\<^sup>*\<^sup>* lock_start s" "is_running s i"
  shows "holder s = Some i \<and> {j. is_running s j} = {i}"
proof -
  have inv: "holder s = Some j" if "is_running s j" for j
    using reachable [OF assms(1)] that by (auto simp: lock_inv_def is_running_def split: run_pc.splits)
  then have "j = i" if "is_running s j" for j using assms(2) that by (metis option.inject)
  then show ?thesis using inv assms(2) by blast
qed

end

text \<open>Two runs work at once when the lock expires under the first.\<close>

lemma overlap_by_expiry:
  assumes "Start # Finish # es \<in> script Obtained" "Start \<notin> set es"
  shows "\<exists>s. (lock_step script False True)\<^sup>*\<^sup>* lock_start s \<and> is_running s 0 \<and> is_running s 1"
proof -
  let ?s1 = "lock_start\<lparr>holder := Some 0, run_at := (run_at lock_start)(0 := Doing (Finish # es))\<rparr>"
  let ?s2 = "?s1\<lparr>holder := None\<rparr>"
  let ?s3 = "?s2\<lparr>holder := Some 1, run_at := (run_at ?s2)(1 := Doing (Finish # es))\<rparr>"
  have "(lock_step script False True)\<^sup>*\<^sup>* lock_start ?s1"
    using starts [of lock_start 0 False Obtained "Finish # es" script True] assms by (simp add: lock_start_def)
  moreover have "lock_step script False True ?s1 ?s2" by (rule expired) simp
  moreover have "(lock_step script False True)\<^sup>*\<^sup>* ?s2 ?s3"
    using starts [of ?s2 1 False Obtained "Finish # es" script True] assms by (simp add: lock_start_def)
  ultimately have "(lock_step script False True)\<^sup>*\<^sup>* lock_start ?s3" by (meson r_into_rtranclp rtranclp_trans)
  then show ?thesis using assms(2) by (intro exI [of _ ?s3]) (simp add: is_running_def)
qed

end
