(* ===== verification/Cron_Lock.thy ===== *)
theory Cron_Lock
  imports Redis_Lock
begin

text \<open>
  The scheduled jobs of \<^verbatim>\<open>internal/cron/cron_service.go\<close>: \<open>Lock\<close> wraps a job so that it runs under a
  Redis lock of ten seconds, which is as long as the job \<open>Blank\<close> takes.
\<close>

section \<open>One run\<close>

text \<open>What a run does with the answer, when the job itself returns: the error is compared with
  \<open>ErrNotObtained\<close> only.\<close>

definition cron_Lock :: "obtain_ans \<Rightarrow> run_event list" where
  "cron_Lock ans = (if ans = ErrNotObtained then [Skip] else [Start, Finish, Release])"

definition cron_decide :: "obtain_ans \<Rightarrow> bool" where
  "cron_decide ans \<longleftrightarrow> Start \<in> set (cron_Lock ans)"

abbreviation cron_steps :: "bool \<Rightarrow> bool \<Rightarrow> lock_runs \<Rightarrow> lock_runs \<Rightarrow> bool" where
  "cron_steps may_fail may_expire \<equiv> (lock_step (\<lambda>ans. {cron_Lock ans}) may_fail may_expire)\<^sup>*\<^sup>*"

lemma cron_decide_simps [simp]: "cron_decide ans \<longleftrightarrow> ans \<noteq> ErrNotObtained"
  by (simp add: cron_decide_def cron_Lock_def)

interpretation cron_lock: lock_discipline "\<lambda>ans. {cron_Lock ans}" False
  by unfold_locales (simp_all add: cron_Lock_def)

lemma overlap_by_failure: "\<exists>s. cron_steps True False lock_start s \<and> is_running s 0 \<and> is_running s 1"
proof -
  let ?s1 = "lock_start\<lparr>holder := Some 0, run_at := (run_at lock_start)(0 := Doing [Finish, Release])\<rparr>"
  let ?s2 = "?s1\<lparr>run_at := (run_at ?s1)(1 := Doing [Finish, Release])\<rparr>"
  have "cron_steps True False lock_start ?s1"
    using starts [of lock_start 0 True Obtained "[Finish, Release]" "\<lambda>ans. {cron_Lock ans}" False]
    by (simp add: lock_start_def cron_Lock_def)
  moreover have "cron_steps True False ?s1 ?s2"
    using starts [of ?s1 1 True "OtherError ''timeout''" "[Finish, Release]" "\<lambda>ans. {cron_Lock ans}" False]
    by (simp add: lock_start_def cron_Lock_def)
  ultimately have "cron_steps True False lock_start ?s2" by (rule rtranclp_trans)
  then show ?thesis by (intro exI [of _ ?s2]) (simp add: is_running_def)
qed

text \<open>
  C33: as long as Redis answers without other errors and no job outlives its lock, at most one
  run of a job is under way at any time, among all processes, and it holds the lock. Without
  either condition the exclusion is lost: when the lock cannot be asked for, the run goes on
  without it, and when it expires, a second run gets it; then two runs can be under way at
  once.
\<close>

theorem cron_runs_exclude_each_other:
  assumes "cron_steps False False lock_start s" "is_running s i"
  shows "holder s = Some i \<and> {j. is_running s j} = {i} \<and>
    (\<exists>s. cron_steps True False lock_start s \<and> is_running s 0 \<and> is_running s 1) \<and>
    (\<exists>s. cron_steps False True lock_start s \<and> is_running s 0 \<and> is_running s 1)"
  using cron_lock.exclusion [OF assms] overlap_by_failure 
    overlap_by_expiry [of "[Release]" "\<lambda>ans. {cron_Lock ans}"] by (simp add: cron_Lock_def)

theorem cron_runs_exclude_each_other_witness:
  "{j. is_running (lock_start\<lparr>holder := Some 3, run_at := (\<lambda>_. Waiting)(3 := Doing [Finish, Release])\<rparr>) j} = {3}"
proof -
  let ?s = "lock_start\<lparr>holder := Some 3, run_at := (\<lambda>_. Waiting)(3 := Doing [Finish, Release])\<rparr>"
  have "cron_steps False False lock_start ?s"
    using starts [of lock_start 3 False Obtained "[Finish, Release]" "\<lambda>ans. {cron_Lock ans}" False]
    by (simp add: lock_start_def cron_Lock_def)
  moreover have "is_running ?s 3" by (simp add: is_running_def)
  ultimately show ?thesis using cron_runs_exclude_each_other [of ?s 3] by simp
qed

end
