(* ===== verification/Cron_Program.thy ===== *)
theory Cron_Program
  imports Cron_Lock
begin

text \<open>
  The program \<^verbatim>\<open>cmd/cron/main.go\<close> over time: \<open>AddSchedule\<close> of \<^verbatim>\<open>pkg/cron.go\<close>, the two jobs it schedules
  every second, their Redis lock of ten seconds and the job \<open>Blank\<close>, which sleeps for ten seconds
  (\<^verbatim>\<open>internal/cron/\<close>). Any number of processes run the program; time is in milliseconds. The cron library
  is the parameter \<open>parse\<close>: the seconds at which an expression fires. Asking Redis for a lock may fail at
  any time, also because the context of the application is cancelled; the job then runs without a lock.
\<close>

section \<open>The schedule\<close>

text \<open>An entry: when it fires, and the lock its job runs under.\<close>

type_synonym entry = "(nat \<Rightarrow> bool) \<times> string"

record Cron =
  entries :: "entry list"

definition NewCronClient :: Cron where
  "NewCronClient = \<lparr>entries = []\<rparr>"

text \<open>\<open>Inl\<close>: \<open>logger.Fatal\<close>.\<close>

definition AddSchedule :: "(string \<Rightarrow> (nat \<Rightarrow> bool) result) \<Rightarrow> string \<Rightarrow> string \<Rightarrow> Cron \<Rightarrow> Cron result" where
  "AddSchedule parse spec job c = (case parse spec of
       Inl e \<Rightarrow> Inl (''error: '' @ e)
     | Inr fires \<Rightarrow> Inr (c\<lparr>entries := entries c @ [(fires, job)]\<rparr>))"

definition cron_schedule :: "(string \<Rightarrow> (nat \<Rightarrow> bool) result) \<Rightarrow> Cron result" where
  "cron_schedule parse = (case AddSchedule parse ''* * * * * *'' ''blank_cron_lock'' NewCronClient of
       Inl e \<Rightarrow> Inl e
     | Inr c \<Rightarrow> AddSchedule parse ''* * * * * *'' ''blank_1_cron_lock'' c)"

section \<open>Runs over time\<close>

abbreviation lock_ttl :: nat where "lock_ttl \<equiv> 10000"
abbreviation blank_sleep :: nat where "blank_sleep \<equiv> 10000"

text \<open>A run knows the lock it has obtained by a token of its own; it has none when asking has failed.\<close>

record job_run =
  token :: "nat option"
  lock_name :: string
  started :: nat

text \<open>\<open>locks\<close> maps a lock's name to the token that holds it and to when it expires; \<open>history\<close> records
  every start of a job, with whether it has the lock; \<open>faults\<close> counts the requests for a lock that failed.\<close>

record cron_world =
  now :: nat
  locks :: "string \<rightharpoonup> nat \<times> nat"
  under_way :: "job_run list"
  next_token :: nat
  history :: "(string \<times> nat \<times> bool) list"
  faults :: nat

definition cron_world_start :: cron_world where
  "cron_world_start = \<lparr>now = 0, locks = Map.empty, under_way = [], next_token = 0, history = [], faults = 0\<rparr>"

definition lock_free :: "string \<Rightarrow> cron_world \<Rightarrow> bool" where
  "lock_free name s \<longleftrightarrow> (case locks s name of None \<Rightarrow> True | Some (_, expires) \<Rightarrow> expires \<le> now s)"

definition set_lock :: "string \<Rightarrow> cron_world \<Rightarrow> cron_world" where
  "set_lock name s = s\<lparr>locks := (locks s)(name \<mapsto> (next_token s, now s + lock_ttl)), next_token := Suc (next_token s)\<rparr>"

text \<open>\<open>fault\<close>: the error that is returned instead of an answer, and whether Redis has set the lock all the
  same, as after a timeout.\<close>

definition Obtain :: "(string \<times> bool) option \<Rightarrow> string \<Rightarrow> cron_world \<Rightarrow> obtain_ans \<times> cron_world" where
  "Obtain fault name s = (case fault of
       Some (e, was_set) \<Rightarrow>
         (OtherError e, (if was_set \<and> lock_free name s then set_lock name s else s)\<lparr>faults := Suc (faults s)\<rparr>)
     | None \<Rightarrow> if lock_free name s then (Obtained, set_lock name s) else (ErrNotObtained, s))"

text \<open>Whether a run still holds its lock; releasing another's lock, an expired one or none does nothing.\<close>

definition holds_lock :: "cron_world \<Rightarrow> job_run \<Rightarrow> bool" where
  "holds_lock s r \<longleftrightarrow> (case locks s (lock_name r) of None \<Rightarrow> False
     | Some (tok, expires) \<Rightarrow> token r = Some tok \<and> now s < expires)"

definition Release_lock :: "job_run \<Rightarrow> cron_world \<Rightarrow> cron_world" where
  "Release_lock r s = (if holds_lock s r then s\<lparr>locks := (locks s)(lock_name r := None)\<rparr> else s)"

definition start_run :: "(string \<times> bool) option \<Rightarrow> string \<Rightarrow> cron_world \<Rightarrow> cron_world" where
  "start_run fault name s = (case Obtain fault name s of (ans, s1) \<Rightarrow>
     if cron_decide ans
     then s1\<lparr>under_way := under_way s1 @
         [\<lparr>token = if ans = Obtained then Some (next_token s) else None, lock_name = name, started = now s\<rparr>],
       history := history s1 @ [(name, now s, ans = Obtained)]\<rparr>
     else s1)"

inductive cron_world_step :: "Cron \<Rightarrow> cron_world \<Rightarrow> cron_world \<Rightarrow> bool" for c where
  time_passes: "cron_world_step c s (s\<lparr>now := Suc (now s)\<rparr>)"
| fires: "(when_due, name) \<in> set (entries c) \<Longrightarrow> when_due (now s div 1000) \<Longrightarrow> cron_world_step c s (start_run fault name s)"
| job_ends: "i < length (under_way s) \<Longrightarrow> started (under_way s ! i) + blank_sleep \<le> now s \<Longrightarrow>
    cron_world_step c s ((Release_lock (under_way s ! i) s)
      \<lparr>under_way := take i (under_way s) @ drop (Suc i) (under_way s)\<rparr>)"

abbreviation cron_world_steps :: "Cron \<Rightarrow> cron_world \<Rightarrow> cron_world \<Rightarrow> bool" where
  "cron_world_steps c \<equiv> (cron_world_step c)\<^sup>*\<^sup>*"

section \<open>Invariant\<close>

text \<open>All starts under a name, and those that had the lock.\<close>

definition starts_of :: "string \<Rightarrow> cron_world \<Rightarrow> nat list" where
  "starts_of name s = map (\<lambda>(_, t, _). t) (filter (\<lambda>(n, _, _). n = name) (history s))"

definition locked_starts :: "string \<Rightarrow> cron_world \<Rightarrow> nat list" where
  "locked_starts name s = map (\<lambda>(_, t, _). t) (filter (\<lambda>(n, _, locked). n = name \<and> locked) (history s))"

definition spaced :: "nat list \<Rightarrow> bool" where
  "spaced ts = sorted_wrt (\<lambda>a b. a + lock_ttl \<le> b) ts"

text \<open>Every start with the lock is covered: its ten seconds are over, or the lock is held until they are.\<close>

definition covered :: "cron_world \<Rightarrow> string \<Rightarrow> nat \<Rightarrow> bool" where
  "covered s name t \<longleftrightarrow> t + lock_ttl \<le> now s \<or> (\<exists>tok. locks s name = Some (tok, t + lock_ttl))"

definition runs_inv :: "cron_world \<Rightarrow> bool" where
  "runs_inv s \<longleftrightarrow> (\<forall>r \<in> set (under_way s). \<forall>tok. token r = Some tok \<longrightarrow> tok < next_token s \<and>
     (\<forall>expires. locks s (lock_name r) = Some (tok, expires) \<longrightarrow> expires = started r + lock_ttl))"

definition cron_inv :: "cron_world \<Rightarrow> bool" where
  "cron_inv s \<longleftrightarrow> (\<forall>name. spaced (locked_starts name s) \<and> (\<forall>t \<in> set (locked_starts name s). covered s name t)) \<and>
     length (filter (\<lambda>(_, _, locked). \<not> locked) (history s)) = faults s \<and> runs_inv s"

lemma locked_starts_frame [simp]:
  "locked_starts n (s\<lparr>now := x\<rparr>) = locked_starts n s" "locked_starts n (s\<lparr>locks := l\<rparr>) = locked_starts n s"
  "locked_starts n (s\<lparr>under_way := u\<rparr>) = locked_starts n s" "locked_starts n (s\<lparr>next_token := k\<rparr>) = locked_starts n s"
  "locked_starts n (s\<lparr>faults := f\<rparr>) = locked_starts n s"
  by (simp_all add: locked_starts_def)

lemma ended_run_lost_lock:
  assumes "runs_inv s" "r \<in> set (under_way s)" "started r + blank_sleep \<le> now s"
  shows "\<not> holds_lock s r"
  using assms by (fastforce simp: runs_inv_def holds_lock_def split: option.splits)

text \<open>What a firing does: nothing while the lock is held, a run with the lock, or a run without it.\<close>

lemma start_run_cases:
  obtains (busy) "start_run fault name s = s"
  | (free) "lock_free name s" "start_run fault name s = (set_lock name s)
      \<lparr>under_way := under_way s @ [\<lparr>token = Some (next_token s), lock_name = name, started = now s\<rparr>],
        history := history s @ [(name, now s, True)]\<rparr>"
  | (fault) s1 where "s1 = s \<or> lock_free name s \<and> s1 = set_lock name s" "start_run fault name s = s1
      \<lparr>faults := Suc (faults s), under_way := under_way s @ [\<lparr>token = None, lock_name = name, started = now s\<rparr>],
        history := history s @ [(name, now s, False)]\<rparr>"
proof (cases fault)
  case None
  show thesis
  proof (cases "lock_free name s")
    case True
    then show thesis using None by (intro free) (simp_all add: start_run_def Obtain_def set_lock_def)
  next
    case False
    then show thesis using None by (intro busy) (simp add: start_run_def Obtain_def)
  qed
next
  case (Some f)
  then show thesis
    by (intro fault [of "if snd f \<and> lock_free name s then set_lock name s else s"])
      (auto simp: start_run_def Obtain_def set_lock_def split: prod.splits)
qed

lemma covered_set_lock:
  assumes "lock_free name s" "covered s n t"
  shows "covered (set_lock name s) n t"
  using assms by (auto simp: covered_def set_lock_def lock_free_def)

lemma covered_now: "covered (set_lock name s) name (now s)"
  by (simp add: covered_def set_lock_def)

lemma free_starts_old: "lock_free name s \<Longrightarrow> covered s name t \<Longrightarrow> t + lock_ttl \<le> now s"
  by (auto simp: covered_def lock_free_def)

lemma runs_inv_set_lock: "runs_inv s \<Longrightarrow> runs_inv (set_lock name s)"
  by (fastforce simp: runs_inv_def set_lock_def)

lemma runs_inv_frame [simp]: "runs_inv (s\<lparr>history := h\<rparr>) = runs_inv s" "runs_inv (s\<lparr>faults := f\<rparr>) = runs_inv s"
  by (simp_all add: runs_inv_def)

lemma cron_inv_start_run:
  assumes "cron_inv s"
  shows "cron_inv (start_run fault name s)"
proof (rule start_run_cases [of fault name s])
  assume "start_run fault name s = s"
  then show ?thesis using assms by simp
next
  assume free: "lock_free name s" and run: "start_run fault name s = (set_lock name s)
      \<lparr>under_way := under_way s @ [\<lparr>token = Some (next_token s), lock_name = name, started = now s\<rparr>],
        history := history s @ [(name, now s, True)]\<rparr>"
  have starts: "locked_starts n (start_run fault name s) = locked_starts n s @ (if n = name then [now s] else [])" for n
    by (simp add: run locked_starts_def)
  have cov: "covered (start_run fault name s) n t \<longleftrightarrow> covered (set_lock name s) n t" for n t by (simp add: run covered_def)
  have "spaced (locked_starts n (start_run fault name s))" for n
    using assms free_starts_old [OF free] by (auto simp: cron_inv_def spaced_def starts sorted_wrt_append)
  moreover have "\<forall>t \<in> set (locked_starts n (start_run fault name s)). covered (start_run fault name s) n t" for n
    using assms covered_set_lock [OF free] covered_now [of name s] unfolding starts cov by (auto simp: cron_inv_def)
  moreover have "runs_inv (start_run fault name s)"
    using runs_inv_set_lock [of s name] assms by (auto simp: cron_inv_def run runs_inv_def set_lock_def)
  ultimately show ?thesis using assms by (simp add: cron_inv_def run set_lock_def)
next
  fix s1
  assume s1: "s1 = s \<or> lock_free name s \<and> s1 = set_lock name s" and run: "start_run fault name s = s1
      \<lparr>faults := Suc (faults s), under_way := under_way s @ [\<lparr>token = None, lock_name = name, started = now s\<rparr>],
        history := history s @ [(name, now s, False)]\<rparr>"
  have starts: "locked_starts n (start_run fault name s) = locked_starts n s" for n
    using s1 by (simp add: run locked_starts_def)
  have cov: "covered (start_run fault name s) n t \<longleftrightarrow> covered s1 n t" for n t by (simp add: run covered_def)
  have "covered s1 n t" if "covered s n t" for n t using s1 that covered_set_lock by blast
  moreover have "runs_inv s1" "under_way s1 = under_way s"
    using s1 runs_inv_set_lock assms by (auto simp: cron_inv_def set_lock_def)
  then have "runs_inv (start_run fault name s)" by (auto simp: run runs_inv_def)
  ultimately show ?thesis using assms by (simp add: cron_inv_def starts cov) (simp add: run)
qed

lemma cron_inv_step: "cron_world_step c s t \<Longrightarrow> cron_inv s \<Longrightarrow> cron_inv t"
proof (induction rule: cron_world_step.induct)
  case (time_passes s)
  then show ?case by (fastforce simp: cron_inv_def covered_def runs_inv_def)
next
  case (fires when_due name s fault)
  then show ?case by (intro cron_inv_start_run)
next
  case (job_ends i s)
  have "under_way s ! i \<in> set (under_way s)" using job_ends(1) by simp
  then have "Release_lock (under_way s ! i) s = s"
    using ended_run_lost_lock job_ends(2,3) by (simp add: Release_lock_def cron_inv_def)
  then show ?case
    using job_ends(3) by (auto simp: cron_inv_def covered_def runs_inv_def dest: in_set_takeD in_set_dropD)
qed

lemma cron_inv_start: "cron_inv cron_world_start"
  by (simp add: cron_inv_def cron_world_start_def locked_starts_def spaced_def runs_inv_def)

interpretation cron_over_time: run_invariant "cron_world_step c" cron_inv cron_world_start for c
  by unfold_locales (fact cron_inv_step cron_inv_start)+

lemma starts_locked:
  assumes "cron_inv s" "faults s = 0"
  shows "starts_of name s = locked_starts name s"
proof -
  have "filter (\<lambda>(_, _, locked). \<not> locked) (history s) = []" using assms by (simp add: cron_inv_def)
  then have "\<forall>(_, _, locked) \<in> set (history s). locked" by (auto simp: filter_empty_conv)
  then have "filter (\<lambda>(n, _, _). n = name) (history s) = filter (\<lambda>(n, _, locked). n = name \<and> locked) (history s)"
    by (intro filter_cong) auto
  then show ?thesis by (simp add: starts_of_def locked_starts_def)
qed

text \<open>A job that is still under way when its lock has expired: another run starts beside it.\<close>

fun elapse :: "nat \<Rightarrow> cron_world \<Rightarrow> cron_world" where
  "elapse 0 s = s"
| "elapse (Suc k) s = elapse k (s\<lparr>now := Suc (now s)\<rparr>)"

lemma elapse_steps: "cron_world_steps c s (elapse k s)"
  by (induction k arbitrary: s) (auto intro: converse_rtranclp_into_rtranclp time_passes)

lemma elapse_now: "elapse k s = s\<lparr>now := now s + k\<rparr>"
  by (induction k arbitrary: s) simp_all

definition every_second :: "string \<Rightarrow> (nat \<Rightarrow> bool) result" where
  "every_second spec = (if spec = ''* * * * * *'' then Inr (\<lambda>_. True) else Inl ''unsupported'')"

definition demo_cron :: Cron where
  "demo_cron = \<lparr>entries = [(\<lambda>_. True, ''blank_cron_lock''), (\<lambda>_. True, ''blank_1_cron_lock'')]\<rparr>"

abbreviation demo_fires :: "(string \<times> bool) option \<Rightarrow> cron_world \<Rightarrow> cron_world" where
  "demo_fires fault \<equiv> start_run fault ''blank_cron_lock''"

definition overrun :: cron_world where
  "overrun = demo_fires None (elapse 10000 (demo_fires None cron_world_start))"

definition unlocked_run :: cron_world where
  "unlocked_run = demo_fires (Some (''timeout'', False)) (demo_fires None cron_world_start)"

lemmas demo_simps = start_run_def Obtain_def lock_free_def set_lock_def elapse_now cron_world_start_def starts_of_def

lemma overrun_state:
  "map started (under_way overrun) = [0, 10000]" "map lock_name (under_way overrun) = [''blank_cron_lock'', ''blank_cron_lock'']"
  "starts_of ''blank_cron_lock'' overrun = [0, 10000]" "now overrun = 10000" "faults overrun = 0"
  by (simp_all add: overrun_def demo_simps)

lemma unlocked_run_state: "starts_of ''blank_cron_lock'' unlocked_run = [0, 0]" "faults unlocked_run = 1"
  by (simp_all add: unlocked_run_def demo_simps)

lemma demo_fire: "cron_world_step demo_cron s (demo_fires fault s)"
  by (rule fires [of "\<lambda>_. True"]) (simp_all add: demo_cron_def)

lemma demo_reachable:
  "cron_world_steps demo_cron cron_world_start overrun" "cron_world_steps demo_cron cron_world_start unlocked_run"
proof -
  let ?s1 = "demo_fires None cron_world_start"
  have 1: "cron_world_steps demo_cron cron_world_start ?s1" by (rule r_into_rtranclp [of "cron_world_step demo_cron", OF demo_fire])
  moreover have "cron_world_steps demo_cron ?s1 (elapse 10000 ?s1)" by (rule elapse_steps)
  moreover have "cron_world_steps demo_cron (elapse 10000 ?s1) overrun"
    unfolding overrun_def by (rule r_into_rtranclp [of "cron_world_step demo_cron", OF demo_fire])
  ultimately show "cron_world_steps demo_cron cron_world_start overrun" by (meson rtranclp_trans)
  have "cron_world_steps demo_cron ?s1 unlocked_run"
    unfolding unlocked_run_def by (rule r_into_rtranclp [of "cron_world_step demo_cron", OF demo_fire])
  with 1 show "cron_world_steps demo_cron cron_world_start unlocked_run" by (meson rtranclp_trans)
qed

lemma history_names:
  assumes "cron_schedule parse = Inr c" "cron_world_steps c cron_world_start s"
  shows "fst ` set (history s) \<subseteq> {''blank_cron_lock'', ''blank_1_cron_lock''}"
  using assms(2)
proof (induction rule: rtranclp_induct)
  case (step s t)
  have names: "snd ` set (entries c) \<subseteq> {''blank_cron_lock'', ''blank_1_cron_lock''}"
    using assms(1) by (auto simp: cron_schedule_def AddSchedule_def NewCronClient_def split: sum.splits)
  from step(2) show ?case
  proof cases
    case (fires when_due name fault)
    then have "name \<in> {''blank_cron_lock'', ''blank_1_cron_lock''}" using names by force
    then show ?thesis using step.IH fires(1) by (cases rule: start_run_cases [of fault name s]) (auto simp: set_lock_def)
  qed (use step.IH in \<open>auto simp: Release_lock_def\<close>)
qed (simp add: cron_world_start_def)

section \<open>Properties\<close>

text \<open>
  C34: the scheduled jobs of all processes together. Although both are due every second, the
  starts of the jobs that have obtained one lock are at least ten seconds apart, among all processes, and no
  other lock is ever used; as many starts come without a lock as requests for one have failed, so that as long as
  Redis answers, all starts under a name are spaced. After a failed request they are not: a job can then start
  at the very moment of another. And a job sleeps as long as its lock lasts, so that a run that
  ends has always lost its lock already, its release does nothing, and the next run may have
  begun beside it, even without a failure.
\<close>

theorem cron_starts_are_spaced:
  assumes "cron_schedule parse = Inr c" "cron_world_steps c cron_world_start s"
  shows "spaced (locked_starts name s) \<and> (faults s = 0 \<longrightarrow> spaced (starts_of name s)) \<and>
    length (filter (\<lambda>(_, _, locked). \<not> locked) (history s)) = faults s \<and>
    (starts_of name s \<noteq> [] \<longrightarrow> name = ''blank_cron_lock'' \<or> name = ''blank_1_cron_lock'') \<and>
    (\<forall>r \<in> set (under_way s). started r + blank_sleep \<le> now s \<longrightarrow> \<not> holds_lock s r \<and> Release_lock r s = s) \<and>
    (\<exists>t. cron_world_steps demo_cron cron_world_start t \<and> starts_of ''blank_cron_lock'' t = [0, 0]) \<and>
    (\<exists>t. cron_world_steps demo_cron cron_world_start t \<and> faults t = 0 \<and>
      map lock_name (under_way t) = [''blank_cron_lock'', ''blank_cron_lock''])"
proof -
  have inv: "cron_inv s" by (rule cron_over_time.reachable [OF assms(2)])
  have "starts_of name s \<noteq> [] \<longrightarrow> name = ''blank_cron_lock'' \<or> name = ''blank_1_cron_lock''"
    using history_names [OF assms] by (force simp: starts_of_def filter_empty_conv)
  moreover have "\<forall>r \<in> set (under_way s). started r + blank_sleep \<le> now s \<longrightarrow> \<not> holds_lock s r \<and> Release_lock r s = s"
    using ended_run_lost_lock inv by (simp add: cron_inv_def Release_lock_def)
  moreover have "faults s = 0 \<longrightarrow> spaced (starts_of name s)" using inv starts_locked [OF inv] by (simp add: cron_inv_def)
  moreover have "\<exists>t. cron_world_steps demo_cron cron_world_start t \<and> starts_of ''blank_cron_lock'' t = [0, 0]"
    by (intro exI [of _ unlocked_run] conjI demo_reachable unlocked_run_state)
  moreover have "\<exists>t. cron_world_steps demo_cron cron_world_start t \<and> faults t = 0 \<and>
      map lock_name (under_way t) = [''blank_cron_lock'', ''blank_cron_lock'']"
    by (intro exI [of _ overrun] conjI demo_reachable overrun_state)
  moreover have "spaced (locked_starts name s)" "length (filter (\<lambda>(_, _, locked). \<not> locked) (history s)) = faults s"
    using inv by (simp_all add: cron_inv_def)
  ultimately show ?thesis by - (intro conjI; assumption)
qed

theorem cron_starts_are_spaced_witness:
  "cron_world_steps demo_cron cron_world_start overrun \<and> spaced (starts_of ''blank_cron_lock'' overrun) \<and>
   starts_of ''blank_cron_lock'' overrun = [0, 10000]"
proof -
  have "cron_schedule every_second = Inr demo_cron"
    by (simp add: cron_schedule_def AddSchedule_def NewCronClient_def every_second_def demo_cron_def)
  from cron_starts_are_spaced [OF this demo_reachable(1)] demo_reachable(1) overrun_state(3,5) show ?thesis by blast
qed

end
