(* ===== verification/Sql_Migrations.thy ===== *)
theory Sql_Migrations
  imports Redis_Lock
begin

text \<open>
  The SQL migrations of \<^verbatim>\<open>pkg/migrations_sql.go\<close>, run at the start of every instance under a Redis lock
  of ten seconds. The migration library \<^verbatim>\<open>pressly/goose\<close> and the database are outside the repository:
  the answers of its \<open>SetDialect\<close> and \<open>Up\<close> are arguments.
\<close>

section \<open>One call\<close>

datatype migrate_result =
  Migrated              \<comment> \<open>\<open>m\<close> is returned\<close>
| NotMigrated           \<comment> \<open>\<open>nil\<close> is returned\<close>
| FatalDialect string   \<comment> \<open>\<open>logger.Fatal\<close>: the process ends, deferred calls are not run\<close>
| FatalUp string

datatype migrate_act =
  LockAsked string | SetBaseFS_nil | SetDialect string | SetTableName string | Up string | LockReleased

text \<open>
  \<open>Migrate(ctx, path, tableNameLock)\<close>: the name of the lock is also that of the version table.
  The answer of the release is only printed.
\<close>

definition Migrate :: "obtain_ans \<Rightarrow> string option \<Rightarrow> string option \<Rightarrow> string \<Rightarrow> string \<Rightarrow>
    migrate_result \<times> migrate_act list" where
  "Migrate ans dialect_err up_err path tableNameLock =
    (case ans of
      ErrNotObtained \<Rightarrow> (NotMigrated, [LockAsked tableNameLock])
    | OtherError _ \<Rightarrow> (NotMigrated, [LockAsked tableNameLock])
    | Obtained \<Rightarrow>
       (let begun = [LockAsked tableNameLock, SetBaseFS_nil, SetDialect ''postgres''] in
        case dialect_err of
          Some e \<Rightarrow> (FatalDialect e, begun)
        | None \<Rightarrow>
           (let upped = begun @ [SetTableName tableNameLock, Up path] in
            case up_err of
              Some e \<Rightarrow> (FatalUp e, upped)
            | None \<Rightarrow> (Migrated, upped @ [LockReleased]))))"

text \<open>
  What an instance does after the lock has answered, whatever the library answers then: it migrates from
  the first call of the library to the return of \<open>Up\<close>, or to the fatal log line that ends it.
\<close>

fun migrate_event :: "migrate_act \<Rightarrow> run_event list" where
  "migrate_event SetBaseFS_nil = [Start]"
| "migrate_event (Up _) = [Finish]"
| "migrate_event LockReleased = [Release]"
| "migrate_event _ = []"

definition sql_script :: lock_script where
  "sql_script ans = {concat (map migrate_event (snd (Migrate ans dialect_err up_err path tbl))) |dialect_err up_err path tbl. True}"

lemma sql_script_simps:
  "sql_script Obtained = {[Start], [Start, Finish], [Start, Finish, Release]}"
  "sql_script ErrNotObtained = {[]}" "sql_script (OtherError e) = {[]}"
proof -
  have "concat (map migrate_event (snd (Migrate Obtained d u p t))) =
      (if d \<noteq> None then [Start] else if u \<noteq> None then [Start, Finish] else [Start, Finish, Release])" for d u p t
    by (auto simp: Migrate_def Let_def split: option.splits)
  then show "sql_script Obtained = {[Start], [Start, Finish], [Start, Finish, Release]}"
    by (auto simp: sql_script_def)
qed (simp_all add: sql_script_def Migrate_def)

abbreviation sql_steps :: "bool \<Rightarrow> bool \<Rightarrow> lock_runs \<Rightarrow> lock_runs \<Rightarrow> bool" where
  "sql_steps may_fail may_expire \<equiv> (lock_step sql_script may_fail may_expire)\<^sup>*\<^sup>*"

interpretation sql_lock: lock_discipline sql_script may_fail
  by unfold_locales (auto simp: sql_script_simps)

section \<open>Properties\<close>

lemma Up_iff [simp]:
  "Up p \<in> set (snd (Migrate ans dialect_err up_err path tbl)) \<longleftrightarrow>
    ans = Obtained \<and> dialect_err = None \<and> p = path"
  by (auto simp: Migrate_def Let_def split: obtain_ans.splits option.splits)

lemma Migrated_iff [simp]:
  "fst (Migrate ans dialect_err up_err path tbl) = Migrated \<longleftrightarrow>
    ans = Obtained \<and> dialect_err = None \<and> up_err = None"
  by (auto simp: Migrate_def Let_def split: obtain_ans.splits option.splits)

lemma LockReleased_iff [simp]:
  "LockReleased \<in> set (snd (Migrate ans dialect_err up_err path tbl)) \<longleftrightarrow>
    fst (Migrate ans dialect_err up_err path tbl) = Migrated"
  by (auto simp: Migrate_def Let_def split: obtain_ans.splits option.splits)

text \<open>An instance that is refused the lock is done while the other still migrates.\<close>

lemma refused_goes_on:
  "\<exists>s. sql_steps False False lock_start s \<and> is_running s 0 \<and> run_at s 1 = Doing []"
proof -
  let ?s1 = "lock_start\<lparr>holder := Some 0, run_at := (run_at lock_start)(0 := Doing [Finish, Release])\<rparr>"
  let ?s2 = "?s1\<lparr>run_at := (run_at ?s1)(1 := Doing [])\<rparr>"
  have "sql_steps False False lock_start ?s1"
    using starts [of lock_start 0 False Obtained "[Finish, Release]" sql_script False]
    by (simp add: lock_start_def sql_script_simps)
  moreover have "lock_step sql_script False False ?s1 ?s2"
    using asked [of ?s1 1 False ErrNotObtained "[]" sql_script False] by (simp add: lock_start_def sql_script_simps)
  ultimately have "sql_steps False False lock_start ?s2" by simp
  then show ?thesis by (intro exI [of _ ?s2]) (simp add: is_running_def)
qed

lemma Migrate_outcomes:
  "(fst (Migrate ans dialect_err up_err path tbl) = Migrated \<longleftrightarrow>
      ans = Obtained \<and> dialect_err = None \<and> up_err = None) \<and>
   (LockReleased \<in> set (snd (Migrate ans dialect_err up_err path tbl)) \<longleftrightarrow>
      fst (Migrate ans dialect_err up_err path tbl) = Migrated) \<and>
   count_list (snd (Migrate ans dialect_err up_err path tbl)) (Up path) =
      (if ans = Obtained \<and> dialect_err = None then 1 else 0)"
  by (auto simp: Migrate_def Let_def split: obtain_ans.splits option.splits)

text \<open>
  C35: as long as the lock does not expire, at most one instance migrates at any time, and it holds
  the lock, also when Redis fails or an instance dies in the middle (unlike for the scheduled jobs:
  an instance that cannot ask for the lock does not migrate). Without that condition two instances
  can migrate at once, since nothing stops a migration after the ten seconds of its lock. An
  instance that was refused the lock does not wait: it is done with \<open>Migrate\<close> while the other
  one is still migrating. A call returns the migrations exactly when it has the lock and the
  library reported no error, and exactly then it has released the lock: a failed migration ends
  the process with the lock still held, for the rest of its ten seconds. The script directory
  is applied at most once, and only under the lock.
\<close>

theorem sql_migrations_exclude_each_other:
  assumes "sql_steps may_fail False lock_start s" "is_running s i"
  shows "holder s = Some i \<and> {j. is_running s j} = {i} \<and>
    (\<exists>s. sql_steps False True lock_start s \<and> is_running s 0 \<and> is_running s 1) \<and>
    (\<exists>s. sql_steps False False lock_start s \<and> is_running s 0 \<and> run_at s 1 = Doing []) \<and>
    (fst (Migrate ans dialect_err up_err path tbl) = Migrated \<longleftrightarrow>
      ans = Obtained \<and> dialect_err = None \<and> up_err = None) \<and>
    (LockReleased \<in> set (snd (Migrate ans dialect_err up_err path tbl)) \<longleftrightarrow>
      fst (Migrate ans dialect_err up_err path tbl) = Migrated) \<and>
    count_list (snd (Migrate ans dialect_err up_err path tbl)) (Up path) =
      (if ans = Obtained \<and> dialect_err = None then 1 else 0)"
  using sql_lock.exclusion [OF assms] overlap_by_expiry [of "[Release]" sql_script] refused_goes_on Migrate_outcomes
  by (simp add: sql_script_simps)

theorem sql_migrations_exclude_each_other_witness:
  "{j. is_running (lock_start\<lparr>holder := Some 0,
      run_at := (\<lambda>_. Waiting)(0 := Doing [Finish, Release], 1 := Doing [])\<rparr>) j} = {0}"
proof -
  let ?s1 = "lock_start\<lparr>holder := Some 0, run_at := (\<lambda>_. Waiting)(0 := Doing [Finish, Release])\<rparr>"
  let ?s2 = "?s1\<lparr>run_at := (run_at ?s1)(1 := Doing [])\<rparr>"
  have "sql_steps True False lock_start ?s1"
    using starts [of lock_start 0 True Obtained "[Finish, Release]" sql_script False]
    by (simp add: lock_start_def sql_script_simps)
  moreover have "lock_step sql_script True False ?s1 ?s2"
    using asked [of ?s1 1 True "OtherError ''timeout''" "[]" sql_script False] by (simp add: sql_script_simps)
  ultimately have "sql_steps True False lock_start ?s2" by simp
  moreover have "is_running ?s2 0" by (simp add: is_running_def)
  ultimately show ?thesis using sql_migrations_exclude_each_other [of True ?s2 0] by simp
qed

end
