(* ===== verification/Memory_Tools.thy ===== *)
theory Memory_Tools
  imports Prelude "HOL-Library.Word"
begin

text \<open>
  The memory tools: the collector trigger of \<^verbatim>\<open>pkg/custom_gc.go\<close> and the program \<^verbatim>\<open>cmd/t/main.go\<close>,
  at the widths of the Go code: \<open>uint64\<close> sizes and \<open>byte\<close>s. What \<open>runtime.ReadMemStats\<close> reports
  is an argument.
\<close>

type_synonym uint64 = "64 word"
type_synonym byte = "8 word"

section \<open>The collector trigger\<close>

record MemStats =
  Sys :: uint64
  HeapAlloc :: uint64
  Alloc :: uint64

record memoryManager =
  heapSizePercent :: uint64

definition newMemoryManager :: "uint64 \<Rightarrow> memoryManager" where
  "newMemoryManager p = \<lparr>heapSizePercent = p\<rparr>"

text \<open>Whether \<open>debug.FreeOSMemory\<close> is called.\<close>

definition checkAndRunGC :: "memoryManager \<Rightarrow> MemStats \<Rightarrow> bool" where
  "checkAndRunGC m stats \<longleftrightarrow> Sys stats * heapSizePercent m div 100 \<le> HeapAlloc stats"

text \<open>The goroutine of \<open>MemoryCompactionCycle\<close>: what its select receives, in order; the result
  is how often the collector ran and whether the goroutine has ended.\<close>

datatype gc_input = GcClosed | GcCtxDone | GcTick MemStats

fun compaction_loop :: "memoryManager \<Rightarrow> gc_input list \<Rightarrow> nat \<times> bool" where
  "compaction_loop m [] = (0, False)"
| "compaction_loop m (GcTick stats # is) =
     (let (n, e) = compaction_loop m is in (if checkAndRunGC m stats then Suc n else n, e))"
| "compaction_loop m (_ # is) = (0, True)"

definition MemoryCompactionCycle :: "uint64 \<Rightarrow> gc_input list \<Rightarrow> nat \<times> bool" where
  "MemoryCompactionCycle p is = compaction_loop (newMemoryManager p) is"

section \<open>Blobs and heap sizes\<close>

text \<open>\<open>newBlob\<close>: the loop writes the first \<open>kb\<close> of the \<open>kb * 1024\<close> bytes.\<close>

fun blob_loop :: "nat \<Rightarrow> nat \<Rightarrow> byte list \<Rightarrow> byte list" where
  "blob_loop i 0 b = b"
| "blob_loop i (Suc n) b = blob_loop (Suc i) n (b[i := word_of_nat i mod 255])"

definition newBlob :: "nat \<Rightarrow> byte list" where
  "newBlob kb = blob_loop 0 kb (replicate (kb * 1024) 0)"

definition blob_String :: "byte list \<Rightarrow> string" where
  "blob_String b = ''Blob('' @ itoa (int (length b div 1024)) @ '' KB)''"

definition getAlloc :: "MemStats \<Rightarrow> uint64" where
  "getAlloc m = Alloc m div 1024"

definition heapDelta :: "uint64 \<Rightarrow> MemStats \<Rightarrow> uint64" where
  "heapDelta prev m = (let cur = getAlloc m in if cur < prev then 0 else cur - prev)"

section \<open>Weak pointers\<close>

text \<open>
  \<^verbatim>\<open>cmd/t/main.go\<close>. A weak pointer remembers which object it was made of and does not keep it: its
  \<open>Value\<close> is the object as long as it is in the heap. The collector is a parameter, given the
  objects that are still referenced: it keeps those, and may drop any other.
\<close>

record Data =
  data_Value :: int
  data_Blob :: ptr

definition createWeak :: "ptr \<Rightarrow> ptr" where
  "createWeak d = d"

definition weak_Value :: "Data heap \<Rightarrow> ptr \<Rightarrow> Data option" where
  "weak_Value h w = load h w"

definition gc_laws :: "(addr set \<Rightarrow> Data heap \<Rightarrow> Data heap) \<Rightarrow> bool" where
  "gc_laws gc \<longleftrightarrow> (\<forall>roots h a. cells (gc roots h) a = cells h a \<or> a \<notin> roots \<and> cells (gc roots h) a = None)"

datatype t_out = BeforeGC "Data option" | AfterGC "Data option" | HeapDelta uint64 | PrintWeak ptr

text \<open>\<open>background\<close>: what the collector did on its own before the first print; \<open>m0\<close> and \<open>m1\<close>: the
  statistics at both readings. After \<open>createWeak\<close> nothing references the object.\<close>

definition t_main :: "(addr set \<Rightarrow> Data heap \<Rightarrow> Data heap) \<Rightarrow> (addr set \<Rightarrow> Data heap \<Rightarrow> Data heap) \<Rightarrow>
    MemStats \<Rightarrow> MemStats \<Rightarrow> t_out list" where
  "t_main background gc m0 m1 =
     (let heapSize = getAlloc m0;
        (d, h) = new_obj \<lparr>data_Value = 42, data_Blob = None\<rparr> empty_heap;
        wb = createWeak d;
        h1 = background {} h;
        h2 = gc {} h1
      in [BeforeGC (weak_Value h1 wb), AfterGC (weak_Value h2 wb), HeapDelta (heapDelta heapSize m1),
          PrintWeak wb, PrintWeak wb])"

section \<open>Lemmas\<close>

lemma checkAndRunGC_unat:
  assumes "unat (Sys stats) * unat (heapSizePercent m) < 2 ^ 64"
  shows "checkAndRunGC m stats \<longleftrightarrow>
    unat (Sys stats) * unat (heapSizePercent m) div 100 \<le> unat (HeapAlloc stats)"
proof -
  have "unat (Sys stats * heapSizePercent m) = unat (Sys stats) * unat (heapSizePercent m)"
    using assms unat_mult_lem [of "Sys stats" "heapSizePercent m"] by simp
  then show ?thesis by (simp add: checkAndRunGC_def word_le_nat_alt unat_div)
qed

fun is_tick :: "gc_input \<Rightarrow> bool" where
  "is_tick (GcTick _) = True"
| "is_tick _ = False"

fun tick_over :: "nat \<Rightarrow> gc_input \<Rightarrow> bool" where
  "tick_over p (GcTick stats) \<longleftrightarrow> unat (Sys stats) * p div 100 \<le> unat (HeapAlloc stats)"
| "tick_over p _ \<longleftrightarrow> False"

fun tick_fits :: "nat \<Rightarrow> gc_input \<Rightarrow> bool" where
  "tick_fits p (GcTick stats) \<longleftrightarrow> unat (Sys stats) * p < 2 ^ 64"
| "tick_fits p _ \<longleftrightarrow> True"

lemma compaction_loop_count:
  assumes "list_all (tick_fits (unat (heapSizePercent m))) is"
  shows "compaction_loop m is =
    (length (filter (tick_over (unat (heapSizePercent m))) (takeWhile is_tick is)), \<not> list_all is_tick is)"
  using assms
proof (induction "is")
  case (Cons i "is")
  then show ?case by (cases i) (auto simp: checkAndRunGC_unat)
qed simp

lemma blob_loop_length [simp]: "length (blob_loop i n b) = length b"
  by (induction n arbitrary: i b) auto

lemma blob_loop_nth:
  "j < length b \<Longrightarrow> blob_loop i n b ! j = (if i \<le> j \<and> j < i + n then word_of_nat j mod 255 else b ! j)"
proof (induction n arbitrary: i b)
  case (Suc n)
  then show ?case by (cases "j = i") (auto simp: nth_list_update)
qed auto

lemma byte_mod: "unat ((word_of_nat j :: byte) mod 255) = j mod 256 mod 255"
  by (simp add: unat_mod unat_of_nat)

section \<open>Properties\<close>

text \<open>
  C36: as long as the product of size and percentage fits into 64 bits, the compaction
  goroutine runs the collector exactly at the ticks where the heap has reached the given
  percentage of the memory, up to the first close or cancellation, which ends it. When the
  product does not fit it wraps, and the collector may run on an empty heap.
\<close>

theorem MemoryCompactionCycle_threshold:
  assumes "list_all (tick_fits (unat p)) is"
  shows "MemoryCompactionCycle p is =
      (length (filter (tick_over (unat p)) (takeWhile is_tick is)), \<not> list_all is_tick is) \<and>
    checkAndRunGC (newMemoryManager 32) \<lparr>Sys = 2 ^ 59, HeapAlloc = 0, Alloc = 0\<rparr>"
  using compaction_loop_count [of "newMemoryManager p" "is"] assms
  by (simp add: MemoryCompactionCycle_def newMemoryManager_def checkAndRunGC_def)

text \<open>
  A blob of \<open>kb\<close> kilobytes has \<open>kb * 1024\<close> bytes; the loop never leaves the slice, byte
  \<open>i\<close> of the first \<open>kb\<close> is \<open>i\<close> truncated to a byte and then taken modulo 255, and the others
  are zero. The reported heap growth never wraps: it is the difference, or zero when the heap
  has shrunk.
\<close>

lemma blob_and_heap_delta:
  "length (newBlob kb) = kb * 1024 \<and> kb \<le> length (newBlob kb) \<and>
   map unat (newBlob kb) = map (\<lambda>i. i mod 256 mod 255) [0..<kb] @ replicate (kb * 1023) 0 \<and>
   unat (heapDelta prev m) = unat (getAlloc m) - unat prev"
proof -
  have "map unat (newBlob kb) = map (\<lambda>i. i mod 256 mod 255) [0..<kb] @ replicate (kb * 1023) 0"
    by (rule nth_equalityI) (auto simp: newBlob_def blob_loop_nth byte_mod nth_append)
  moreover have "unat (heapDelta prev m) = unat (getAlloc m) - unat prev"
    by (auto simp: heapDelta_def Let_def word_less_nat_alt unat_sub word_le_nat_alt)
  ultimately show ?thesis by (simp add: newBlob_def)
qed

text \<open>
  The program of \<^verbatim>\<open>cmd/t\<close> prints the object or nil, and never the object again once it was nil; and it prints
  the same weak pointer twice, whether or not the object is gone.
\<close>

lemma gc_lawsD: "gc_laws gc \<Longrightarrow> cells (gc roots h) a = cells h a \<or> cells (gc roots h) a = None"
  unfolding gc_laws_def by metis

lemma t_main_output:
  assumes "gc_laws background" "gc_laws gc"
  shows "\<exists>before after. t_main background gc m0 m1 =
      [BeforeGC before, AfterGC after, HeapDelta (heapDelta (getAlloc m0) m1), PrintWeak (Some 0), PrintWeak (Some 0)] \<and>
    (before = None \<or> before = Some \<lparr>data_Value = 42, data_Blob = None\<rparr>) \<and> (after = None \<or> after = before)"
proof -
  let ?h = "halloc \<lparr>data_Value = 42, data_Blob = None\<rparr> empty_heap"
  have "cells ?h 0 = Some \<lparr>data_Value = 42, data_Blob = None\<rparr>" by (simp add: halloc_def empty_heap_def)
  moreover have "cells (background {} ?h) 0 = cells ?h 0 \<or> cells (background {} ?h) 0 = None"
    by (rule gc_lawsD [OF assms(1)])
  moreover have "cells (gc {} (background {} ?h)) 0 = cells (background {} ?h) 0 \<or> cells (gc {} (background {} ?h)) 0 = None"
    by (rule gc_lawsD [OF assms(2)])
  ultimately show ?thesis
    by (auto simp: t_main_def new_obj_def createWeak_def weak_Value_def load_def empty_heap_def)
qed

theorem MemoryCompactionCycle_threshold_witness:
  "MemoryCompactionCycle 10 [GcTick \<lparr>Sys = 1000, HeapAlloc = 100, Alloc = 0\<rparr>,
     GcTick \<lparr>Sys = 1000, HeapAlloc = 99, Alloc = 0\<rparr>, GcClosed] = (1, True)"
  using MemoryCompactionCycle_threshold [of 10 "[GcTick \<lparr>Sys = 1000, HeapAlloc = 100, Alloc = 0\<rparr>,
     GcTick \<lparr>Sys = 1000, HeapAlloc = 99, Alloc = 0\<rparr>, GcClosed]"]
  by simp

end
