(* ===== verification/Websocket.thy ===== *)
theory Websocket
  imports Prelude
begin

text \<open>
  The WebSocket echo service: the hub and the write pump of \<^verbatim>\<open>server/websocket_server.go\<close>, the
  message router of \<^verbatim>\<open>internal/websocket_handler/websocket.go\<close> and the connection handler \<open>Ws\<close> of
  \<^verbatim>\<open>internal/websocket_handler/echo_app.go\<close>. One connection is followed: its read loop and its
  pump are two goroutines that share the channel \<open>responses\<close>; the shutdown of the process, the
  collection of connections and the other connections act in between.

  \<^verbatim>\<open>gorilla/websocket\<close> is outside the repository: what a read returns is an input, and its two
  error predicates are the parameter \<open>close_ops\<close>. Decoding JSON into the two message structs is the
  parameter \<open>json\<close>. Bytes are numbers below 256.
\<close>

type_synonym bytes = "nat list"
type_synonym client = addr

record Message =
  msg_Type :: int
  msg_Data :: bytes

text \<open>The opcodes and close codes the code names.\<close>

abbreviation CloseMessage :: int where "CloseMessage \<equiv> 8"
abbreviation CloseGoingAway :: int where "CloseGoingAway \<equiv> 1001"
abbreviation CloseNoStatusReceived :: int where "CloseNoStatusReceived \<equiv> 1005"
abbreviation CloseAbnormalClosure :: int where "CloseAbnormalClosure \<equiv> 1006"

section \<open>The hub\<close>

record Hub =
  clients :: "client \<rightharpoonup> bool"

definition NewHub :: Hub where
  "NewHub = \<lparr>clients = Map.empty\<rparr>"

definition hub_Register :: "client \<Rightarrow> Hub \<Rightarrow> Hub" where
  "hub_Register c h = h\<lparr>clients := (clients h)(c \<mapsto> True)\<rparr>"

definition hub_Unregister :: "client \<Rightarrow> Hub \<Rightarrow> Hub" where
  "hub_Unregister c h = (if clients h c \<noteq> None then h\<lparr>clients := (clients h)(c := None)\<rparr> else h)"

text \<open>The loop ranges over the map in some order; \<open>close_err\<close> is what \<open>conn.Close\<close> of a client
  returns. The result has the connections on which \<open>Close\<close> was called.\<close>

fun collect_loop :: "(client \<Rightarrow> string option) \<Rightarrow> client list \<Rightarrow> Hub \<Rightarrow> Hub \<times> client list" where
  "collect_loop close_err [] h = (h, [])"
| "collect_loop close_err (c # cs) h =
     (let h1 = (if close_err c \<noteq> None then h else h\<lparr>clients := (clients h)(c := None)\<rparr>);
          (h2, called) = collect_loop close_err cs h1
      in (h2, c # called))"

text \<open>A range over a map visits every key once.\<close>

definition range_order :: "Hub \<Rightarrow> client list \<Rightarrow> bool" where
  "range_order h cs \<longleftrightarrow> distinct cs \<and> set cs = dom (clients h)"

definition CollectGarbageConnections ::
  "(client \<Rightarrow> string option) \<Rightarrow> client list \<Rightarrow> Hub \<Rightarrow> Hub \<times> client list" where
  "CollectGarbageConnections close_err order h = collect_loop close_err order h"

section \<open>The router\<close>

datatype Routable =
    FirstRequestWsMessage (Routing: string)
  | SecondRequestWsMessage (Text: string) (Routing: string)

fun Route :: "Routable \<Rightarrow> string" where
  "Route (FirstRequestWsMessage _) = ''first''"
| "Route (SecondRequestWsMessage _ _) = ''second''"

record json =
  unmarshal_first :: "bytes \<Rightarrow> string result"
  unmarshal_second :: "bytes \<Rightarrow> (string \<times> string) result"

definition AssertMessageType :: "json \<Rightarrow> bytes \<Rightarrow> Routable result" where
  "AssertMessageType js m = (case unmarshal_first js m of
       Inl err \<Rightarrow> Inl err
     | Inr routing \<Rightarrow>
         if routing = ''second''
         then (case unmarshal_second js m of Inl err \<Rightarrow> Inl err
           | Inr (text, r) \<Rightarrow> Inr (SecondRequestWsMessage text r))
         else Inl ''unknown message type'')"

type_synonym WsRouter = "string \<rightharpoonup> (Routable \<Rightarrow> unit result)"

text \<open>\<open>None\<close>: the call of a missing route panics.\<close>

definition HandleMessage :: "WsRouter \<Rightarrow> Routable \<Rightarrow> unit result option" where
  "HandleMessage routes m = map_option (\<lambda>f. f m) (routes (Route m))"

definition SecondHandler :: "Routable \<Rightarrow> unit result" where
  "SecondHandler m = Inr ()"

definition server_routes :: WsRouter where
  "server_routes = [''second'' \<mapsto> SecondHandler]"

text \<open>The struct \<open>Handlers\<close>: its router is nil until the routes are registered, and a message that is
  routed before that panics.\<close>

record ('d, 'u) ws_Handlers =
  ws_dig :: 'd
  ws_hub :: Hub
  ws_upgrader :: 'u
  wsrouter :: "WsRouter option"

definition ws_NewHandlers :: "'d \<Rightarrow> Hub \<Rightarrow> 'u \<Rightarrow> ('d, 'u) ws_Handlers" where
  "ws_NewHandlers d h u = \<lparr>ws_dig = d, ws_hub = h, ws_upgrader = u, wsrouter = None\<rparr>"

definition newWsRouter :: "(string \<rightharpoonup> (Routable \<Rightarrow> unit result)) \<Rightarrow> WsRouter" where
  "newWsRouter routes = routes"

definition RegisterWsRoutes :: "WsRouter \<Rightarrow> ('d, 'u) ws_Handlers \<Rightarrow> ('d, 'u) ws_Handlers" where
  "RegisterWsRoutes routes h = h\<lparr>wsrouter := Some (newWsRouter routes)\<rparr>"

definition route_message :: "('d, 'u) ws_Handlers \<Rightarrow> Routable \<Rightarrow> unit result option" where
  "route_message h m = Option.bind (wsrouter h) (\<lambda>routes. HandleMessage routes m)"

lemma registered_routes_answer:
  "AssertMessageType js b = Inr m \<Longrightarrow> route_message (RegisterWsRoutes server_routes (ws_NewHandlers d h u)) m = Some (Inr ())"
  "route_message (ws_NewHandlers d h u) m = None"
  by (auto simp: AssertMessageType_def route_message_def RegisterWsRoutes_def newWsRouter_def ws_NewHandlers_def
      HandleMessage_def server_routes_def SecondHandler_def split: sum.splits if_splits)

section \<open>What the read loop makes of a read\<close>

definition decode_error :: bytes where
  "decode_error =
    [208, 158, 209, 136, 208, 184, 208, 177, 208, 186, 208, 176, 32, 208, 191, 209, 128,
     208, 184, 32, 208, 180, 208, 181, 208, 186, 208, 190, 208, 180, 208, 184, 209, 128,
     208, 190, 208, 178, 208, 176, 208, 189, 208, 184, 208, 184, 32, 209, 129, 208, 190,
     208, 190, 208, 177, 209, 137, 208, 181, 208, 189, 208, 184, 209, 143]"

definition handle_error :: bytes where
  "handle_error =
    [208, 158, 209, 136, 208, 184, 208, 177, 208, 186, 208, 176, 32, 208, 191, 209, 128,
     208, 184, 32, 208, 190, 208, 177, 209, 128, 208, 176, 208, 177, 208, 190, 209, 130,
     208, 186, 208, 181, 32, 209, 129, 208, 190, 208, 190, 208, 177, 209, 137, 208, 181,
     208, 189, 208, 184, 209, 143]"

datatype decision = Leave | Send Message bool | Crash      \<comment> \<open>whether the loop goes on\<close>

definition on_message :: "json \<Rightarrow> WsRouter \<Rightarrow> bool \<Rightarrow> int \<Rightarrow> bytes \<Rightarrow> decision" where
  "on_message js routes done messageType message = (case AssertMessageType js message of
       Inl _ \<Rightarrow> Send \<lparr>msg_Type = messageType, msg_Data = decode_error\<rparr> True
     | Inr msg \<Rightarrow> (case HandleMessage routes msg of
           None \<Rightarrow> Crash
         | Some (Inl _) \<Rightarrow> Send \<lparr>msg_Type = messageType, msg_Data = handle_error\<rparr> True
         | Some (Inr _) \<Rightarrow>
             if done then Send \<lparr>msg_Type = CloseMessage, msg_Data = []\<rparr> False
             else Send \<lparr>msg_Type = messageType, msg_Data = message\<rparr> True))"

record 'e close_ops =
  IsCloseError :: "'e \<Rightarrow> int list \<Rightarrow> bool"
  IsUnexpectedCloseError :: "'e \<Rightarrow> int list \<Rightarrow> bool"

text \<open>A read returns a message, or an error beside a type and what was read; on a connection
  that has failed before it may panic.\<close>

datatype 'e read = ReadMessage int bytes | ReadError 'e int bytes | ReadPanic

fun on_read :: "'e close_ops \<Rightarrow> json \<Rightarrow> WsRouter \<Rightarrow> bool \<Rightarrow> 'e read \<Rightarrow> decision" where
  "on_read ops js routes done (ReadMessage t m) = on_message js routes done t m"
| "on_read ops js routes done (ReadError err t m) =
     (if IsCloseError ops err [CloseNoStatusReceived, CloseAbnormalClosure] then Leave
      else if IsUnexpectedCloseError ops err [CloseGoingAway] then on_message js routes done t m
      else Leave)"
| "on_read ops js routes done ReadPanic = Crash"

section \<open>A connection\<close>

datatype reader_pc = RRead | RSend Message bool | RClose | RWait | RUnregister | RConnClose | RDone

datatype pump_end = Drained | FatherDone | PingFailed

datatype pump_pc = PNone | PSelect | PExit pump_end

text \<open>\<open>reads\<close>, \<open>written\<close>, \<open>close_frames\<close> and \<open>crashed\<close> record what happened: the reads with whether
  the process was shutting down, the calls of \<open>WriteMessage\<close> for messages of the channel and for the
  closing frame, and whether the read loop has panicked.\<close>

record 'e ws =
  reader :: reader_pc
  pump :: pump_pc
  responses :: "Message list"
  resp_closed :: bool
  father_done :: bool
  conn_closed :: bool
  hub :: Hub
  reads :: "(bool \<times> 'e read) list"
  written :: "Message list"
  close_frames :: nat
  crashed :: bool

abbreviation responses_cap :: nat where
  "responses_cap \<equiv> 256"

text \<open>The handler up to its loop, for what \<open>Upgrade\<close> and \<open>SetReadDeadline\<close> return.\<close>

definition Ws :: "client \<Rightarrow> string option \<Rightarrow> string option \<Rightarrow> Hub \<Rightarrow> 'e ws" where
  "Ws c upgrade_err deadline_err h =
     (let s = \<lparr>reader = RRead, pump = PSelect, responses = [], resp_closed = False,
        father_done = False, conn_closed = False, hub = hub_Register c h, reads = [],
        written = [], close_frames = 0, crashed = False\<rparr> in
      if upgrade_err \<noteq> None then s\<lparr>reader := RDone, pump := PNone, hub := h, conn_closed := True\<rparr>
      else if deadline_err \<noteq> None then s\<lparr>reader := RUnregister, pump := PNone\<rparr>
      else s)"

fun after_read :: "decision \<Rightarrow> 'e ws \<Rightarrow> 'e ws" where
  "after_read Leave s = s\<lparr>reader := RClose\<rparr>"
| "after_read (Send m k) s = s\<lparr>reader := RSend m k\<rparr>"
| "after_read Crash s = s\<lparr>reader := RUnregister, crashed := True\<rparr>"

inductive ws_step ::
  "'e close_ops \<Rightarrow> json \<Rightarrow> WsRouter \<Rightarrow> client \<Rightarrow> 'e ws \<Rightarrow> 'e ws \<Rightarrow> bool" for ops js routes c where
  read: "reader s = RRead \<Longrightarrow>
    ws_step ops js routes c s
      (after_read (on_read ops js routes (father_done s) r) (s\<lparr>reads := reads s @ [(father_done s, r)]\<rparr>))"
| send: "reader s = RSend m k \<Longrightarrow> length (responses s) < responses_cap \<Longrightarrow>
    ws_step ops js routes c s
      (s\<lparr>reader := if k then RRead else RClose, responses := responses s @ [m]\<rparr>)"
| close_responses: "reader s = RClose \<Longrightarrow>
    ws_step ops js routes c s (s\<lparr>reader := RWait, resp_closed := True\<rparr>)"
| wait: "reader s = RWait \<Longrightarrow> pump s = PExit e \<Longrightarrow> ws_step ops js routes c s (s\<lparr>reader := RUnregister\<rparr>)"
| unregister: "reader s = RUnregister \<Longrightarrow>
    ws_step ops js routes c s (s\<lparr>reader := RConnClose, hub := hub_Unregister c (hub s)\<rparr>)"
| conn_close: "reader s = RConnClose \<Longrightarrow>
    ws_step ops js routes c s (s\<lparr>reader := RDone, conn_closed := True\<rparr>)"
| pump_father: "pump s = PSelect \<Longrightarrow> father_done s \<Longrightarrow>
    ws_step ops js routes c s (s\<lparr>pump := PExit FatherDone\<rparr>)"
| pump_write: "pump s = PSelect \<Longrightarrow> responses s = m # ms \<Longrightarrow>
    ws_step ops js routes c s (s\<lparr>responses := ms, written := written s @ [m]\<rparr>)"
| pump_close: "pump s = PSelect \<Longrightarrow> responses s = [] \<Longrightarrow> resp_closed s \<Longrightarrow>
    ws_step ops js routes c s (s\<lparr>pump := PExit Drained, close_frames := Suc (close_frames s)\<rparr>)"
| pump_ping_fails: "pump s = PSelect \<Longrightarrow> ws_step ops js routes c s (s\<lparr>pump := PExit PingFailed\<rparr>)"
| father_cancelled: "ws_step ops js routes c s (s\<lparr>father_done := True\<rparr>)"
| collect: "range_order (hub s) order \<Longrightarrow> CollectGarbageConnections close_err order (hub s) = (h, called) \<Longrightarrow>
    ws_step ops js routes c s
      (s\<lparr>hub := h, conn_closed := conn_closed s \<or> c \<in> set called \<and> close_err c = None\<rparr>)"
| other_arrives: "c' \<noteq> c \<Longrightarrow> ws_step ops js routes c s (s\<lparr>hub := hub_Register c' (hub s)\<rparr>)"
| other_leaves: "c' \<noteq> c \<Longrightarrow> ws_step ops js routes c s (s\<lparr>hub := hub_Unregister c' (hub s)\<rparr>)"

abbreviation ws_steps ::
  "'e close_ops \<Rightarrow> json \<Rightarrow> WsRouter \<Rightarrow> client \<Rightarrow> 'e ws \<Rightarrow> 'e ws \<Rightarrow> bool" where
  "ws_steps ops js routes c \<equiv> (ws_step ops js routes c)\<^sup>*\<^sup>*"

section \<open>Invariants\<close>

lemma collect_loop_spec:
  "collect_loop close_err cs h =
     (h\<lparr>clients := \<lambda>c. if c \<in> set cs \<and> close_err c = None then None else clients h c\<rparr>, cs)"
  by (induction cs arbitrary: h) (auto simp: fun_eq_iff split_beta Let_def)

lemma clients_collect:
  assumes "CollectGarbageConnections close_err order h = (h', called)"
  shows "called = order \<and> clients h' x = (if x \<in> set order \<and> close_err x = None then None else clients h x)"
  using assms by (auto simp: CollectGarbageConnections_def collect_loop_spec)

lemma hub_simps [simp]:
  "clients (hub_Register c h) = (clients h)(c \<mapsto> True)"
  "clients (hub_Unregister c h) = (clients h)(c := None)"
  by (auto simp: hub_Register_def hub_Unregister_def fun_eq_iff)

fun pending :: "reader_pc \<Rightarrow> Message list" where
  "pending (RSend m _) = [m]"
| "pending _ = []"

text \<open>The answer to a read, if it has one.\<close>

definition reply :: "'e close_ops \<Rightarrow> json \<Rightarrow> WsRouter \<Rightarrow> bool \<times> 'e read \<Rightarrow> Message list" where
  "reply ops js routes = (\<lambda>(done, r). case on_read ops js routes done r of Send m _ \<Rightarrow> [m] | _ \<Rightarrow> [])"

abbreviation replies :: "'e close_ops \<Rightarrow> json \<Rightarrow> WsRouter \<Rightarrow> 'e ws \<Rightarrow> Message list" where
  "replies ops js routes s \<equiv> concat (map (reply ops js routes) (reads s))"

definition inv_order :: "'e close_ops \<Rightarrow> json \<Rightarrow> WsRouter \<Rightarrow> 'e ws \<Rightarrow> bool" where
  "inv_order ops js routes s \<longleftrightarrow>
     written s @ responses s @ pending (reader s) = replies ops js routes s \<and>
     length (responses s) \<le> responses_cap"

fun leaving :: "reader_pc \<Rightarrow> bool" where
  "leaving RUnregister = True"
| "leaving RConnClose = True"
| "leaving RDone = True"
| "leaving _ = False"

fun exited :: "pump_pc \<Rightarrow> bool" where
  "exited (PExit _) = True"
| "exited _ = False"

definition inv_end :: "client \<Rightarrow> 'e ws \<Rightarrow> bool" where
  "inv_end c s \<longleftrightarrow>
     (resp_closed s \<longrightarrow> reader s = RWait \<or> leaving (reader s)) \<and>
     (reader s = RWait \<longrightarrow> resp_closed s \<and> pump s \<noteq> PNone) \<and>
     (leaving (reader s) \<and> \<not> crashed s \<and> pump s \<noteq> PNone \<longrightarrow> resp_closed s \<and> exited (pump s)) \<and>
     (reader s = RConnClose \<or> reader s = RDone \<longrightarrow> clients (hub s) c = None) \<and>
     (reader s = RDone \<longrightarrow> conn_closed s) \<and>
     (pump s = PNone \<longrightarrow> leaving (reader s)) \<and>
     (pump s = PExit Drained \<longrightarrow> responses s = [] \<and> resp_closed s) \<and>
     close_frames s = (if pump s = PExit Drained then 1 else 0)"

lemma inv_order_step:
  "ws_step ops js routes c s t \<Longrightarrow> inv_order ops js routes s \<Longrightarrow> inv_order ops js routes t"
proof (induction rule: ws_step.induct)
  case (read s r)
  then show ?case
    by (cases "on_read ops js routes (father_done s) r") (auto simp: inv_order_def reply_def)
qed (auto simp: inv_order_def)

lemma inv_end_step: "ws_step ops js routes c s t \<Longrightarrow> inv_end c s \<Longrightarrow> inv_end c t"
proof (induction rule: ws_step.induct)
  case (read s r)
  then show ?case by (cases "on_read ops js routes (father_done s) r") (auto simp: inv_end_def)
next
  case (collect s order close_err h called)
  then show ?case using clients_collect [OF collect(2), of c] by (auto simp: inv_end_def)
qed (auto simp: inv_end_def)

interpretation order_run: run_invariant "ws_step ops js routes c" "inv_order ops js routes" "Ws c ue de h"
  for ops js routes c ue de h
  by unfold_locales (fact inv_order_step, simp add: inv_order_def Ws_def Let_def)

interpretation end_run: persistent "ws_step ops js routes c" "inv_end c" for ops js routes c
  by unfold_locales (fact inv_end_step)

lemma inv_end_reachable:
  assumes "ws_steps ops js routes c (Ws c ue de h) s" "clients h c = None"
  shows "inv_end c s"
  by (rule end_run.kept_steps [OF assms(1)]) (simp add: inv_end_def Ws_def Let_def assms(2))

section \<open>How a handler ends\<close>

text \<open>The read loop waits to put an answer into a full channel that no pump empties.\<close>

definition blocked :: "'e ws \<Rightarrow> bool" where
  "blocked s \<longleftrightarrow> (\<exists>m k. reader s = RSend m k) \<and> responses_cap \<le> length (responses s) \<and> exited (pump s)"

lemma blocked_step:
  "ws_step ops js routes c s t \<Longrightarrow> blocked s \<Longrightarrow> blocked t \<and> reader t = reader s"
  by (induction rule: ws_step.induct) (auto simp: blocked_def)

interpretation block_trap: persistent "ws_step ops js routes c" blocked for ops js routes c
  using blocked_step by unfold_locales blast

abbreviation can_return ::
  "'e close_ops \<Rightarrow> json \<Rightarrow> WsRouter \<Rightarrow> client \<Rightarrow> 'e ws \<Rightarrow> bool" where
  "can_return ops js routes c \<equiv> can_reach (ws_step ops js routes c) (\<lambda>s. reader s = RDone)"

lemmas can_return_step = can_reach_step [of "ws_step ops js routes c" for ops js routes c]

lemma can_return_conn_close: "reader s = RConnClose \<Longrightarrow> can_return ops js routes c s"
  by (rule can_return_step [OF conn_close]) (auto intro: can_reach_now)

lemma can_return_unregister: "reader s = RUnregister \<Longrightarrow> can_return ops js routes c s"
  by (rule can_return_step [OF unregister]) (auto intro: can_return_conn_close)

lemma can_return_exited: "reader s = RWait \<Longrightarrow> exited (pump s) \<Longrightarrow> can_return ops js routes c s"
proof (cases "pump s")
  case (PExit e)
  assume "reader s = RWait"
  then show ?thesis using PExit by (rule can_return_step [OF wait]) (simp add: can_return_unregister)
qed simp_all

text \<open>The pump writes what is left and ends.\<close>

lemma can_return_wait:
  assumes "reader s = RWait" "inv_end c s"
  shows "can_return ops js routes c s"
  using assms
proof (induction "responses s" arbitrary: s)
  case Nil
  show ?case
  proof (cases "exited (pump s)")
    case False
    then have "pump s = PSelect" "resp_closed s" using Nil by (cases "pump s"; auto simp: inv_end_def)+
    then have "ws_step ops js routes c s (s\<lparr>pump := PExit Drained, close_frames := Suc (close_frames s)\<rparr>)"
      using Nil(1) by (intro pump_close) simp_all
    then show ?thesis by (rule can_return_step) (simp add: can_return_exited Nil(2))
  qed (simp add: can_return_exited Nil)
next
  case (Cons m ms)
  show ?case
  proof (cases "exited (pump s)")
    case False
    then have p: "pump s = PSelect" using Cons by (cases "pump s") (auto simp: inv_end_def)
    have st: "ws_step ops js routes c s (s\<lparr>responses := ms, written := written s @ [m]\<rparr>)"
      using p Cons(2) by (intro pump_write) simp_all
    show ?thesis
      using inv_end_step [OF st Cons.prems(2)] Cons.prems(1) by (intro can_return_step [OF st] Cons(1)) simp_all
  qed (simp add: can_return_exited Cons)
qed

lemma can_return_close:
  assumes "reader s = RClose" "inv_end c s"
  shows "can_return ops js routes c s"
proof -
  have st: "ws_step ops js routes c s (s\<lparr>reader := RWait, resp_closed := True\<rparr>)"
    using assms(1) by (rule close_responses)
  show ?thesis
    using inv_end_step [OF st assms(2)] by (intro can_return_step [OF st] can_return_wait) simp_all
qed

text \<open>A client that goes away lets the read loop end.\<close>

lemma can_return_read:
  assumes gone: "IsCloseError ops gone [CloseNoStatusReceived, CloseAbnormalClosure]"
    and "reader s = RRead" "inv_end c s"
  shows "can_return ops js routes c s"
proof -
  let ?t = "s\<lparr>reads := reads s @ [(father_done s, ReadError gone (- 1) [])], reader := RClose\<rparr>"
  have st: "ws_step ops js routes c s ?t"
    using read [OF assms(2), of ops js routes c "ReadError gone (- 1) []"] gone by simp
  show ?thesis using inv_end_step [OF st assms(3)] by (intro can_return_step [OF st] can_return_close) simp_all
qed

lemma can_return_send:
  assumes gone: "IsCloseError ops gone [CloseNoStatusReceived, CloseAbnormalClosure]"
    and "reader s = RSend m k" "length (responses s) < responses_cap" "inv_end c s"
  shows "can_return ops js routes c s"
proof -
  let ?t = "s\<lparr>reader := if k then RRead else RClose, responses := responses s @ [m]\<rparr>"
  have st: "ws_step ops js routes c s ?t" using assms(2,3) by (rule send)
  have inv: "inv_end c ?t" by (rule inv_end_step [OF st assms(4)])
  show ?thesis
    using can_return_read [OF gone _ inv] can_return_close [OF _ inv]
    by (intro can_return_step [OF st]) (simp split: if_splits)
qed

lemma can_return_full:
  assumes gone: "IsCloseError ops gone [CloseNoStatusReceived, CloseAbnormalClosure]"
    and "reader s = RSend m k" "pump s = PSelect" "inv_end c s" "length (responses s) \<le> responses_cap"
  shows "can_return ops js routes c s"
proof (cases "responses s")
  case Nil
  then show ?thesis using can_return_send [OF gone assms(2) _ assms(4)] by simp
next
  case (Cons x xs)
  let ?t = "s\<lparr>responses := xs, written := written s @ [x]\<rparr>"
  have st: "ws_step ops js routes c s ?t" using assms(3) Cons by (rule pump_write)
  show ?thesis
    using inv_end_step [OF st assms(4)] assms(2,5) Cons
    by (intro can_return_step [OF st] can_return_send [OF gone]) auto
qed

lemma can_return_iff:
  assumes gone: "IsCloseError ops gone [CloseNoStatusReceived, CloseAbnormalClosure]"
    and inv: "inv_end c s" "inv_order ops js routes s"
  shows "can_return ops js routes c s \<longleftrightarrow> \<not> blocked s"
proof
  assume "can_return ops js routes c s"
  then show "\<not> blocked s" using block_trap.kept_steps by (fastforce simp: can_reach_def blocked_def)
next
  assume free: "\<not> blocked s"
  show "can_return ops js routes c s"
  proof (cases "reader s")
    case (RSend m k)
    have "pump s = PSelect" if "\<not> length (responses s) < responses_cap"
      using that free RSend inv(1) by (cases "pump s") (auto simp: blocked_def inv_end_def)
    then show ?thesis
      using can_return_send [OF gone RSend _ inv(1)] can_return_full [OF gone RSend _ inv(1)] inv(2)
      by (auto simp: inv_order_def)
  qed (use inv gone in \<open>auto intro: can_return_read can_return_close can_return_wait
      can_return_unregister can_return_conn_close can_reach_now\<close>)
qed

text \<open>Malformed messages that arrive after the pump has left fill the channel.\<close>

lemma fill_responses:
  assumes bad: "unmarshal_first js bad = Inl e" and "n \<le> responses_cap"
  shows "\<exists>s. ws_steps ops js routes c (Ws c None None h) s \<and> reader s = RRead \<and>
    pump s = PExit FatherDone \<and> length (responses s) = n"
  using assms(2)
proof (induction n)
  case 0
  let ?s = "Ws c None None h" let ?t = "?s\<lparr>father_done := True\<rparr>"
  have "ws_step ops js routes c ?s ?t" by (rule father_cancelled)
  moreover have "ws_step ops js routes c ?t (?t\<lparr>pump := PExit FatherDone\<rparr>)"
    by (rule pump_father) (simp_all add: Ws_def)
  ultimately have "ws_steps ops js routes c ?s (?t\<lparr>pump := PExit FatherDone\<rparr>)"
    by (meson r_into_rtranclp rtranclp_trans)
  then show ?case by (intro exI [of _ "?t\<lparr>pump := PExit FatherDone\<rparr>"]) (simp add: Ws_def)
next
  case (Suc n)
  then obtain s where s: "ws_steps ops js routes c (Ws c None None h) s" "reader s = RRead"
    "pump s = PExit FatherDone" "length (responses s) = n" by auto
  let ?m = "\<lparr>msg_Type = 1, msg_Data = decode_error\<rparr>"
  let ?r = "s\<lparr>reads := reads s @ [(father_done s, ReadMessage 1 bad)], reader := RSend ?m True\<rparr>"
  let ?t = "?r\<lparr>reader := if True then RRead else RClose, responses := responses ?r @ [?m]\<rparr>"
  have "ws_step ops js routes c s ?r"
    using read [OF s(2), of ops js routes c "ReadMessage 1 bad"] bad
    by (simp add: on_message_def AssertMessageType_def)
  moreover have "ws_step ops js routes c ?r ?t" using s Suc.prems by (intro send) simp_all
  ultimately have "ws_steps ops js routes c (Ws c None None h) ?t"
    using s(1) by (meson rtranclp.rtrancl_into_rtrancl)
  then show ?case using s by (intro exI [of _ ?t]) simp
qed

lemma blocked_reachable:
  assumes bad: "unmarshal_first js bad = Inl e"
  shows "\<exists>s. ws_steps ops js routes c (Ws c None None h) s \<and> blocked s"
proof -
  obtain s where s: "ws_steps ops js routes c (Ws c None None h) s" "reader s = RRead"
    "pump s = PExit FatherDone" "length (responses s) = responses_cap"
    using fill_responses [OF bad order_refl, of ops routes c h] by auto
  let ?t = "s\<lparr>reads := reads s @ [(father_done s, ReadMessage 1 bad)],
    reader := RSend \<lparr>msg_Type = 1, msg_Data = decode_error\<rparr> True\<rparr>"
  have "ws_step ops js routes c s ?t"
    using read [OF s(2), of ops js routes c "ReadMessage 1 bad"] bad
    by (simp add: on_message_def AssertMessageType_def)
  then show ?thesis
    using s by (intro exI [of _ ?t]) (auto simp: blocked_def intro: rtranclp.rtrancl_into_rtrancl)
qed

section \<open>Properties\<close>

lemma reply_of_server:
  "reply ops js server_routes (done, ReadMessage t m) =
    [if isl (AssertMessageType js m) then \<lparr>msg_Type = t, msg_Data = decode_error\<rparr>
     else if done then \<lparr>msg_Type = CloseMessage, msg_Data = []\<rparr> else \<lparr>msg_Type = t, msg_Data = m\<rparr>]"
  by (auto simp: reply_def on_message_def HandleMessage_def server_routes_def SecondHandler_def
      AssertMessageType_def split: sum.split)

text \<open>A read loop that panics skips the \<open>close\<close> and the wait: the recovered handler returns beside its pump.\<close>

lemma panic_leaves_pump:
  fixes ops :: "'e close_ops"
  shows "\<exists>t. ws_steps ops js routes c (Ws c None None h) t \<and> reader t = RDone \<and> pump t = PSelect \<and> \<not> resp_closed t"
proof -
  let ?s0 = "Ws c None None h :: 'e ws"
  let ?s1 = "?s0\<lparr>reader := RUnregister, reads := [(False, ReadPanic)], crashed := True\<rparr>"
  let ?s2 = "?s1\<lparr>reader := RConnClose, hub := hub_Unregister c (hub ?s1)\<rparr>"
  let ?s3 = "?s2\<lparr>reader := RDone, conn_closed := True\<rparr>"
  have "ws_step ops js routes c ?s0 ?s1"
    using read [of ?s0 ops js routes c ReadPanic] by (simp add: Ws_def Let_def)
  moreover have "ws_step ops js routes c ?s1 ?s2" by (rule unregister) simp
  moreover have "ws_step ops js routes c ?s2 ?s3" by (rule conn_close) simp
  ultimately have "ws_steps ops js routes c ?s0 ?s3" by (meson converse_rtranclp_into_rtranclp r_into_rtranclp)
  moreover have "reader ?s3 = RDone" "pump ?s3 = PSelect" "\<not> resp_closed ?s3" by (simp_all add: Ws_def Let_def)
  ultimately show ?thesis by blast
qed

text \<open>
  C18: whatever the interleaving, the messages written to the connection, then those in the
  channel, then the one the read loop is about to send, are exactly the answers to the reads
  so far, in order and each once; and the channel never holds more than 256. With the routes
  of the server, the answer to a message is the message itself when it decodes to a known
  type (or a closing frame during shutdown), and the text of the decoding error otherwise: the
  router never panics. No answer is ever put into the closed channel; when the handler has
  returned, its client is no longer in the hub, its connection is closed and, unless the read
  loop panicked, the pump has ended; after such a panic, as repeated reads of a failed connection cause
  it, the handler does return with its pump still running; and a pump that ended by the closed channel has written
  the answers to all reads and one closing frame.
\<close>

theorem ws_answers_in_order:
  assumes "ws_steps ops js routes c (Ws c upgrade_err deadline_err h) s" "clients h c = None"
  shows "written s @ responses s @ pending (reader s) = concat (map (reply ops js routes) (reads s)) \<and>
    length (responses s) \<le> 256 \<and>
    reply ops js server_routes (done, ReadMessage t m) =
      [if isl (AssertMessageType js m) then \<lparr>msg_Type = t, msg_Data = decode_error\<rparr>
       else if done then \<lparr>msg_Type = CloseMessage, msg_Data = []\<rparr>
       else \<lparr>msg_Type = t, msg_Data = m\<rparr>] \<and>
    (resp_closed s \<longrightarrow> pending (reader s) = [] \<and> reader s \<noteq> RRead) \<and>
    (reader s = RDone \<longrightarrow> clients (hub s) c = None \<and> conn_closed s \<and>
       (crashed s \<or> pump s = PNone \<or> exited (pump s))) \<and>
    (\<exists>t. ws_steps ops js routes c (Ws c None None h) t \<and> reader t = RDone \<and> pump t = PSelect \<and> \<not> resp_closed t) \<and>
    (pump s = PExit Drained \<longrightarrow>
       written s = concat (map (reply ops js routes) (reads s)) \<and> close_frames s = 1)"
proof -
  have inv: "inv_end c s" "inv_order ops js routes s"
    using inv_end_reachable [OF assms] order_run.reachable [OF assms(1)] by auto
  have "resp_closed s \<Longrightarrow> pending (reader s) = [] \<and> reader s \<noteq> RRead"
    using inv(1) by (cases "reader s") (auto simp: inv_end_def)
  then show ?thesis using inv panic_leaves_pump [of ops js routes c h] reply_of_server [of ops js "done" t m]
    by (auto simp: inv_end_def inv_order_def)
qed

text \<open>
  C19: from every reachable state the handler can return once the client goes away, except
  when the read loop waits on a full channel after the pump has left; that state is reached
  whenever messages that do not decode keep coming after the shutdown began, and it is final:
  the loop checks for the shutdown only after a message that does decode.
\<close>

theorem ws_returns_unless_blocked:
  assumes "IsCloseError ops gone [CloseNoStatusReceived, CloseAbnormalClosure]"
    and "ws_steps ops js routes c (Ws c upgrade_err deadline_err h) s" "clients h c = None"
    and "unmarshal_first js bad = Inl e"
  shows "((\<exists>t. ws_steps ops js routes c s t \<and> reader t = RDone) \<longleftrightarrow> \<not> blocked s) \<and>
    (\<exists>t. ws_steps ops js routes c (Ws c None None h) t \<and> blocked t)"
  using can_return_iff [OF assms(1) inv_end_reachable [OF assms(2,3)] order_run.reachable [OF assms(2)]]
    blocked_reachable [OF assms(4)]
  by (simp add: can_reach_def)

text \<open>
  Collecting the connections calls \<open>Close\<close> once on every registered connection, whatever
  order the map is ranged over, and leaves in the hub exactly those whose \<open>Close\<close> failed; the
  deferred \<open>Unregister\<close> of a handler whose connection was collected then changes nothing.
\<close>

lemma CollectGarbageConnections_spec:
  assumes "range_order h order" "CollectGarbageConnections close_err order h = (h', called)"
  shows "distinct called \<and> set called = dom (clients h) \<and>
    dom (clients h') = {c \<in> dom (clients h). close_err c \<noteq> None} \<and>
    (close_err c = None \<longrightarrow> hub_Unregister c h' = h')"
  using assms clients_collect [OF assms(2)] by (auto simp: range_order_def hub_Unregister_def dom_def split: if_splits)

section \<open>Witnesses\<close>

definition echo_json :: json where
  "echo_json = \<lparr>unmarshal_first = (\<lambda>m. if m = [] then Inl ''unexpected end of JSON input'' else Inr ''second''),
     unmarshal_second = (\<lambda>_. Inr (''hi'', ''second''))\<rparr>"

definition code_ops :: "int option close_ops" where
  "code_ops = \<lparr>IsCloseError = (\<lambda>e cs. \<exists>c \<in> set cs. e = Some c),
     IsUnexpectedCloseError = (\<lambda>e cs. e \<noteq> None \<and> \<not> (\<exists>c \<in> set cs. e = Some c))\<rparr>"

definition echo_start :: "int option ws" where
  "echo_start = Ws 0 None None NewHub"

definition echo_read :: "int option ws" where
  "echo_read = echo_start\<lparr>reads := [(False, ReadMessage 1 [104])],
     reader := RSend \<lparr>msg_Type = 1, msg_Data = [104]\<rparr> True\<rparr>"

lemma echo_read_reachable: "ws_steps code_ops echo_json server_routes 0 (Ws 0 None None NewHub) echo_read"
proof -
  have "ws_step code_ops echo_json server_routes 0 echo_start echo_read"
    using read [of echo_start code_ops echo_json server_routes 0 "ReadMessage 1 [104]"]
    by (simp add: echo_start_def echo_read_def Ws_def on_message_def AssertMessageType_def HandleMessage_def
        server_routes_def SecondHandler_def echo_json_def)
  then show ?thesis by (simp add: echo_start_def r_into_rtranclp)
qed

theorem ws_answers_in_order_witness:
  "pending (reader echo_read) = [\<lparr>msg_Type = 1, msg_Data = [104]\<rparr>] \<and>
   written echo_read @ responses echo_read @ pending (reader echo_read) =
     concat (map (reply code_ops echo_json server_routes) (reads echo_read))"
  using ws_answers_in_order [OF echo_read_reachable] by (simp add: echo_read_def NewHub_def)

theorem ws_returns_unless_blocked_witness:
  "\<not> blocked echo_read \<and>
   (\<exists>t. ws_steps code_ops echo_json server_routes 0 echo_read t \<and> reader t = RDone)"
proof -
  have "\<not> blocked echo_read" by (simp add: blocked_def echo_read_def echo_start_def Ws_def)
  moreover have "IsCloseError code_ops (Some 1006) [CloseNoStatusReceived, CloseAbnormalClosure]"
    "clients NewHub 0 = None" "unmarshal_first echo_json [] = Inl ''unexpected end of JSON input''"
    by (simp_all add: code_ops_def NewHub_def echo_json_def)
  ultimately show ?thesis
    using ws_returns_unless_blocked [of code_ops "Some 1006" echo_json server_routes 0 None None NewHub echo_read "[]"]
      echo_read_reachable by blast
qed

lemma CollectGarbageConnections_example:
  "dom (clients (fst (CollectGarbageConnections ((\<lambda>_. None)(2 \<mapsto> ''busy'')) [2, 1]
     (hub_Register 1 (hub_Register 2 NewHub))))) = {2}"
proof -
  let ?h = "hub_Register 1 (hub_Register 2 NewHub)" let ?e = "(\<lambda>_. None)(2 \<mapsto> ''busy'')"
  have o: "range_order ?h [2, 1]" by (auto simp: range_order_def NewHub_def)
  have d: "dom (clients ?h) = {1, 2}" by (auto simp: NewHub_def split: if_splits)
  have "dom (clients (fst (CollectGarbageConnections ?e [2, 1] ?h))) = {c \<in> dom (clients ?h). ?e c \<noteq> None}"
    using CollectGarbageConnections_spec [OF o prod.collapse [symmetric], of ?e] by blast
  then show ?thesis by (auto simp: d)
qed

end
