(* ===== verification/Ws_Client.thy ===== *)
theory Ws_Client
  imports Websocket
begin

text \<open>
  The WebSocket client: the connection of \<^verbatim>\<open>server/websocket_clent.go\<close> and the program part
  \<^verbatim>\<open>internal/websocket_client/simply_client.go\<close>. \<open>DoClientApp\<close> starts a session (\<open>clientApp\<close>), waits
  for its error and then starts the next; a session is a read loop and a write pump, two
  goroutines around the channel \<open>responses\<close>, that report through the channel \<open>errChan\<close> of
  capacity one. The goroutines of old sessions go on beside the new one. What dialling and
  reading return is an input; a read that failed is the last one of its loop, so that
  the panic of \<^verbatim>\<open>gorilla/websocket\<close> on repeated reads of a failed connection does not occur.
  The JSON encoder is the parameter \<open>marshal\<close>.
\<close>

section \<open>Dialling\<close>

datatype 'e dial_result = DialFatal | DialFailed 'e | Dialled

text \<open>\<open>dial\<close>: the error and, when the server did answer, its status. The log lines follow.\<close>

definition dial_result :: "('e \<times> int option) option \<Rightarrow> 'e dial_result \<times> int option" where
  "dial_result dial = (case dial of
       None \<Rightarrow> (Dialled, None)
     | Some (err, Some code) \<Rightarrow> (DialFailed err, Some code)
     | Some (err, None) \<Rightarrow> (DialFailed err, None))"

definition NewWebSocketHttpClientConnection :: "('e \<times> int option) option \<Rightarrow> 'e dial_result \<times> int option" where
  "NewWebSocketHttpClientConnection dial = dial_result dial"

text \<open>\<open>cert\<close>: what reading the file returns; \<open>append_ok\<close>: \<open>AppendCertsFromPEM\<close> on the system's pool, or
  on a new one when the system has none.\<close>

definition NewWebSocketHttpsClientConnection ::
  "('p result) \<Rightarrow> 'p \<Rightarrow> bytes result \<Rightarrow> ('p \<Rightarrow> bytes \<Rightarrow> bool) \<Rightarrow> ('e \<times> int option) option \<Rightarrow> 'e dial_result \<times> int option" where
  "NewWebSocketHttpsClientConnection system_pool new_pool cert append_ok dial =
     (let rootCAs = (case system_pool of Inl _ \<Rightarrow> new_pool | Inr p \<Rightarrow> p) in
      case cert of
        Inl _ \<Rightarrow> (DialFatal, None)
      | Inr certBytes \<Rightarrow> if \<not> append_ok rootCAs certBytes then (DialFatal, None) else dial_result dial)"

section \<open>A session\<close>

datatype 'e client_read = GotMessage int bytes | GotError 'e

datatype 'e client_err = DialErr 'e | ReadErr 'e | CtxErr

datatype 'e creader = CRead | CErr "'e client_err" | CSend Message | CClose | CWait | CDone

datatype cpump_end = CDrained | CFatherDone | CWriteFailed

datatype cpump = CNone | CSelect | CExit cpump_end

text \<open>\<open>c_reads\<close>, \<open>c_written\<close> and \<open>c_errs\<close> record the reads (with whether the process was ending),
  the calls of \<open>WriteMessage\<close> for messages and all errors ever sent on \<open>errChan\<close>.\<close>

record 'e sess =
  c_reader :: "'e creader"
  c_pump :: cpump
  c_resp :: "Message list"
  c_resp_closed :: bool
  c_errChan :: "'e client_err list"
  c_err_closed :: bool
  c_reads :: "(bool \<times> 'e client_read) list"
  c_written :: "Message list"
  c_errs :: "'e client_err list"

abbreviation TextMessage :: int where "TextMessage \<equiv> 1"

definition hello :: Routable where
  "hello = SecondRequestWsMessage ''Hello from client!'' ''second''"

definition hello_message :: "(Routable \<Rightarrow> bytes) \<Rightarrow> Message" where
  "hello_message marshal = \<lparr>msg_Type = TextMessage, msg_Data = marshal hello\<rparr>"

text \<open>\<open>None\<close>: the process has ended with \<open>logger.Fatal\<close>.\<close>

fun clientApp :: "(Routable \<Rightarrow> bytes) \<Rightarrow> 'e dial_result \<Rightarrow> 'e sess option" where
  "clientApp marshal DialFatal = None"
| "clientApp marshal (DialFailed e) =
     Some \<lparr>c_reader = CDone, c_pump = CNone, c_resp = [], c_resp_closed = False,
       c_errChan = [DialErr e], c_err_closed = False, c_reads = [], c_written = [], c_errs = [DialErr e]\<rparr>"
| "clientApp marshal Dialled =
     Some \<lparr>c_reader = CRead, c_pump = CSelect, c_resp = [hello_message marshal], c_resp_closed = False,
       c_errChan = [], c_err_closed = False, c_reads = [], c_written = [], c_errs = []\<rparr>"

fun client_on_read :: "bool \<Rightarrow> 'e client_read \<Rightarrow> 'e creader" where
  "client_on_read done (GotError e) = CErr (ReadErr e)"
| "client_on_read done (GotMessage t m) =
     (if done then CErr CtxErr else CSend \<lparr>msg_Type = TextMessage, msg_Data = m\<rparr>)"

inductive sess_step :: "bool \<Rightarrow> 'e sess \<Rightarrow> 'e sess \<Rightarrow> bool" for ended where
  c_read: "c_reader x = CRead \<Longrightarrow>
    sess_step ended x (x\<lparr>c_reader := client_on_read ended r, c_reads := c_reads x @ [(ended, r)]\<rparr>)"
| c_send_err: "c_reader x = CErr e \<Longrightarrow> c_errChan x = [] \<Longrightarrow>
    sess_step ended x (x\<lparr>c_reader := CClose, c_errChan := [e], c_errs := c_errs x @ [e]\<rparr>)"
| c_send: "c_reader x = CSend m \<Longrightarrow> length (c_resp x) < responses_cap \<Longrightarrow>
    sess_step ended x (x\<lparr>c_reader := CRead, c_resp := c_resp x @ [m]\<rparr>)"
| c_close: "c_reader x = CClose \<Longrightarrow> sess_step ended x (x\<lparr>c_reader := CWait, c_resp_closed := True\<rparr>)"
| c_wait: "c_reader x = CWait \<Longrightarrow> c_pump x = CExit e \<Longrightarrow>
    sess_step ended x (x\<lparr>c_reader := CDone, c_err_closed := True\<rparr>)"
| c_pump_father: "c_pump x = CSelect \<Longrightarrow> ended \<Longrightarrow> sess_step ended x (x\<lparr>c_pump := CExit CFatherDone\<rparr>)"
| c_pump_write: "c_pump x = CSelect \<Longrightarrow> c_resp x = m # ms \<Longrightarrow>
    sess_step ended x (x\<lparr>c_resp := ms, c_written := c_written x @ [m]\<rparr>)"
| c_pump_write_fails: "c_pump x = CSelect \<Longrightarrow> c_resp x = m # ms \<Longrightarrow>
    sess_step ended x (x\<lparr>c_pump := CExit CWriteFailed, c_resp := ms, c_written := c_written x @ [m]\<rparr>)"
| c_pump_close: "c_pump x = CSelect \<Longrightarrow> c_resp x = [] \<Longrightarrow> c_resp_closed x \<Longrightarrow>
    sess_step ended x (x\<lparr>c_pump := CExit CDrained\<rparr>)"

section \<open>The loop of reconnects\<close>

datatype do_pc = DStart | DSelect | DSleep | DReturned | DExit

record 'e client_app =
  do_at :: do_pc
  sessions :: "'e sess list"      \<comment> \<open>the last one is the session whose \<open>errChan\<close> is awaited\<close>
  app_done :: bool

definition client_start :: "'e client_app" where
  "client_start = \<lparr>do_at = DStart, sessions = [], app_done = False\<rparr>"

definition connect :: "(Routable \<Rightarrow> bytes) \<Rightarrow> 'e dial_result \<Rightarrow> 'e client_app \<Rightarrow> 'e client_app" where
  "connect marshal d s = (case clientApp marshal d of
       None \<Rightarrow> s\<lparr>do_at := DExit\<rparr>
     | Some x \<Rightarrow> s\<lparr>do_at := DSelect, sessions := sessions s @ [x]\<rparr>)"

inductive client_step :: "(Routable \<Rightarrow> bytes) \<Rightarrow> 'e client_app \<Rightarrow> 'e client_app \<Rightarrow> bool" for marshal where
  do_start: "do_at s = DStart \<Longrightarrow> client_step marshal s (connect marshal d s)"
| do_father: "do_at s = DSelect \<Longrightarrow> app_done s \<Longrightarrow> client_step marshal s (s\<lparr>do_at := DReturned\<rparr>)"
| do_error: "do_at s = DSelect \<Longrightarrow> sessions s = xs @ [x] \<Longrightarrow> c_errChan x = e # es \<Longrightarrow>
    client_step marshal s (s\<lparr>do_at := DSleep, sessions := xs @ [x\<lparr>c_errChan := es\<rparr>]\<rparr>)"
| do_closed: "do_at s = DSelect \<Longrightarrow> sessions s = xs @ [x] \<Longrightarrow> c_errChan x = [] \<Longrightarrow> c_err_closed x \<Longrightarrow>
    client_step marshal s (s\<lparr>do_at := DReturned\<rparr>)"
| do_stop: "do_at s = DSleep \<Longrightarrow> app_done s \<Longrightarrow> client_step marshal s (s\<lparr>do_at := DReturned\<rparr>)"
| do_again: "do_at s = DSleep \<Longrightarrow> \<not> app_done s \<Longrightarrow> client_step marshal s (connect marshal d s)"
| in_session: "do_at s \<noteq> DExit \<Longrightarrow> i < length (sessions s) \<Longrightarrow> sess_step (app_done s) (sessions s ! i) x \<Longrightarrow>
    client_step marshal s (s\<lparr>sessions := (sessions s)[i := x]\<rparr>)"
| app_cancelled: "client_step marshal s (s\<lparr>app_done := True\<rparr>)"

abbreviation client_steps :: "(Routable \<Rightarrow> bytes) \<Rightarrow> 'e client_app \<Rightarrow> 'e client_app \<Rightarrow> bool" where
  "client_steps marshal \<equiv> (client_step marshal)\<^sup>*\<^sup>*"

section \<open>Input of the user\<close>

text \<open>
  \<open>handleUserInput\<close> after its \<open>readline\<close> was created: for each round, whether the context was found to
  have ended and what \<open>Readline\<close> returned. The result are the messages sent and whether the
  function returned within these rounds.
\<close>

fun handleUserInput :: "(Routable \<Rightarrow> bytes result) \<Rightarrow> (bool \<times> string result) list \<Rightarrow> Message list \<times> bool" where
  "handleUserInput marshal [] = ([], False)"
| "handleUserInput marshal ((quit, r) # rs) =
     (if quit then ([], True)
      else case r of
        Inl err \<Rightarrow> ([], True)
      | Inr line \<Rightarrow>
          if line = [] then handleUserInput marshal rs
          else case marshal (SecondRequestWsMessage line ''second'') of
            Inl err \<Rightarrow> handleUserInput marshal rs
          | Inr marshals \<Rightarrow>
              let (ms, ended) = handleUserInput marshal rs
              in (\<lparr>msg_Type = TextMessage, msg_Data = marshals\<rparr> # ms, ended))"

text \<open>With an encoder that does not fail, the lines up to the end of the input are sent, the empty
  ones left out.\<close>

lemma handleUserInput_sends:
  "fst (handleUserInput (\<lambda>r. Inr (enc r)) rs) =
     map (\<lambda>line. \<lparr>msg_Type = TextMessage, msg_Data = enc (SecondRequestWsMessage line ''second'')\<rparr>)
       (filter (\<lambda>line. line \<noteq> []) (map (\<lambda>r. projr (snd r)) (takeWhile (\<lambda>(quit, r). \<not> quit \<and> \<not> isl r) rs)))"
proof (induction rs)
  case (Cons r rs)
  then show ?case by (cases r; cases "snd r") (auto simp: split_beta Let_def)
qed simp

section \<open>Invariants of a session\<close>

fun c_pending :: "'e creader \<Rightarrow> Message list" where
  "c_pending (CSend m) = [m]"
| "c_pending _ = []"

text \<open>What the client sends back for a read.\<close>

fun client_reply :: "bool \<times> 'e client_read \<Rightarrow> Message list" where
  "client_reply (done, GotMessage t m) = (if done then [] else [\<lparr>msg_Type = TextMessage, msg_Data = m\<rparr>])"
| "client_reply (done, GotError e) = []"

fun reading :: "'e creader \<Rightarrow> bool" where
  "reading CRead = True"
| "reading (CErr _) = True"
| "reading (CSend _) = True"
| "reading _ = False"

definition inv_sess :: "(Routable \<Rightarrow> bytes) \<Rightarrow> 'e sess \<Rightarrow> bool" where
  "inv_sess marshal x \<longleftrightarrow>
     (c_pump x \<noteq> CNone \<longrightarrow>
       c_written x @ c_resp x @ c_pending (c_reader x) =
         hello_message marshal # concat (map client_reply (c_reads x))) \<and>
     length (c_resp x) \<le> responses_cap \<and>
     length (c_errs x) = (if reading (c_reader x) then 0 else 1) \<and>
     (c_errChan x = [] \<or> c_errChan x = c_errs x) \<and>
     (c_resp_closed x \<longrightarrow> c_reader x = CWait \<or> c_reader x = CDone) \<and>
     (c_err_closed x \<longrightarrow> c_reader x = CDone) \<and>
     (c_pump x = CNone \<longrightarrow> c_reader x = CDone) \<and>
     (c_pump x = CExit CDrained \<longrightarrow> c_resp x = [] \<and> c_resp_closed x)"

lemma inv_sess_clientApp: "clientApp marshal d = Some x \<Longrightarrow> inv_sess marshal x \<and> c_errChan x = c_errs x"
  by (cases d) (auto simp: inv_sess_def)

lemma inv_sess_step: "sess_step ended x y \<Longrightarrow> inv_sess marshal x \<Longrightarrow> inv_sess marshal y"
proof (induction rule: sess_step.induct)
  case (c_read x r)
  then show ?case by (cases r) (auto simp: inv_sess_def)
qed (auto simp: inv_sess_def)

text \<open>Nobody else takes from \<open>errChan\<close>.\<close>

lemma sess_step_errs:
  "sess_step ended x y \<Longrightarrow> inv_sess marshal x \<Longrightarrow> c_errChan x = c_errs x \<Longrightarrow> c_errChan y = c_errs y"
  by (induction rule: sess_step.induct) (auto simp: inv_sess_def)

section \<open>Invariant of the program\<close>

definition inv_client :: "(Routable \<Rightarrow> bytes) \<Rightarrow> 'e client_app \<Rightarrow> bool" where
  "inv_client marshal s \<longleftrightarrow>
     (\<forall>x \<in> set (sessions s). inv_sess marshal x) \<and>
     (do_at s = DStart \<longleftrightarrow> sessions s = [] \<and> do_at s \<noteq> DExit) \<and>
     (do_at s = DSelect \<longrightarrow> c_errChan (last (sessions s)) = c_errs (last (sessions s))) \<and>
     (do_at s = DReturned \<longrightarrow> app_done s)"

lemma inv_client_connect:
  assumes "inv_client marshal s" "do_at s \<noteq> DReturned"
  shows "inv_client marshal (connect marshal d s)"
  using assms inv_sess_clientApp [of marshal d]
  by (auto simp: inv_client_def connect_def split: option.split)

lemma inv_client_step: "client_step marshal s t \<Longrightarrow> inv_client marshal s \<Longrightarrow> inv_client marshal t"
proof (induction rule: client_step.induct)
  case (do_start s d)
  then show ?case by (intro inv_client_connect) simp_all
next
  case (do_again s d)
  then show ?case by (intro inv_client_connect) simp_all
next
  case (do_error s xs x e es)
  then have "inv_sess marshal x" "c_errChan x = c_errs x" by (auto simp: inv_client_def)
  then have "es = []" using do_error(3) by (auto simp: inv_sess_def dest: arg_cong [of _ _ length] split: if_splits)
  then have "inv_sess marshal (x\<lparr>c_errChan := es\<rparr>)" using \<open>inv_sess marshal x\<close> by (simp add: inv_sess_def)
  then show ?case using do_error by (auto simp: inv_client_def)
next
  case (do_closed s xs x)
  then have "inv_sess marshal x" "c_errs x = []" by (auto simp: inv_client_def)
  then show ?case using do_closed(4) by (auto simp: inv_sess_def split: if_splits)
next
  case (in_session s i x)
  then have old: "inv_sess marshal (sessions s ! i)" by (simp add: inv_client_def)
  have new: "inv_sess marshal x" by (rule inv_sess_step [OF in_session(3) old])
  have "c_errChan (last ((sessions s)[i := x])) = c_errs (last ((sessions s)[i := x]))" if "do_at s = DSelect"
    using that sess_step_errs [OF in_session(3) old] in_session
    by (cases "i = length (sessions s) - 1") (auto simp: inv_client_def last_conv_nth)
  then show ?case using in_session new by (auto simp: inv_client_def dest: set_update_subset_insert [THEN subsetD])
qed (auto simp: inv_client_def)

interpretation client_run: run_invariant "client_step marshal" "inv_client marshal" client_start for marshal
  by unfold_locales (fact inv_client_step, simp add: inv_client_def client_start_def)

section \<open>How the loop goes on\<close>

text \<open>The read loop of the awaited session waits to put a message into the full channel that its
  ended pump does not empty.\<close>

definition sess_stuck :: "'e sess \<Rightarrow> bool" where
  "sess_stuck x \<longleftrightarrow> c_pending (c_reader x) \<noteq> [] \<and> responses_cap \<le> length (c_resp x) \<and> (\<exists>e. c_pump x = CExit e)"

definition stuck :: "'e client_app \<Rightarrow> bool" where
  "stuck s \<longleftrightarrow> do_at s = DSelect \<and> sessions s \<noteq> [] \<and> sess_stuck (last (sessions s)) \<and> c_errChan (last (sessions s)) = []
     \<and> \<not> c_err_closed (last (sessions s))"

lemma sess_stuck_step: "sess_step ended x y \<Longrightarrow> sess_stuck x \<Longrightarrow>
    sess_stuck y \<and> c_errChan y = c_errChan x \<and> c_err_closed y = c_err_closed x"
  by (induction rule: sess_step.induct) (auto simp: sess_stuck_def)

text \<open>A stuck client starts no session any more; only the end of the process releases it.\<close>

definition halted :: "nat \<Rightarrow> 'e client_app \<Rightarrow> bool" where
  "halted n s \<longleftrightarrow> length (sessions s) = n \<and> (stuck s \<or> do_at s = DReturned)"

lemma halted_step: "client_step marshal s t \<Longrightarrow> halted n s \<Longrightarrow> halted n t"
proof (induction rule: client_step.induct)
  case (in_session s i x)
  have "stuck (s\<lparr>sessions := (sessions s)[i := x]\<rparr>)" if "stuck s"
    using that in_session(2) sess_stuck_step [OF in_session(3)]
    by (cases "i = length (sessions s) - 1") (auto simp: stuck_def last_conv_nth)
  then show ?case using in_session by (auto simp: halted_def)
qed (auto simp: halted_def stuck_def)

interpretation halt_trap: persistent "client_step marshal" "halted n" for marshal n
  by unfold_locales (fact halted_step)

abbreviation can_connect :: "(Routable \<Rightarrow> bytes) \<Rightarrow> nat \<Rightarrow> 'e client_app \<Rightarrow> bool" where
  "can_connect marshal n \<equiv> can_reach (client_step marshal) (\<lambda>t. n < length (sessions t))"

lemmas can_connect_step = can_reach_step [of "client_step marshal" for marshal]

lemma can_connect_dial:
  assumes "do_at s = DStart \<or> do_at s = DSleep \<and> \<not> app_done s"
  shows "can_connect marshal (length (sessions s)) s"
proof -
  have "client_step marshal s (connect marshal Dialled s)" using assms by (blast intro: do_start do_again)
  then show ?thesis by (rule can_connect_step) (simp add: can_reach_now connect_def)
qed

lemma can_connect_error:
  assumes "do_at s = DSelect" "\<not> app_done s" "sessions s = xs @ [x]" "c_errChan x = e # es"
  shows "can_connect marshal (length (sessions s)) s"
proof (rule can_connect_step [OF do_error [OF assms(1,3,4)]])
  show "can_connect marshal (length (sessions s)) (s\<lparr>do_at := DSleep, sessions := xs @ [x\<lparr>c_errChan := es\<rparr>]\<rparr>)"
    using can_connect_dial [of "s\<lparr>do_at := DSleep, sessions := xs @ [x\<lparr>c_errChan := es\<rparr>]\<rparr>" marshal] assms(2,3) by simp
qed

text \<open>A step of the awaited session.\<close>

lemma last_session_step:
  assumes "do_at s = DSelect" "sessions s = xs @ [x]" "sess_step (app_done s) x y"
  shows "client_step marshal s (s\<lparr>sessions := xs @ [y]\<rparr>)"
  using in_session [of s "length xs" y marshal] assms by simp

lemma can_connect_session:
  assumes "do_at s = DSelect" "sessions s = xs @ [x]" "sess_step (app_done s) x y"
    and "can_connect marshal (Suc (length xs)) (s\<lparr>sessions := xs @ [y]\<rparr>)"
  shows "can_connect marshal (length (sessions s)) s"
  using can_connect_step [OF last_session_step [OF assms(1-3)]] assms(2,4) by simp

lemma can_connect_failing:
  assumes "do_at s = DSelect" "\<not> app_done s" "sessions s = xs @ [x]" "c_reader x = CErr e" "c_errChan x = []"
  shows "can_connect marshal (length (sessions s)) s"
  using can_connect_session [OF assms(1,3) c_send_err [OF assms(4,5)], of marshal]
    can_connect_error [of "s\<lparr>sessions := xs @ [x\<lparr>c_reader := CClose, c_errChan := [e], c_errs := c_errs x @ [e]\<rparr>]\<rparr>"]
    assms(1,2) by simp

lemma can_connect_reading:
  assumes "do_at s = DSelect" "\<not> app_done s" "sessions s = xs @ [x]" "c_reader x = CRead" "c_errChan x = []"
  shows "can_connect marshal (length (sessions s)) s"
proof -
  let ?y = "x\<lparr>c_reader := CErr (ReadErr undefined), c_reads := c_reads x @ [(app_done s, GotError undefined)]\<rparr>"
  have "sess_step (app_done s) x ?y" using c_read [OF assms(4), of _ "GotError undefined"] by simp
  from can_connect_session [OF assms(1,3) this, of marshal] show ?thesis
    using can_connect_failing [of "s\<lparr>sessions := xs @ [?y]\<rparr>" xs ?y] assms(1,2,5) by simp
qed

lemma can_connect_sending:
  assumes "do_at s = DSelect" "\<not> app_done s" "sessions s = xs @ [x]" "c_reader x = CSend m" "c_errChan x = []"
    "length (c_resp x) < responses_cap"
  shows "can_connect marshal (length (sessions s)) s"
  using can_connect_session [OF assms(1,3) c_send [OF assms(4,6)], of marshal]
    can_connect_reading [of "s\<lparr>sessions := xs @ [x\<lparr>c_reader := CRead, c_resp := c_resp x @ [m]\<rparr>]\<rparr>"]
    assms(1,2,5) by simp

lemma can_connect_full:
  assumes "do_at s = DSelect" "\<not> app_done s" "sessions s = xs @ [x]" "c_reader x = CSend m" "c_errChan x = []"
    "c_pump x = CSelect" "c_resp x = m' # ms" "length ms < responses_cap"
  shows "can_connect marshal (length (sessions s)) s"
  using can_connect_session [OF assms(1,3) c_pump_write [OF assms(6,7)], of marshal]
    can_connect_sending [of "s\<lparr>sessions := xs @ [x\<lparr>c_resp := ms, c_written := c_written x @ [m']\<rparr>]\<rparr>"]
    assms(1,2,4,5,8) by simp

lemma can_connect_iff:
  assumes "inv_client marshal s" "\<not> app_done s" "do_at s \<noteq> DExit"
  shows "can_connect marshal (length (sessions s)) s \<longleftrightarrow> \<not> stuck s"
proof
  assume "can_connect marshal (length (sessions s)) s"
  then obtain t where t: "client_steps marshal s t" "length (sessions s) < length (sessions t)" by (auto simp: can_reach_def)
  show "\<not> stuck s"
  proof
    assume "stuck s"
    then have "halted (length (sessions s)) t" using halt_trap.kept_steps [OF t(1)] by (simp add: halted_def)
    then show False using t(2) by (simp add: halted_def)
  qed
next
  assume free: "\<not> stuck s"
  show "can_connect marshal (length (sessions s)) s"
  proof (cases "do_at s = DSelect")
    case True
    then have "sessions s \<noteq> []" using assms(1) by (auto simp: inv_client_def)
    then obtain xs x where s: "sessions s = xs @ [x]" by (meson rev_exhaust)
    have x: "inv_sess marshal x" "c_errChan x = c_errs x" using assms(1) True s by (auto simp: inv_client_def)
    show ?thesis
    proof (cases "c_errChan x")
      case Nil
      then have r: "reading (c_reader x)" using x by (auto simp: inv_sess_def split: if_splits)
      show ?thesis
      proof (cases "c_reader x")
        case (CSend m)
        have "c_pump x = CSelect" if "\<not> length (c_resp x) < responses_cap"
          using that x(1) CSend Nil free True s
          by (cases "c_pump x") (auto simp: stuck_def sess_stuck_def inv_sess_def)
        moreover have "length (c_resp x) \<le> responses_cap" using x(1) by (simp add: inv_sess_def)
        ultimately show ?thesis
          using can_connect_sending [OF True assms(2) s CSend Nil, of marshal]
            can_connect_full [OF True assms(2) s CSend Nil, of _ _ marshal]
          by (cases "length (c_resp x) < responses_cap"; cases "c_resp x") simp_all
      qed (use r can_connect_reading [OF True assms(2) s _ Nil] can_connect_failing [OF True assms(2) s _ Nil] in auto)
    qed (rule can_connect_error [OF True assms(2) s])
  qed (use assms can_connect_dial [of s] in \<open>cases "do_at s"; auto simp: inv_client_def\<close>)
qed

text \<open>After a failed write the messages that still come fill the channel.\<close>

definition broken :: "(Routable \<Rightarrow> bytes) \<Rightarrow> nat \<Rightarrow> 'e sess" where
  "broken marshal n = \<lparr>c_reader = CRead, c_pump = CExit CWriteFailed,
     c_resp = replicate n \<lparr>msg_Type = TextMessage, msg_Data = []\<rparr>, c_resp_closed = False, c_errChan = [],
     c_err_closed = False, c_reads = replicate n (False, GotMessage TextMessage []),
     c_written = [hello_message marshal], c_errs = []\<rparr>"

abbreviation broken_app :: "'e sess \<Rightarrow> 'e client_app" where
  "broken_app x \<equiv> \<lparr>do_at = DSelect, sessions = [x], app_done = False\<rparr>"

lemma broken_app_step: "sess_step False x y \<Longrightarrow> client_step marshal (broken_app x) (broken_app y)"
  using last_session_step [of "broken_app x" "[]" x y marshal] by simp

lemma broken_read:
  "sess_step False (broken marshal n) ((broken marshal n)\<lparr>c_reader := CSend \<lparr>msg_Type = TextMessage, msg_Data = []\<rparr>,
     c_reads := replicate (Suc n) (False, GotMessage TextMessage [])\<rparr>)"
  using c_read [of "broken marshal n" False "GotMessage TextMessage []"]
  by (simp add: broken_def replicate_append_same)

lemma broken_reachable:
  "n \<le> responses_cap \<Longrightarrow> client_steps marshal client_start (broken_app (broken marshal n :: 'e sess))"
proof (induction n)
  case 0
  let ?x = "the (clientApp marshal Dialled) :: 'e sess"
  have "client_step marshal client_start (broken_app ?x)"
    using do_start [of client_start marshal Dialled] by (simp add: connect_def client_start_def)
  moreover have "sess_step False ?x (broken marshal 0)"
    using c_pump_write_fails [of ?x "hello_message marshal" "[]" False] by (simp add: broken_def)
  ultimately show ?case using broken_app_step by (meson r_into_rtranclp rtranclp_trans)
next
  case (Suc n)
  let ?m = "\<lparr>msg_Type = TextMessage, msg_Data = []\<rparr>"
  let ?y = "(broken marshal n :: 'e sess)\<lparr>c_reader := CSend ?m, c_reads := replicate (Suc n) (False, GotMessage TextMessage [])\<rparr>"
  have "sess_step False ?y (?y\<lparr>c_reader := CRead, c_resp := c_resp ?y @ [?m]\<rparr>)"
    using Suc.prems by (intro c_send) (simp_all add: broken_def)
  moreover have "?y\<lparr>c_reader := CRead, c_resp := c_resp ?y @ [?m]\<rparr> = broken marshal (Suc n)"
    by (simp add: broken_def replicate_append_same)
  ultimately have "sess_step False ?y (broken marshal (Suc n))" by simp
  then have "client_step marshal (broken_app ?y) (broken_app (broken marshal (Suc n)))" by (rule broken_app_step)
  moreover have "client_steps marshal client_start (broken_app ?y)"
    by (rule rtranclp.rtrancl_into_rtrancl [OF Suc.IH broken_app_step [OF broken_read]]) (use Suc.prems in simp)
  ultimately show ?case by (rule rtranclp.rtrancl_into_rtrancl [rotated])
qed

lemma stuck_reachable: "\<exists>t :: 'e client_app. client_steps marshal client_start t \<and> stuck t"
proof -
  let ?y = "(broken marshal responses_cap :: 'e sess)\<lparr>c_reader := CSend \<lparr>msg_Type = TextMessage, msg_Data = []\<rparr>,
     c_reads := replicate (Suc responses_cap) (False, GotMessage TextMessage [])\<rparr>"
  have "client_steps marshal client_start (broken_app ?y)"
    by (rule rtranclp.rtrancl_into_rtrancl [OF broken_reachable [OF order_refl] broken_app_step [OF broken_read]])
  moreover have "stuck (broken_app ?y)" by (simp add: stuck_def sess_stuck_def broken_def)
  ultimately show ?thesis by blast
qed

lemma can_return_done:
  assumes "inv_client marshal s" "app_done s" "do_at s \<noteq> DExit"
  shows "\<exists>t. client_steps marshal s t \<and> do_at t = DReturned"
proof (cases "do_at s")
  case DStart
  let ?t = "connect marshal Dialled s"
  have t: "client_step marshal s ?t" using DStart by (rule do_start)
  have "client_step marshal ?t (?t\<lparr>do_at := DReturned\<rparr>)" using assms(2) by (intro do_father) (simp_all add: connect_def)
  with t show ?thesis by (intro exI [of _ "?t\<lparr>do_at := DReturned\<rparr>"]) (simp add: converse_rtranclp_into_rtranclp)
next
  case DSelect
  then show ?thesis using do_father [OF DSelect assms(2), of marshal] by (intro exI [of _ "s\<lparr>do_at := DReturned\<rparr>"]) auto
next
  case DSleep
  then show ?thesis using do_stop [OF DSleep assms(2), of marshal] by (intro exI [of _ "s\<lparr>do_at := DReturned\<rparr>"]) auto
qed (use assms in auto)

section \<open>Properties\<close>

text \<open>
  C20: in every session of the client, under every interleaving: what was written, then what is in
  the channel, then what the read loop is about to send is the greeting followed by the text
  messages received so far, in order and each once; the channel is never sent to after it
  was closed; at most one error is reported, so that the send on \<open>errChan\<close> never blocks; a
  pump that was ended by the closed channel has written everything. Against the server's
  router, when encoding and decoding agree, the greeting is answered by itself and so is every
  answer: the conversation goes on until one side ends.
\<close>

theorem client_conversation:
  assumes "client_steps marshal client_start s" "x \<in> set (sessions s)"
  shows "(c_pump x \<noteq> CNone \<longrightarrow> c_written x @ c_resp x @ c_pending (c_reader x) =
      hello_message marshal # concat (map client_reply (c_reads x))) \<and>
    length (c_resp x) \<le> 256 \<and> (c_resp_closed x \<longrightarrow> c_pending (c_reader x) = []) \<and>
    length (c_errs x) \<le> 1 \<and> (\<forall>e. c_reader x = CErr e \<longrightarrow> c_errChan x = [] \<and> \<not> c_err_closed x) \<and>
    (c_pump x = CExit CDrained \<longrightarrow> c_written x = hello_message marshal # concat (map client_reply (c_reads x))) \<and>
    (unmarshal_first js (marshal hello) = Inr (Routing hello) \<and>
     unmarshal_second js (marshal hello) = Inr (Text hello, Routing hello) \<longrightarrow>
       reply ops js server_routes (False, ReadMessage TextMessage (marshal hello)) = [hello_message marshal] \<and>
       client_reply (False, GotMessage t (marshal hello)) = [hello_message marshal])"
proof -
  have x: "inv_sess marshal x" using client_run.reachable [OF assms(1)] assms(2) by (simp add: inv_client_def)
  have "reply ops js server_routes (False, ReadMessage TextMessage (marshal hello)) = [hello_message marshal]"
    if "unmarshal_first js (marshal hello) = Inr (Routing hello)"
      "unmarshal_second js (marshal hello) = Inr (Text hello, Routing hello)"
    using that by (simp add: reply_def on_message_def AssertMessageType_def hello_def HandleMessage_def server_routes_def
        SecondHandler_def hello_message_def)
  then show ?thesis using x by (cases "c_reader x") (auto simp: inv_sess_def hello_message_def split: if_splits)
qed

text \<open>
  C22: as long as the process is not told to end, \<open>DoClientApp\<close> does not return (its branch for a
  closed \<open>errChan\<close> is never taken), and from every reachable state it can go on to a further
  session exactly when it is not stuck; once told to end it can always return. The stuck
  state is reached when a write fails and the server then sends 257 more messages: the pump has
  ended, the read loop waits on the full channel and never sees that the connection broke.
\<close>

theorem client_reconnects_unless_stuck:
  fixes s :: "'e client_app"
  assumes "client_steps marshal client_start s" "do_at s \<noteq> DExit"
  shows "(\<not> app_done s \<longrightarrow> do_at s \<noteq> DReturned \<and>
      ((\<exists>t. client_steps marshal s t \<and> length (sessions s) < length (sessions t)) \<longleftrightarrow> \<not> stuck s)) \<and>
    (app_done s \<longrightarrow> (\<exists>t. client_steps marshal s t \<and> do_at t = DReturned)) \<and>
    (\<exists>t :: 'e client_app. client_steps marshal client_start t \<and> stuck t)"
proof -
  have inv: "inv_client marshal s" by (rule client_run.reachable [OF assms(1)])
  have "do_at s \<noteq> DReturned" if "\<not> app_done s" using inv that by (auto simp: inv_client_def)
  then show ?thesis
    using can_connect_iff [OF inv _ assms(2)] can_return_done [OF inv _ assms(2)] stuck_reachable
    by (auto simp: can_reach_def)
qed

section \<open>Witnesses\<close>

theorem client_conversation_witness:
  "c_written (broken (\<lambda>_. [123, 125]) 2 :: int sess) @ c_resp (broken (\<lambda>_. [123, 125]) 2 :: int sess) =
     [\<lparr>msg_Type = 1, msg_Data = [123, 125]\<rparr>, \<lparr>msg_Type = 1, msg_Data = []\<rparr>, \<lparr>msg_Type = 1, msg_Data = []\<rparr>]"
  using client_conversation [OF broken_reachable [of 2 "\<lambda>_. [123, 125]"], of "broken (\<lambda>_. [123, 125]) 2 :: int sess"]
  by (simp add: broken_def hello_message_def eval_nat_numeral)

theorem client_reconnects_unless_stuck_witness:
  "\<exists>t :: int client_app. client_steps (\<lambda>_. []) (broken_app (broken (\<lambda>_. []) 3)) t \<and> 1 < length (sessions t)"
proof -
  have "\<not> stuck (broken_app (broken (\<lambda>_. []) 3 :: int sess))" by (simp add: stuck_def sess_stuck_def broken_def)
  moreover have "client_steps (\<lambda>_. []) client_start (broken_app (broken (\<lambda>_. []) 3 :: int sess))"
    by (rule broken_reachable) simp
  ultimately show ?thesis
    using client_reconnects_unless_stuck [of "\<lambda>_. []" "broken_app (broken (\<lambda>_. []) 3 :: int sess)"] by simp
qed

end
