(* ===== verification/Ws_Conversation.thy ===== *)
theory Ws_Conversation
  imports Ws_Client "HOL-Library.Sublist"
begin

text \<open>
  The WebSocket server and its client together: one connection of \<open>Websocket\<close> and the session of
  \<open>Ws_Client\<close> at its other end. The network between them is what the two read: messages arrive in
  the order in which they were written, each at most once, and a closing frame ends the messages
  (gorilla reports it as an error of the read). The client only ever sends empty closing
  frames or drops the connection, so that the errors of the server's reads are those on which its
  loop ends.
\<close>

section \<open>The network\<close>

fun got :: "bool \<times> 'e read \<Rightarrow> Message list" where
  "got (d, ReadMessage t m) = [\<lparr>msg_Type = t, msg_Data = m\<rparr>]"
| "got (d, r) = []"

fun c_got :: "bool \<times> 'e client_read \<Rightarrow> Message list" where
  "c_got (d, GotMessage t m) = [\<lparr>msg_Type = t, msg_Data = m\<rparr>]"
| "c_got (d, GotError e) = []"

abbreviation received :: "'e ws \<Rightarrow> Message list" where
  "received s \<equiv> concat (map got (reads s))"

abbreviation c_received :: "'e sess \<Rightarrow> Message list" where
  "c_received x \<equiv> concat (map c_got (c_reads x))"

text \<open>The messages up to a closing frame.\<close>

definition delivered :: "Message list \<Rightarrow> Message list" where
  "delivered ms = takeWhile (\<lambda>m. msg_Type m \<noteq> CloseMessage) ms"

fun peer_left :: "'e close_ops \<Rightarrow> bool \<times> 'e read \<Rightarrow> bool" where
  "peer_left ops (d, ReadError e t m) \<longleftrightarrow> IsCloseError ops e [CloseNoStatusReceived, CloseAbnormalClosure] \<or>
     \<not> IsUnexpectedCloseError ops e [CloseGoingAway]"
| "peer_left ops (d, r) \<longleftrightarrow> True"

definition connected :: "'e close_ops \<Rightarrow> 'e ws \<Rightarrow> 'f sess \<Rightarrow> bool" where
  "connected ops s x \<longleftrightarrow> prefix (received s) (delivered (c_written x)) \<and> list_all (peer_left ops) (reads s) \<and>
     prefix (c_received x) (delivered (written s))"

text \<open>How many messages are between being read at one end and being read at the other.\<close>

definition under_way :: "'e ws \<Rightarrow> 'f sess \<Rightarrow> nat" where
  "under_way s x =
     length (c_pending (c_reader x)) + length (c_resp x) + (length (c_written x) - length (received s)) +
     length (pending (reader s)) + length (responses s) + (length (written s) - length (c_received x))"

text \<open>A message that the client reads while it ends is not answered.\<close>

fun drops :: "bool \<times> 'e client_read \<Rightarrow> bool" where
  "drops (d, GotMessage t m) = d"
| "drops (d, GotError e) = False"

section \<open>Answers match messages\<close>

lemma connected_prefixes:
  assumes "connected ops s x"
  shows "prefix (received s) (c_written x)" "prefix (c_received x) (written s)"
  using assms takeWhile_is_prefix prefix_order.trans unfolding connected_def delivered_def by blast+

lemma reply_got:
  assumes "peer_left ops r"
  shows "length (reply ops js server_routes r) = length (got r)"
proof -
  obtain d a where r: "r = (d, a)" by (cases r)
  show ?thesis
  proof (cases a)
    case (ReadMessage t m)
    then show ?thesis using reply_of_server [of ops js d t m] r by simp
  qed (use assms r in \<open>auto simp: reply_def\<close>)
qed

lemma replies_got:
  "list_all (peer_left ops) rs \<Longrightarrow> length (concat (map (reply ops js server_routes) rs)) = length (concat (map got rs))"
  by (induction rs) (simp_all add: reply_got)

text \<open>The client stops reading with the first message it does not answer.\<close>

definition inv_drops :: "'e sess \<Rightarrow> bool" where
  "inv_drops x \<longleftrightarrow> list_all (\<lambda>r. \<not> drops r) (butlast (c_reads x)) \<and>
     (c_reader x = CRead \<or> (\<exists>m. c_reader x = CSend m) \<longrightarrow> list_all (\<lambda>r. \<not> drops r) (c_reads x))"

lemma butlast_all: "list_all P xs \<Longrightarrow> list_all P (butlast xs)"
  by (auto simp: list_all_iff dest: in_set_butlastD)

lemma inv_drops_step: "sess_step ended x y \<Longrightarrow> inv_drops x \<Longrightarrow> inv_drops y"
proof (induction rule: sess_step.induct)
  case (c_read x r)
  then show ?case by (cases r) (auto simp: inv_drops_def)
qed (auto simp: inv_drops_def)

lemma inv_drops_clientApp: "clientApp marshal d = Some x \<Longrightarrow> inv_drops x"
  by (cases d) (auto simp: inv_drops_def)

lemma inv_drops_client_step:
  "client_step marshal s t \<Longrightarrow> \<forall>x \<in> set (sessions s). inv_drops x \<Longrightarrow> \<forall>x \<in> set (sessions t). inv_drops x"
proof (induction rule: client_step.induct)
  case (in_session s i x)
  then show ?case using inv_drops_step [OF in_session(3)] by (auto dest: set_update_subset_insert [THEN subsetD])
qed (auto simp: connect_def inv_drops_def [of "_\<lparr>c_errChan := _\<rparr>"] intro: inv_drops_clientApp split: option.splits,
  (auto simp: inv_drops_def)+)

interpretation drops_run: run_invariant "client_step marshal" "\<lambda>s. \<forall>x \<in> set (sessions s). inv_drops x" client_start
  for marshal
  by unfold_locales (fact inv_drops_client_step, simp add: client_start_def)

lemma client_replies_all:
  "list_all (\<lambda>r. \<not> drops r) rs \<Longrightarrow>
     concat (map client_reply rs) = map (\<lambda>m. m\<lparr>msg_Type := TextMessage\<rparr>) (concat (map c_got rs))"
proof (induction rs)
  case (Cons r rs)
  then show ?case by (cases r; cases "snd r") auto
qed simp

lemma client_replies:
  assumes "inv_drops x"
  shows "prefix (concat (map client_reply (c_reads x))) (map (\<lambda>m. m\<lparr>msg_Type := TextMessage\<rparr>) (c_received x))"
    "length (c_received x) = length (concat (map client_reply (c_reads x))) + (if list_ex drops (c_reads x) then 1 else 0)"
proof -
  have "prefix (concat (map client_reply rs)) (map (\<lambda>m. m\<lparr>msg_Type := TextMessage\<rparr>) (concat (map c_got rs))) \<and>
      length (concat (map c_got rs)) = length (concat (map client_reply rs)) + (if list_ex drops rs then 1 else 0)"
    if "list_all (\<lambda>r. \<not> drops r) (butlast rs)" for rs :: "(bool \<times> 'a client_read) list"
  proof (cases rs rule: rev_cases)
    case (snoc rs' r)
    then have "list_all (\<lambda>r. \<not> drops r) rs'" "\<not> list_ex drops rs'" using that by (auto simp: list_all_iff list_ex_iff)
    with snoc client_replies_all [of rs'] show ?thesis by (cases r; cases "snd r") auto
  qed simp
  from this [of "c_reads x"] assms show "prefix (concat (map client_reply (c_reads x))) (map (\<lambda>m. m\<lparr>msg_Type := TextMessage\<rparr>) (c_received x))"
    "length (c_received x) = length (concat (map client_reply (c_reads x))) + (if list_ex drops (c_reads x) then 1 else 0)"
    unfolding inv_drops_def by blast+
qed

section \<open>The greeting goes back and forth\<close>

text \<open>Encoding and decoding of the greeting agree.\<close>

definition agrees :: "json \<Rightarrow> (Routable \<Rightarrow> bytes) \<Rightarrow> bool" where
  "agrees js marshal \<longleftrightarrow> unmarshal_first js (marshal hello) = Inr (Routing hello) \<and>
     unmarshal_second js (marshal hello) = Inr (Text hello, Routing hello)"

abbreviation closing :: Message where
  "closing \<equiv> \<lparr>msg_Type = CloseMessage, msg_Data = []\<rparr>"

lemma reply_hello:
  assumes "agrees js marshal" "peer_left ops r"
  shows "list_all2 (\<lambda>m a. m = hello_message marshal \<longrightarrow> a \<in> {hello_message marshal, closing})
    (got r) (reply ops js server_routes r)"
proof -
  obtain d a where r: "r = (d, a)" by (cases r)
  have "\<not> isl (AssertMessageType js (marshal hello))"
    using assms(1) by (simp add: agrees_def AssertMessageType_def hello_def)
  then show ?thesis
    using assms(2) r reply_of_server [of ops js d]
    by (cases a) (auto simp: hello_message_def reply_def)
qed

lemma replies_hello:
  assumes "agrees js marshal" "list_all (peer_left ops) rs"
  shows "list_all2 (\<lambda>m a. m = hello_message marshal \<longrightarrow> a \<in> {hello_message marshal, closing})
    (concat (map got rs)) (concat (map (reply ops js server_routes) rs))"
  using assms(2)
proof (induction rs)
  case (Cons r rs)
  then show ?case using list_all2_appendI [OF reply_hello [OF assms(1), of ops r] Cons.IH] by simp
qed simp

lemma prefix_nth: "prefix xs ys \<Longrightarrow> i < length xs \<Longrightarrow> xs ! i = ys ! i \<and> i < length ys"
  by (auto simp: prefix_def nth_append)

text \<open>The exchange in general: every message of one side answers the message of the same number of
  the other, the first one apart.\<close>

lemma exchange:
  assumes answers: "list_all2 (\<lambda>m a. m = g \<longrightarrow> a \<in> {g, z}) R S"
    and server: "prefix R C" and client: "prefix C (g # CR)" "prefix CR (map f R')"
    and home: "prefix R' S" "z \<notin> set R'" and f: "f g = g"
  shows "set C \<subseteq> {g} \<and> set S \<subseteq> {g, z}"
proof -
  have S: "S ! i \<in> {g, z} \<and> i < length R" if "i < length S" "\<forall>j < length R. R ! j = g \<or> i < j" for i
    using that list_all2_nthD2 [OF answers that(1)] list_all2_lengthD [OF answers] by fastforce
  have C: "C ! n = g" if "n < length C" for n
    using that
  proof (induction n rule: less_induct)
    case (less n)
    show ?case
    proof (cases n)
      case 0
      then show ?thesis using prefix_nth [OF client(1) less.prems] by simp
    next
      case (Suc k)
      then have k: "C ! n = CR ! k" "k < length CR" using prefix_nth [OF client(1) less.prems] by auto
      then have k': "C ! n = f (R' ! k)" "k < length R'" using prefix_nth [OF client(2) k(2)] by auto
      have S_k: "R' ! k = S ! k" "k < length S" using prefix_nth [OF home(1) k'(2)] by auto
      have "\<forall>j < length R. R ! j = g \<or> k < j"
      proof (intro allI impI)
        fix j assume "j < length R"
        with prefix_nth [OF server this] less.IH [of j] Suc show "R ! j = g \<or> k < j" by (cases "k < j") auto
      qed
      then have "R' ! k = g" using S [OF S_k(2)] S_k(1) home(2) k'(2) nth_mem [OF k'(2)] by auto
      with k'(1) f show ?thesis by simp
    qed
  qed
  have "R ! j = g" if "j < length R" for j using prefix_nth [OF server that] C by auto
  then have "S ! i \<in> {g, z}" if "i < length S" for i using S [OF that] by auto
  then have "set S \<subseteq> {g, z}" unfolding in_set_conv_nth subset_iff by blast
  moreover have "set C \<subseteq> {g}" using C unfolding in_set_conv_nth subset_iff by blast
  ultimately show ?thesis by simp
qed

section \<open>Property\<close>

text \<open>
  C21: the server and its client in conversation. When encoding and decoding of the greeting agree
  and the network keeps the order of messages, the client never sends anything but its greeting, and
  the server nothing but the greeting and a closing frame; and there is exactly one message on
  its way, in one of the two channels, in one of the loops or on the wire, until the client reads
  one while it ends, which it drops. So neither channel ever holds more than one message, and the
  states in which a handler waits for ever on a full channel cannot come about between these two.
\<close>

theorem one_message_under_way:
  assumes "ws_steps ops js server_routes c (Ws c upgrade_err deadline_err h) s"
    and "client_steps marshal client_start a" "x \<in> set (sessions a)" "c_pump x \<noteq> CNone"
    and "connected ops s x" "agrees js marshal"
  shows "set (c_written x @ c_resp x @ c_pending (c_reader x)) \<subseteq> {hello_message marshal} \<and>
    set (written s @ responses s @ pending (reader s)) \<subseteq> {hello_message marshal, closing} \<and>
    under_way s x = (if list_ex drops (c_reads x) then 0 else 1) \<and>
    \<not> blocked s \<and> \<not> sess_stuck x"
proof -
  let ?g = "hello_message marshal" and ?C = "c_written x @ c_resp x @ c_pending (c_reader x)"
    and ?S = "written s @ responses s @ pending (reader s)" and ?CR = "concat (map client_reply (c_reads x))"
  have peer: "list_all (peer_left ops) (reads s)" using assms(5) by (simp add: connected_def)
  have S: "?S = concat (map (reply ops js server_routes) (reads s))"
    using order_run.reachable [OF assms(1)] by (simp add: inv_order_def)
  have C: "?C = ?g # ?CR"
    using client_run.reachable [OF assms(2)] assms(3,4) by (auto simp: inv_client_def inv_sess_def)
  have x: "inv_drops x" using drops_run.reachable [OF assms(2)] assms(3) by auto
  note pre = connected_prefixes [OF assms(5)]
  have "closing \<notin> set (delivered (written s))" by (auto simp: delivered_def dest: set_takeWhileD)
  then have close: "closing \<notin> set (c_received x)" using assms(5) set_mono_prefix unfolding connected_def by blast
  have answers: "list_all2 (\<lambda>m a. m = ?g \<longrightarrow> a \<in> {?g, closing}) (received s) ?S"
    unfolding S by (rule replies_hello [OF assms(6) peer])
  have wire: "prefix (received s) ?C" "prefix (c_received x) ?S" using pre by simp_all
  have "prefix ?C (?g # ?CR)" "?g\<lparr>msg_Type := TextMessage\<rparr> = ?g" by (simp_all add: C hello_message_def)
  note sent = exchange [OF answers wire(1) this(1) client_replies(1) [OF x] wire(2) close this(2)]
  have "length ?S = length (received s)" using S replies_got [OF peer] by simp
  moreover have "length ?C = Suc (length ?CR)" by (simp add: C)
  ultimately have "under_way s x = (if list_ex drops (c_reads x) then 0 else 1)"
    using client_replies(2) [OF x] prefix_length_le [OF pre(1)] prefix_length_le [OF pre(2)]
    by (simp add: under_way_def split: if_splits)
  then have "length (c_resp x) \<le> 1" "length (responses s) \<le> 1" by (simp_all add: under_way_def split: if_splits)
  then have "\<not> blocked s" "\<not> sess_stuck x" by (simp_all add: blocked_def sess_stuck_def)
  with \<open>under_way s x = _\<close> sent show ?thesis by blast
qed

section \<open>Witness\<close>

definition hello_json :: json where
  "hello_json = \<lparr>unmarshal_first = (\<lambda>_. Inr ''second''),
     unmarshal_second = (\<lambda>_. Inr (''Hello from client!'', ''second''))\<rparr>"

abbreviation short :: "Routable \<Rightarrow> bytes" where
  "short \<equiv> \<lambda>_. [123]"

definition greeted :: "int option ws" where
  "greeted = (Ws 0 None None NewHub)\<lparr>reads := [(False, ReadMessage 1 [123])],
     reader := RSend (hello_message short) True\<rparr>"

definition greeting :: "int sess" where
  "greeting = \<lparr>c_reader = CRead, c_pump = CSelect, c_resp = [], c_resp_closed = False, c_errChan = [],
     c_err_closed = False, c_reads = [], c_written = [hello_message short], c_errs = []\<rparr>"

lemma greeted_reachable: "ws_steps code_ops hello_json server_routes 0 (Ws 0 None None NewHub) greeted"
proof -
  have "ws_step code_ops hello_json server_routes 0 (Ws 0 None None NewHub) greeted"
    using read [of "Ws 0 None None NewHub" code_ops hello_json server_routes 0 "ReadMessage 1 [123]"]
    by (simp add: greeted_def Ws_def on_message_def AssertMessageType_def HandleMessage_def
        server_routes_def SecondHandler_def hello_json_def hello_message_def)
  then show ?thesis by (rule r_into_rtranclp)
qed

lemma greeting_reachable:
  "client_steps short client_start \<lparr>do_at = DSelect, sessions = [greeting], app_done = False\<rparr>"
proof -
  let ?s = "connect short Dialled client_start :: int client_app" and ?x = "the (clientApp short Dialled) :: int sess"
  have "client_step short client_start ?s" by (rule do_start) (simp add: client_start_def)
  moreover have "sess_step False ?x greeting"
    using c_pump_write [of ?x "hello_message short" "[]" False] by (simp add: greeting_def)
  then have "client_step short ?s (?s\<lparr>sessions := (sessions ?s)[0 := greeting]\<rparr>)"
    by (intro in_session) (simp_all add: connect_def client_start_def)
  ultimately have "client_steps short client_start (?s\<lparr>sessions := (sessions ?s)[0 := greeting]\<rparr>)"
    by (meson converse_rtranclp_into_rtranclp r_into_rtranclp)
  then show ?thesis by (simp add: connect_def client_start_def)
qed

theorem one_message_under_way_witness:
  "connected code_ops greeted greeting \<and> under_way greeted greeting = 1"
proof -
  have "connected code_ops greeted greeting"
    by (simp add: connected_def greeted_def greeting_def delivered_def Ws_def hello_message_def)
  moreover have "agrees hello_json short" by (simp add: agrees_def hello_json_def hello_def)
  ultimately show ?thesis
    using one_message_under_way [OF greeted_reachable greeting_reachable] by (simp add: greeting_def)
qed

end
