(* ===== verification/Grpc.thy ===== *)
theory Grpc
  imports Utf8 "HOL-Library.Word"
begin

text \<open>
  The gRPC part: servers (\<^verbatim>\<open>server/grpc_server.go\<close>), clients (\<^verbatim>\<open>server/grpc_client.go\<close>,
  \<^verbatim>\<open>cmd/grpc_client/main.go\<close>) and the two handlers of \<^verbatim>\<open>internal/grpc_handler/\<close>. The library
  \<^verbatim>\<open>google.golang.org/grpc\<close> is outside: creating, registering, listening and dialling are arguments.
  The table \<open>user_p\<close> is the set of its ids, with the primary key that the SQL migration under
  \<^verbatim>\<open>migrations/\<close> declares.
\<close>

section \<open>The conversion of an integer to text in Go\<close>

text \<open>\<open>rune(a)\<close> for an \<open>int\<close> keeps the low 32 bits, as a signed number.\<close>

definition rune_of_int :: "64 word \<Rightarrow> int" where
  "rune_of_int a = sint (ucast a :: 32 word)"

text \<open>\<open>string(r)\<close>: the UTF-8 code of the rune, or that of U+FFFD when it is not a Unicode scalar.\<close>

definition scalar_of :: "int \<Rightarrow> nat" where
  "scalar_of r = (if 0 \<le> r \<and> is_scalar (nat r) then nat r else 65533)"

definition string_of_rune :: "int \<Rightarrow> bytes" where
  "string_of_rune r = encode_scalar (scalar_of r)"

section \<open>The handlers\<close>

text \<open>The structs of both services.\<close>

record ('srv, 'pg) MyService =
  ms_srv :: 'srv
  ms_postgres :: 'pg

definition NewMyService :: "'pg \<Rightarrow> 'srv \<Rightarrow> ('srv, 'pg) MyService" where
  "NewMyService postgres srv = \<lparr>ms_srv = srv, ms_postgres = postgres\<rparr>"

record ('srv, 'pg) MyService2 =
  ms2_srv :: 'srv
  ms2_postgres :: 'pg

definition NewMyService2 :: "'pg \<Rightarrow> 'srv \<Rightarrow> ('srv, 'pg) MyService2" where
  "NewMyService2 postgres srv = \<lparr>ms2_srv = srv, ms2_postgres = postgres\<rparr>"

text \<open>The insert of id 1, unless the database is down.\<close>

definition insert_user :: "string option \<Rightarrow> int set \<Rightarrow> string option \<times> int set" where
  "insert_user down user_p = (case down of
       Some e \<Rightarrow> (Some e, user_p)
     | None \<Rightarrow> if 1 \<in> user_p then (Some ''duplicate key'', user_p) else (None, insert 1 user_p))"

text \<open>
  \<open>MyService.SayHello\<close>: both errors are printed only, and so is what the count gives: the variable
  \<open>a\<close> stays zero when the count fails. The request is only logged.
\<close>

definition SayHello :: "string option \<Rightarrow> string option \<Rightarrow> string \<Rightarrow> int set \<Rightarrow> bytes result \<times> int set" where
  "SayHello insert_down count_err name user_p =
     (let (err, user_p1) = insert_user insert_down user_p;
          a = (case count_err of None \<Rightarrow> word_of_nat (card user_p1) | Some _ \<Rightarrow> 0)
      in (Inr (ascii ''Hello 1 '' @ string_of_rune (rune_of_int a)), user_p1))"

text \<open>\<open>MyService2.SayHello\<close>.\<close>

definition SayHello2 :: "bytes \<Rightarrow> bytes result" where
  "SayHello2 name = Inr (ascii ''Hello 2'' @ name)"

section \<open>The servers\<close>

datatype ('srv, 'l) grpc_started = GrpcFatal string | GrpcServing 'srv 'l

text \<open>\<open>Start\<close>: \<open>new_server\<close> is \<open>grpc.NewServer\<close>, \<open>listen\<close> what \<open>net.Listen\<close> returns for a port.\<close>

definition grpc_Start :: "('o list \<Rightarrow> 'srv) \<Rightarrow> (string \<Rightarrow> 'l result) \<Rightarrow> ('srv \<Rightarrow> 'srv) \<Rightarrow> string \<Rightarrow> 'o list \<Rightarrow>
    ('srv, 'l) grpc_started" where
  "grpc_Start new_server listen registerServices port interceptors =
     (let server = registerServices (new_server interceptors) in
      case listen port of
        Inl e \<Rightarrow> GrpcFatal (''Failed to listen on port '' @ port @ '': '' @ e)
      | Inr listener \<Rightarrow> GrpcServing server listener)"

definition loadTLSCredentials :: "'c result \<Rightarrow> 'c result" where
  "loadTLSCredentials file = (case file of
       Inl e \<Rightarrow> Inl (''failed to load TLS credentials: '' @ e)
     | Inr creds \<Rightarrow> Inr creds)"

definition grpc_StartTLS :: "('o list \<Rightarrow> 'srv) \<Rightarrow> ('c \<Rightarrow> 'o) \<Rightarrow> (string \<Rightarrow> 'l result) \<Rightarrow> 'c result \<Rightarrow>
    ('srv \<Rightarrow> 'srv) \<Rightarrow> string \<Rightarrow> 'o list \<Rightarrow> ('srv, 'l) grpc_started" where
  "grpc_StartTLS new_server Creds listen file registerServices port interceptors =
     (case loadTLSCredentials file of
        Inl e \<Rightarrow> GrpcFatal (''Failed to load TLS credentials: '' @ e)
      | Inr creds \<Rightarrow>
         (let grpcOptions = interceptors @ [Creds creds];
              server = registerServices (new_server grpcOptions) in
          case listen port of
            Inl e \<Rightarrow> GrpcFatal (''Failed to listen on port '' @ port @ '': '' @ e)
          | Inr listener \<Rightarrow> GrpcServing server listener))"

definition CreateGRPCServer where
  "CreateGRPCServer new_server listen registerServices port = grpc_Start new_server listen registerServices port []"

definition CreateGRPCServerTLS where
  "CreateGRPCServerTLS new_server Creds listen file registerServices port =
     grpc_StartTLS new_server Creds listen file registerServices port []"

text \<open>The goroutine around \<open>Serve\<close>: the log and, when it panics, the message.\<close>

definition grpc_goroutine :: "string \<Rightarrow> string option \<Rightarrow> string list \<times> string option" where
  "grpc_goroutine port serve_err = ([''gRPC server is running on '' @ port],
     map_option (\<lambda>e. ''Server gRPC stopped by error: '' @ e) serve_err)"

text \<open>The returned shutdown function.\<close>

definition grpc_shutdown :: "('srv \<Rightarrow> 'srv) \<Rightarrow> 'srv \<Rightarrow> string list \<times> 'srv" where
  "grpc_shutdown GracefulStop server =
     ([''Shutting down gRPC server...'', ''gRPC server has stopped.''], GracefulStop server)"

section \<open>The clients\<close>

datatype 'conn grpc_client = ClientFatal string | ClientConnected 'conn

definition NewGRPCClientConnection :: "('t \<Rightarrow> string \<Rightarrow> 'conn result) \<Rightarrow> 't \<Rightarrow> string \<Rightarrow> 'conn grpc_client" where
  "NewGRPCClientConnection new_client insecure target = (case new_client insecure target of
       Inl e \<Rightarrow> ClientFatal (''Failed to connect to gRPC server: %v'' @ e)
     | Inr conn \<Rightarrow> ClientConnected conn)"

definition NewGRPCSClientConnection :: "('t \<Rightarrow> string \<Rightarrow> 'conn result) \<Rightarrow> (bytes \<Rightarrow> 't option) \<Rightarrow> bytes result \<Rightarrow> string \<Rightarrow>
    'conn grpc_client" where
  "NewGRPCSClientConnection new_client tls_of_pem file target = (case file of
       Inl e \<Rightarrow> ClientFatal (''Could not read certificate file: %v'' @ e)
     | Inr certData \<Rightarrow> (case tls_of_pem certData of
           None \<Rightarrow> ClientFatal ''Failed to append cert from PEM''
         | Some creds \<Rightarrow> (case new_client creds target of
               Inl e \<Rightarrow> ClientFatal (''Failed to connect to gRPC server: %v'' @ e)
             | Inr conn \<Rightarrow> ClientConnected conn)))"

text \<open>\<open>Do\<close> and \<open>DoWithTLS\<close>, which have the same body: what is logged for the two calls. A failed
  call is logged, and its nil response too.\<close>

datatype grpc_log = CallFailed string | Response "bytes option"

definition log_call :: "bytes result \<Rightarrow> grpc_log list" where
  "log_call r = (case r of Inl e \<Rightarrow> [CallFailed e, Response None] | Inr m \<Rightarrow> [Response (Some m)])"

definition grpc_Do :: "(bytes \<Rightarrow> bytes result) \<Rightarrow> (bytes \<Rightarrow> bytes result) \<Rightarrow> grpc_log list" where
  "grpc_Do call1 call2 = log_call (call1 (ascii ''Name1'')) @ log_call (call2 (ascii ''Name2''))"

section \<open>Lemmas\<close>

lemma scalar_of_scalar [simp]: "is_scalar (scalar_of r)"
  by (simp add: scalar_of_def is_scalar_def)

lemma encode_scalar_head: "\<exists>b bs. encode_scalar r = b # bs \<and> (if r < 128 then b = r \<and> bs = [] else 128 \<le> b)"
  by (simp add: encode_scalar_def)

lemma nat_digits_bytes: "\<exists>d ds. ascii (nat_digits n) = d # ds \<and> 48 \<le> d \<and> d < 58 \<and> (ds = [] \<longrightarrow> n < 10 \<and> d = 48 + n)"
proof (induction n rule: nat_digits.induct)
  case (1 n)
  have c: "of_char (char_of (48 + k)) = (48 + k :: nat)" if "k < 10" for k
    using that by simp
  show ?case
  proof (cases "n < 10")
    case True
    then show ?thesis using c [of n] by (simp add: nat_digits.simps [of n] ascii_def digit_char_def)
  next
    case False
    then obtain d ds where "ascii (nat_digits (n div 10)) = d # ds" "48 \<le> d" "d < 58" using 1 by blast
    then show ?thesis using False by (simp add: nat_digits.simps [of n] ascii_def)
  qed
qed

lemma rune_of_nat: "n < 2 ^ 31 \<Longrightarrow> rune_of_int (word_of_nat n) = int n"
proof -
  assume "n < 2 ^ 31"
  moreover have "(ucast (word_of_nat n :: 64 word) :: 32 word) = word_of_nat n"
    by (rule bit_word_eqI) (simp add: bit_simps)
  ultimately show ?thesis by (simp add: rune_of_int_def signed_of_nat signed_take_bit_int_eq_self)
qed

lemma small_rune: "n < 128 \<Longrightarrow> scalar_of (rune_of_int (word_of_nat n)) = n"
  by (simp add: rune_of_nat scalar_of_def is_scalar_def)

text \<open>The text made from a count is never its decimal notation.\<close>

lemma rune_not_itoa: "string_of_rune (rune_of_int (word_of_nat n)) \<noteq> ascii (itoa (int n))"
proof
  let ?r = "scalar_of (rune_of_int (word_of_nat n))"
  assume eq: "string_of_rune (rune_of_int (word_of_nat n)) = ascii (itoa (int n))"
  obtain d ds where d: "ascii (nat_digits n) = d # ds" "48 \<le> d" "d < 58" "ds = [] \<longrightarrow> n < 10 \<and> d = 48 + n"
    using nat_digits_bytes by blast
  obtain b bs where b: "encode_scalar ?r = b # bs" "if ?r < 128 then b = ?r \<and> bs = [] else 128 \<le> b"
    using encode_scalar_head by blast
  have "b = d" "bs = ds" using eq b(1) d(1) by (simp_all add: string_of_rune_def itoa_def)
  then have "?r = d" "ds = []" using b(2) d(3) by (auto split: if_splits)
  then show False using d(4) small_rune by simp
qed

section \<open>Properties\<close>

text \<open>
  C31: the first service answers every request, whatever the database does, with a message that is
  valid UTF-8, as its protocol buffer field requires; but that message never shows the count in
  decimal: it ends in the character with the number of rows as its code. On the table that
  the migration creates, where only this handler inserts, every request is answered
  alike, by the character with code one. The second service answers with the name, for any valid
  name. The TLS server registers the same services and differs by its credentials only.
\<close>

theorem grpc_replies:
  "(\<exists>m. SayHello insert_down count_err name user_p = (Inr m, snd (insert_user insert_down user_p)) \<and>
      decode_utf8 m \<noteq> None \<and>
      (count_err = None \<longrightarrow>
        m \<noteq> ascii ''Hello 1 '' @ ascii (itoa (int (card (snd (insert_user insert_down user_p))))))) \<and>
   (user_p \<subseteq> {1} \<longrightarrow> SayHello None None name user_p = (Inr (ascii ''Hello 1 '' @ [1]), {1})) \<and>
   (decode_utf8 n2 \<noteq> None \<longrightarrow> (\<exists>m. SayHello2 n2 = Inr m \<and> decode_utf8 m = Some (ascii ''Hello 2'' @ the (decode_utf8 n2)))) \<and>
   CreateGRPCServerTLS new_server Creds listen (Inr c) registerServices port =
     grpc_Start new_server listen registerServices port [Creds c]"
proof -
  let ?t = "snd (insert_user insert_down user_p)"
  let ?a = "case count_err of None \<Rightarrow> word_of_nat (card ?t) | Some _ \<Rightarrow> (0 :: 64 word)"
  have "decode_utf8 (ascii ''Hello 1 '' @ string_of_rune r) \<noteq> None" for r
    using decode_encode [of "scalar_of r" "[]"] by (simp add: decode_ascii string_of_rune_def)
  moreover have "SayHello insert_down count_err name user_p = (Inr (ascii ''Hello 1 '' @ string_of_rune (rune_of_int ?a)), ?t)"
    by (simp add: SayHello_def split_beta Let_def)
  moreover have "SayHello None None name user_p = (Inr (ascii ''Hello 1 '' @ [1]), {1})" if "user_p \<subseteq> {1}"
    using that by (auto simp: SayHello_def insert_user_def subset_singleton_iff string_of_rune_def encode_scalar_def
        rune_of_int_def scalar_of_def is_scalar_def)
  moreover have "count_err = None \<Longrightarrow> ?a = word_of_nat (card ?t)" by simp
  ultimately show ?thesis
    using rune_not_itoa [of "card ?t"]
    by (auto simp: SayHello2_def decode_ascii CreateGRPCServerTLS_def grpc_StartTLS_def loadTLSCredentials_def
        grpc_Start_def)
qed

theorem grpc_replies_witness:
  "SayHello None None ''Name1'' {} = (Inr [72, 101, 108, 108, 111, 32, 49, 32, 1], {1})"
  using grpc_replies [of None None "''Name1''" "{}" "[]", THEN conjunct2, THEN conjunct1] by (simp add: ascii_def)

end
