(* ===== verification/Http_Client.thy ===== *)
theory Http_Client
  imports Prelude
begin

text \<open>
  The HTTP client of \<^verbatim>\<open>server/http_client.go\<close>, whose transport lets through requests to one host only,
  and the program \<^verbatim>\<open>cmd/http_client/main.go\<close> that uses it. \<open>URL.String\<close>, its escaping and
  \<open>strings.EqualFold\<close> of the Go library are modelled as far as the transport uses them (no opaque
  part, no \<open>RawPath\<close>; folding of ASCII letters, since what \<open>String\<close> writes is ASCII when the scheme
  and the query are). \<open>http.Client.Post\<close> is modelled with its redirects; headers other than \<open>Location\<close> are left out.
  The parser of URLs and of references, and the transport below, \<open>rt\<close>, are parameters.
\<close>

section \<open>URLs of the Go library\<close>

record url =
  Scheme :: string
  User :: "string option"
  Host :: string
  Path :: string
  RawQuery :: string
  Fragment :: string

definition alnum :: "char \<Rightarrow> bool" where
  "alnum c \<longleftrightarrow> (let n = of_char c :: nat in 48 \<le> n \<and> n \<le> 57 \<or> 65 \<le> n \<and> n \<le> 90 \<or> 97 \<le> n \<and> n \<le> 122)"

definition unreserved :: "char \<Rightarrow> bool" where
  "unreserved c \<longleftrightarrow> alnum c \<or> c \<in> set ''-_.~''"

definition host_keeps :: "char \<Rightarrow> bool" where
  "host_keeps c \<longleftrightarrow> unreserved c \<or> c \<in> set ''!$&()*+,;=:[]<>'' \<or> of_char c \<in> {34, 39 :: nat}"

definition path_keeps :: "char \<Rightarrow> bool" where
  "path_keeps c \<longleftrightarrow> unreserved c \<or> c \<in> set ''$&+,/:;=@''"

definition fragment_keeps :: "char \<Rightarrow> bool" where
  "fragment_keeps c \<longleftrightarrow> unreserved c \<or> c \<in> set ''$&+,/:;=?@!()*''"

definition escape_char :: "char \<Rightarrow> string" where
  "escape_char c = (let n = of_char c :: nat in [CHR ''%'', ''0123456789ABCDEF'' ! (n div 16), ''0123456789ABCDEF'' ! (n mod 16)])"

definition escape :: "(char \<Rightarrow> bool) \<Rightarrow> string \<Rightarrow> string" where
  "escape keeps s = concat (map (\<lambda>c. if keeps c then [c] else escape_char c) s)"

definition EscapedPath :: "url \<Rightarrow> string" where
  "EscapedPath u = (if Path u = ''*'' then ''*'' else escape path_keeps (Path u))"

definition url_String :: "url \<Rightarrow> string" where
  "url_String u =
     (let scheme = (if Scheme u \<noteq> [] then Scheme u @ '':'' else []);
          authority = (if Scheme u \<noteq> [] \<or> Host u \<noteq> [] \<or> User u \<noteq> None
            then (if Host u \<noteq> [] \<or> Path u \<noteq> [] \<or> User u \<noteq> None then ''//'' else []) @
              (case User u of None \<Rightarrow> [] | Some ui \<Rightarrow> ui @ ''@'') @ escape host_keeps (Host u)
            else []);
          path = EscapedPath u;
          slash = (if path \<noteq> [] \<and> hd path \<noteq> CHR ''/'' \<and> Host u \<noteq> [] then ''/'' else []);
          dot = (if scheme @ authority @ slash = [] \<and> CHR '':'' \<in> set (takeWhile (\<lambda>c. c \<noteq> CHR ''/'') path) then ''./'' else [])
      in scheme @ authority @ slash @ dot @ path @
         (if RawQuery u \<noteq> [] then ''?'' @ RawQuery u else []) @
         (if Fragment u \<noteq> [] then ''#'' @ escape fragment_keeps (Fragment u) else []))"

definition lower :: "char \<Rightarrow> char" where
  "lower c = (let n = of_char c :: nat in if 65 \<le> n \<and> n \<le> 90 then char_of (n + 32) else c)"

definition EqualFold :: "string \<Rightarrow> string \<Rightarrow> bool" where
  "EqualFold s t \<longleftrightarrow> map lower s = map lower t"

section \<open>The transport\<close>

record ('req, 'resp) singleHostRoundTripper =
  allowed :: url
  rt :: "url \<Rightarrow> 'req \<Rightarrow> 'resp result"

datatype 'resp round = Disallowed string url | Forwarded "'resp result"

definition RoundTrip :: "('req, 'resp) singleHostRoundTripper \<Rightarrow> url \<Rightarrow> 'req \<Rightarrow> 'resp round" where
  "RoundTrip s u req =
     (let domain = \<lparr>Scheme = Scheme u, User = None, Host = Host u, Path = [], RawQuery = [], Fragment = []\<rparr> in
      if \<not> EqualFold (url_String domain) (url_String (allowed s)) then Disallowed (Host u) (allowed s)
      else Forwarded (rt s u req))"

record ('req, 'resp) HttpClientConnection =
  transport :: "('req, 'resp) singleHostRoundTripper"
  timeout :: int
  baseURL :: url

definition GetBaseURL :: "('req, 'resp) HttpClientConnection \<Rightarrow> url" where
  "GetBaseURL c = baseURL c"

definition NewHttpClientConnection ::
  "(url \<Rightarrow> 'req \<Rightarrow> 'resp result) \<Rightarrow> url \<Rightarrow> int \<Rightarrow> ('req, 'resp) HttpClientConnection" where
  "NewHttpClientConnection default_transport target d =
     \<lparr>transport = \<lparr>allowed = target, rt = default_transport\<rparr>, timeout = d, baseURL = target\<rparr>"

text \<open>\<open>Inl\<close>: the process ends with \<open>logger.Fatal\<close>. \<open>tls_of_pem\<close>: the transport that trusts the
  certificates of a file, if it holds any.\<close>

definition NewHttpsClientConnection ::
  "(string \<Rightarrow> (url \<Rightarrow> 'req \<Rightarrow> 'resp result) option) \<Rightarrow> string result \<Rightarrow> url \<Rightarrow> int \<Rightarrow>
     ('req, 'resp) HttpClientConnection result" where
  "NewHttpsClientConnection tls_of_pem file target d = (case file of
       Inl e \<Rightarrow> Inl (''Could not read certificate file: %v'' @ e)
     | Inr certData \<Rightarrow> (case tls_of_pem certData of
           None \<Rightarrow> Inl ''Failed to append cert from PEM''
         | Some baseTransport \<Rightarrow>
             Inr \<lparr>transport = \<lparr>allowed = target, rt = baseTransport\<rparr>, timeout = d, baseURL = target\<rparr>))"

section \<open>The program\<close>

text \<open>\<open>baseURL.ResolveReference(&url.URL{Path: "/empty"})\<close>.\<close>

definition resolve_empty :: "url \<Rightarrow> url" where
  "resolve_empty u = u\<lparr>Path := ''/empty'', RawQuery := [], Fragment := []\<rparr>"

text \<open>A request keeps the body of the one it goes back to, which a redirect may ask to send again.\<close>

record request =
  req_method :: string
  req_body :: "string option"
  first_body :: "string option"

text \<open>A response with what reading its body gives: the bytes read, and an error if it ended with one.\<close>

record response =
  StatusCode :: int
  Status :: string
  Location :: string
  body_text :: string
  body_err :: "string option"

text \<open>Method, whether to follow, and whether the body is sent again (\<open>redirectBehavior\<close> of \<open>net/http\<close>; the body
  of \<open>Post\<close> is a buffer and can be sent again).\<close>

definition redirectBehavior :: "string \<Rightarrow> int \<Rightarrow> string \<times> bool \<times> bool" where
  "redirectBehavior m code =
     (if code \<in> {301, 302, 303} then (if m = ''GET'' \<or> m = ''HEAD'' then m else ''GET'', True, False)
      else if code \<in> {307, 308} then (m, True, True)
      else ([], False, False))"

definition redirected :: "request \<Rightarrow> response \<Rightarrow> bool" where
  "redirected req resp \<longleftrightarrow> fst (snd (redirectBehavior (req_method req) (StatusCode resp))) \<and> Location resp \<noteq> []"

definition next_request :: "request \<Rightarrow> response \<Rightarrow> request" where
  "next_request req resp = (case redirectBehavior (req_method req) (StatusCode resp) of
     (m, _, again) \<Rightarrow> \<lparr>req_method = m, req_body = if again then first_body req else None, first_body = first_body req\<rparr>)"

text \<open>
  What \<open>Post\<close> returns: an error with a nil response, a response, or, after ten requests, an error beside
  the last response, whose body is closed.
\<close>

datatype posted = NoResponse string | Response response | TooMany response

abbreviation disallowed :: string where
  "disallowed \<equiv> ''attempt to request disallowed host''"

text \<open>The loop of \<open>http.Client\<close>, with the URLs of the requests that were sent; \<open>via\<close> is how many came before.\<close>

function post_loop :: "(url \<Rightarrow> string \<Rightarrow> url result) \<Rightarrow> (request, response) singleHostRoundTripper \<Rightarrow> nat \<Rightarrow> url \<Rightarrow>
    request \<Rightarrow> url list \<times> posted" where
  "post_loop resolve t via u req = (case RoundTrip t u req of
       Disallowed h a \<Rightarrow> ([], NoResponse disallowed)
     | Forwarded (Inl err) \<Rightarrow> ([u], NoResponse err)
     | Forwarded (Inr resp) \<Rightarrow>
         if \<not> redirected req resp then ([u], Response resp)
         else (case resolve u (Location resp) of
             Inl err \<Rightarrow> ([u], NoResponse err)
           | Inr u' \<Rightarrow>
               if 10 \<le> Suc via then ([u], TooMany resp)
               else let r = post_loop resolve t (Suc via) u' (next_request req resp) in (u # fst r, snd r)))"
  by pat_completeness auto
termination by (relation "measure (\<lambda>(_, _, via, _). 10 - via)") auto

declare post_loop.simps [simp del]

text \<open>
  \<open>Do\<close>: after a request without a response \<open>resp.Body.Close()\<close> is evaluated on a nil response, which
  panics. The body that was read, as far as it was, is printed even after an error.
\<close>

datatype do_result = DoPanic string | DoPrinted string string

definition request_body :: string where
  "request_body = ''{'' @ [CHR 10] @ ''  \"name\": \"John1\",'' @ [CHR 10] @ ''  \"age\": 30,'' @ [CHR 10] @
     ''  \"email\": \"a@mail.ru\"'' @ [CHR 10] @ ''}''"

definition do_request :: request where
  "do_request = \<lparr>req_method = ''POST'', req_body = Some request_body, first_body = Some request_body\<rparr>"

fun after_post :: "posted \<Rightarrow> do_result" where
  "after_post (NoResponse err) = DoPanic err"
| "after_post (Response resp) = DoPrinted (Status resp) (body_text resp)"
| "after_post (TooMany resp) = DoPrinted (Status resp) []"

text \<open>
  \<open>parse\<close> is what \<open>NewRequest\<close> makes of the address, \<open>resolve\<close> what the client makes of a \<open>Location\<close>.
\<close>

definition http_Do :: "(string \<Rightarrow> url result) \<Rightarrow> (url \<Rightarrow> string \<Rightarrow> url result) \<Rightarrow>
    (request, response) HttpClientConnection \<Rightarrow> url list \<times> do_result" where
  "http_Do parse resolve c = (case parse (url_String (resolve_empty (GetBaseURL c))) of
       Inl err \<Rightarrow> ([], DoPanic err)
     | Inr u \<Rightarrow> apsnd after_post (post_loop resolve (transport c) 0 u do_request))"

section \<open>Lemmas\<close>

definition delimiters :: "char set" where
  "delimiters = {CHR ''/'', CHR ''@'', CHR ''?'', CHR ''#''}"

lemma escape_char_set: "set (escape_char c) \<subseteq> insert (CHR ''%'') (set ''0123456789ABCDEF'')"
proof -
  have "of_char c < (256 :: nat)" by simp
  then have "of_char c div 16 < length ''0123456789ABCDEF''" "of_char c mod 16 < length ''0123456789ABCDEF''"
    by (auto simp: less_mult_imp_div_less)
  from this [THEN nth_mem] show ?thesis by (auto simp: escape_char_def Let_def)
qed

lemma escaped_host_plain: "set (escape host_keeps h) \<inter> delimiters = {}"
proof -
  have "\<not> host_keeps d" "d \<notin> insert (CHR ''%'') (set ''0123456789ABCDEF'')" if "d \<in> delimiters" for d
    using that by (auto simp: delimiters_def host_keeps_def unreserved_def alnum_def)
  then show ?thesis using escape_char_set by (fastforce simp: escape_def split: if_splits)
qed

lemma escape_Nil_iff [simp]: "escape keeps s = [] \<longleftrightarrow> s = []"
  by (cases s) (simp_all add: escape_def escape_char_def Let_def)

lemma escape_kept: "list_all keeps s \<Longrightarrow> escape keeps s = s"
  by (induction s) (simp_all add: escape_def)

lemma lower_other: "\<not> alnum d \<Longrightarrow> lower c = d \<longleftrightarrow> c = d"
proof -
  assume d: "\<not> alnum d"
  have "of_char (lower c) = (of_char c + 32 :: nat)" if "65 \<le> (of_char c :: nat)" "of_char c \<le> (90 :: nat)"
    using that by (simp add: lower_def Let_def)
  then have "alnum (lower c)" if "lower c \<noteq> c"
    using that by (cases "65 \<le> (of_char c :: nat) \<and> of_char c \<le> (90 :: nat)") (auto simp: alnum_def lower_def Let_def)
  then show ?thesis using d by (metis (full_types) alnum_def lower_def)
qed

lemma lower_mem: "\<not> alnum d \<Longrightarrow> d \<in> set (map lower s) \<longleftrightarrow> d \<in> set s"
  using lower_other by force

lemma fold_member: "map lower s = map lower t \<Longrightarrow> \<not> alnum d \<Longrightarrow> d \<in> set s \<longleftrightarrow> d \<in> set t"
  using lower_mem by metis

definition scheme_ok :: "string \<Rightarrow> bool" where
  "scheme_ok s \<longleftrightarrow> s \<noteq> [] \<and> CHR '':'' \<notin> set s"

text \<open>The part of the URL after \<open>://\<close>.\<close>

definition bare :: "url \<Rightarrow> bool" where
  "bare u \<longleftrightarrow> User u = None \<and> Path u = [] \<and> RawQuery u = [] \<and> Fragment u = []"

text \<open>The scheme and the host of the target, up to the case of letters.\<close>

definition same_host :: "url \<Rightarrow> url \<Rightarrow> bool" where
  "same_host target u \<longleftrightarrow> Host u \<noteq> [] \<and> map lower (Scheme u) = map lower (Scheme target) \<and>
     map lower (escape host_keeps (Host u)) = map lower (escape host_keeps (Host target))"

lemma EscapedPath_Nil_iff [simp]: "EscapedPath u = [] \<longleftrightarrow> Path u = []"
  by (simp add: EscapedPath_def)

lemma url_String_split:
  assumes "Scheme u \<noteq> []" "Host u \<noteq> []"
  obtains rest where "url_String u = Scheme u @ CHR '':'' # ''//'' @ rest"
    "bare u \<Longrightarrow> rest = escape host_keeps (Host u)" "\<not> bare u \<Longrightarrow> set rest \<inter> delimiters \<noteq> {}"
proof -
  let ?p = "EscapedPath u"
  let ?q = "if RawQuery u \<noteq> [] then ''?'' @ RawQuery u else []"
  let ?f = "if Fragment u \<noteq> [] then ''#'' @ escape fragment_keeps (Fragment u) else []"
  let ?s = "if ?p \<noteq> [] \<and> hd ?p \<noteq> CHR ''/'' then ''/'' else []"
  let ?rest = "(case User u of None \<Rightarrow> [] | Some ui \<Rightarrow> ui @ ''@'') @ escape host_keeps (Host u) @ ?s @ ?p @ ?q @ ?f"
  have "CHR ''/'' \<in> set (?s @ ?p)" if "Path u \<noteq> []"
    using that by (cases ?p) auto
  then have "set ?rest \<inter> delimiters \<noteq> {}" if "\<not> bare u"
    using that by (auto simp: bare_def delimiters_def split: option.splits)
  moreover have "?rest = escape host_keeps (Host u)" if "bare u"
    using that by (simp add: bare_def EscapedPath_def escape_def)
  moreover have "url_String u = Scheme u @ CHR '':'' # ''//'' @ ?rest"
    using assms by (simp add: url_String_def Let_def)
  ultimately show ?thesis using that by blast
qed

lemma domain_String:
  "url_String \<lparr>Scheme = s, User = None, Host = h, Path = [], RawQuery = [], Fragment = []\<rparr> =
     (if s \<noteq> [] then s @ '':'' else []) @ (if h \<noteq> [] then ''//'' else []) @ escape host_keeps h"
  by (simp add: url_String_def Let_def EscapedPath_def escape_def)

lemma RoundTrip_forwards_iff:
  assumes "scheme_ok (Scheme (allowed s))" "Host (allowed s) \<noteq> []" "scheme_ok (Scheme u)"
  shows "RoundTrip s u req = Forwarded (rt s u req) \<longleftrightarrow>
    bare (allowed s) \<and> same_host (allowed s) u"
proof -
  let ?t = "allowed s"
  let ?e = "escape host_keeps (Host u)"
  have l: "lower (CHR '':'') = CHR '':''" "lower (CHR ''/'') = CHR ''/''" by (simp_all add: lower_def)
  obtain rest where rest: "url_String ?t = Scheme ?t @ CHR '':'' # ''//'' @ rest"
    "bare ?t \<Longrightarrow> rest = escape host_keeps (Host ?t)" "\<not> bare ?t \<Longrightarrow> set rest \<inter> delimiters \<noteq> {}"
    using url_String_split [of ?t] assms by (auto simp: scheme_ok_def)
  have nodel: "map lower ?e \<noteq> map lower rest" if full: "\<not> bare ?t"
  proof
    assume eq: "map lower ?e = map lower rest"
    obtain d where "d \<in> set rest" "d \<in> delimiters" using rest(3) [OF full] by auto
    moreover from this have "\<not> alnum d" by (auto simp: delimiters_def alnum_def)
    ultimately show False using fold_member [OF eq] escaped_host_plain by blast
  qed
  have colon: "CHR '':'' \<notin> set (map lower (Scheme u))" "CHR '':'' \<notin> set (map lower (Scheme ?t))"
    using lower_mem [of "CHR '':''" "Scheme u"] lower_mem [of "CHR '':''" "Scheme ?t"] assms
    by (simp_all add: scheme_ok_def alnum_def)
  have "EqualFold (url_String \<lparr>Scheme = Scheme u, User = None, Host = Host u, Path = [], RawQuery = [], Fragment = []\<rparr>)
      (url_String ?t) \<longleftrightarrow>
    map lower (Scheme u) = map lower (Scheme ?t) \<and> Host u \<noteq> [] \<and> map lower ?e = map lower rest"
    (is "?fold \<longleftrightarrow> ?r")
  proof
    assume ?fold
    then have "map lower (Scheme u) @ CHR '':'' # map lower ((if Host u \<noteq> [] then ''//'' else []) @ ?e) =
        map lower (Scheme ?t) @ CHR '':'' # map lower (''//'' @ rest)"
      using assms(3) by (auto simp: EqualFold_def domain_String rest(1) scheme_ok_def l)
    from split_first [OF this colon] show ?r by (cases "Host u = []") (simp_all add: l escape_def)
  qed (use assms(3) in \<open>simp add: EqualFold_def domain_String rest(1) scheme_ok_def\<close>)
  then show ?thesis using nodel rest(2) by (auto simp: RoundTrip_def Let_def same_host_def)
qed

lemma RoundTrip_cases:
  assumes "scheme_ok (Scheme (allowed s))" "Host (allowed s) \<noteq> []" "scheme_ok (Scheme u)"
  shows "RoundTrip s u req = (if bare (allowed s) \<and> same_host (allowed s) u then Forwarded (rt s u req)
    else Disallowed (Host u) (allowed s))"
  using RoundTrip_forwards_iff [OF assms, of req] by (auto simp: RoundTrip_def Let_def)

text \<open>What is relied on of the parser: a reference resolved against a URL with a scheme has one too.\<close>

definition resolve_laws :: "(url \<Rightarrow> string \<Rightarrow> url result) \<Rightarrow> bool" where
  "resolve_laws resolve \<longleftrightarrow> (\<forall>u loc v. scheme_ok (Scheme u) \<and> resolve u loc = Inr v \<longrightarrow> scheme_ok (Scheme v))"

lemma post_loop_step:
  assumes "scheme_ok (Scheme (allowed t))" "Host (allowed t) \<noteq> []" "scheme_ok (Scheme u)"
  shows "post_loop resolve t via u req = (if \<not> (bare (allowed t) \<and> same_host (allowed t) u) then ([], NoResponse disallowed)
    else case rt t u req of
        Inl err \<Rightarrow> ([u], NoResponse err)
      | Inr resp \<Rightarrow>
         if \<not> redirected req resp then ([u], Response resp)
         else (case resolve u (Location resp) of
             Inl err \<Rightarrow> ([u], NoResponse err)
           | Inr u' \<Rightarrow>
               if 10 \<le> Suc via then ([u], TooMany resp)
               else let r = post_loop resolve t (Suc via) u' (next_request req resp) in (u # fst r, snd r)))"
  using RoundTrip_cases [OF assms, of req] by (simp add: post_loop.simps [of resolve t via u req] split: sum.split)

lemma post_loop_sent:
  assumes t: "scheme_ok (Scheme (allowed t))" "Host (allowed t) \<noteq> []" and laws: "resolve_laws resolve"
    and "scheme_ok (Scheme u)" "via < 10"
  shows "(\<forall>v \<in> set (fst (post_loop resolve t via u req)). same_host (allowed t) v) \<and>
    length (fst (post_loop resolve t via u req)) \<le> 10 - via"
  using assms(4,5)
proof (induction "10 - via" arbitrary: via u req rule: less_induct)
  case less
  have deeper: "(\<forall>v \<in> set (fst (post_loop resolve t (Suc via) u' req')). same_host (allowed t) v) \<and>
      length (fst (post_loop resolve t (Suc via) u' req')) \<le> 10 - Suc via"
    if "resolve u loc = Inr u'" "\<not> 10 \<le> Suc via" for u' loc req'
    using less.hyps [of "Suc via" u' req'] that laws less.prems by (auto simp: resolve_laws_def)
  have deeper_len: "Suc (length (fst (post_loop resolve t (Suc via) u' req'))) \<le> 10 - via"
    if "resolve u loc = Inr u'" "\<not> 10 \<le> Suc via" for u' loc req'
    using deeper [OF that, of req'] that(2) by arith
  show ?case
    using deeper deeper_len less.prems(2)
    by (auto simp: post_loop_step [OF t less.prems(1)] Let_def split: sum.split)
qed

section \<open>Properties\<close>

definition http_target :: url where
  "http_target = \<lparr>Scheme = ''http'', User = None, Host = ''localhost:8081'', Path = [], RawQuery = [], Fragment = []\<rparr>"

lemma same_host_resolve_empty: "Host target \<noteq> [] \<Longrightarrow> same_host target (resolve_empty target)"
  by (simp add: same_host_def resolve_empty_def)

text \<open>
  C30: the transport forwards a request exactly when the target consists of a scheme and a host only
  and the request's scheme and (escaped) host are the target's up to the case of letters; all
  other requests are refused without touching the network. A target with a path, a query, a
  fragment or credentials therefore refuses every request, even those to its own host, and
  \<open>Do\<close> on a client for it panics. Otherwise \<open>Do\<close> sends at most ten requests, the first one to \<^verbatim>\<open>/empty\<close> of the
  target, and whatever redirects the answers ask for, each of them goes to the target's host. A
  redirect to another host is refused, and \<open>Do\<close> then panics, as it does when the transport fails, since it goes on
  with a nil response; an answer that is no redirect is printed with its status and what was
  read of its body. This holds when the printed address of \<^verbatim>\<open>/empty\<close> is parsed back as it was, and
  references are resolved to addresses with a scheme.
\<close>

theorem client_talks_to_one_host:
  fixes rt1 :: "url \<Rightarrow> request \<Rightarrow> response result"
  assumes "scheme_ok (Scheme target)" "Host target \<noteq> []" "scheme_ok (Scheme u)"
    and "parse (url_String (resolve_empty target)) = Inr (resolve_empty target)" "resolve_laws resolve"
    and "http_Do parse resolve (NewHttpClientConnection rt1 target d) = (sent, result)"
  shows "(RoundTrip (transport (NewHttpClientConnection rt0 target d)) u req = Forwarded (rt0 u req) \<longleftrightarrow>
      bare target \<and> same_host target u) \<and>
    (\<forall>v \<in> set sent. same_host target v) \<and> length sent \<le> 10 \<and>
    (if \<not> bare target then sent = [] \<and> result = DoPanic disallowed
     else sent \<noteq> [] \<and> hd sent = resolve_empty target \<and>
       (case rt1 (resolve_empty target) do_request of
          Inl err \<Rightarrow> result = DoPanic err
        | Inr resp \<Rightarrow>
            if \<not> redirected do_request resp then tl sent = [] \<and> result = DoPrinted (Status resp) (body_text resp)
            else \<forall>v. resolve (resolve_empty target) (Location resp) = Inr v \<and> \<not> same_host target v \<longrightarrow>
              tl sent = [] \<and> result = DoPanic disallowed))"
proof -
  let ?t = "\<lparr>allowed = target, rt = rt1\<rparr>" and ?e = "resolve_empty target"
  have e: "scheme_ok (Scheme ?e)" "same_host target ?e"
    using assms(1,2) same_host_resolve_empty by (simp_all add: resolve_empty_def)
  obtain p where p: "post_loop resolve ?t 0 ?e do_request = (sent, p)" "result = after_post p"
    using assms(4,6) by (cases "post_loop resolve ?t 0 ?e do_request")
      (auto simp: http_Do_def NewHttpClientConnection_def GetBaseURL_def)
  have "(\<forall>v \<in> set sent. same_host target v) \<and> length sent \<le> 10"
    using post_loop_sent [of ?t resolve ?e 0 do_request] assms(1,2,5) e(1) p(1) by simp
  moreover have "RoundTrip \<lparr>allowed = target, rt = rt0\<rparr> u req = Forwarded (rt0 u req) \<longleftrightarrow> bare target \<and> same_host target u"
    using RoundTrip_forwards_iff [of "\<lparr>allowed = target, rt = rt0\<rparr>" u req] assms(1-3) by simp
  moreover have "post_loop resolve ?t 1 v r = ([], NoResponse disallowed)"
    if "resolve ?e loc = Inr v" "\<not> same_host target v" for loc v r
    using post_loop_step [of ?t v resolve 1 r] that assms(1,2,5) e(1) by (auto simp: resolve_laws_def)
  ultimately show ?thesis
    using p e(2) post_loop_step [of ?t ?e resolve 0 do_request] assms(1,2) e(1)
    by (auto simp: NewHttpClientConnection_def Let_def split: if_splits sum.splits)
qed

text \<open>An answer that redirects to another host.\<close>

definition demo_parse :: "string \<Rightarrow> url result" where
  "demo_parse s = (if s = ''http://localhost:8081/empty'' then Inr (resolve_empty http_target) else Inl ''unsupported'')"

definition demo_resolve :: "url \<Rightarrow> string \<Rightarrow> url result" where
  "demo_resolve u loc = (if loc = ''http://elsewhere/'' then Inr (u\<lparr>Host := ''elsewhere'', Path := ''/''\<rparr>) else Inl ''unsupported'')"

definition moved :: response where
  "moved = \<lparr>StatusCode = 302, Status = ''302 Found'', Location = ''http://elsewhere/'', body_text = [], body_err = None\<rparr>"

theorem client_talks_to_one_host_witness:
  "http_Do demo_parse demo_resolve (NewHttpClientConnection (\<lambda>_ _. Inr moved) http_target 0) =
     ([resolve_empty http_target], DoPanic disallowed)"
proof -
  have ok: "scheme_ok (Scheme http_target)" "Host http_target \<noteq> []" by (simp_all add: http_target_def scheme_ok_def)
  have keep: "escape host_keeps ''localhost:8081'' = ''localhost:8081''" "escape path_keeps ''/empty'' = ''/empty''"
      "escape host_keeps ''elsewhere'' = ''elsewhere''"
    by (rule escape_kept, simp add: host_keeps_def path_keeps_def unreserved_def alnum_def)+
  have parse: "demo_parse (url_String (resolve_empty http_target)) = Inr (resolve_empty http_target)"
    by (simp add: demo_parse_def url_String_def resolve_empty_def http_target_def EscapedPath_def keep Let_def)
  have laws: "resolve_laws demo_resolve" by (auto simp: resolve_laws_def demo_resolve_def split: if_splits)
  have "bare http_target" by (simp add: http_target_def bare_def)
  moreover have "map lower ''elsewhere'' \<noteq> map lower ''localhost:8081''" by code_simp
  then have "\<not> same_host http_target ((resolve_empty http_target)\<lparr>Host := ''elsewhere'', Path := ''/''\<rparr>)"
    by (simp add: same_host_def http_target_def keep resolve_empty_def)
  moreover have "redirected do_request moved" "demo_resolve v (Location moved) = Inr (v\<lparr>Host := ''elsewhere'', Path := ''/''\<rparr>)" for v
    by (simp_all add: redirected_def do_request_def moved_def redirectBehavior_def demo_resolve_def)
  moreover obtain sent result where r: "http_Do demo_parse demo_resolve (NewHttpClientConnection (\<lambda>_ _. Inr moved) http_target 0) = (sent, result)"
    by (meson surj_pair)
  moreover note client_talks_to_one_host [OF ok ok(1) parse laws r, of "\<lambda>_ _. Inl []" "()"]
  ultimately show ?thesis by (cases sent) auto
qed

end
