(* ===== verification/Elastic.thy ===== *)
theory Elastic
  imports Prelude
begin

text \<open>
  The Elasticsearch facade \<^verbatim>\<open>pkg/elastic.go\<close> and its program \<^verbatim>\<open>cmd/elastic/main.go\<close>. The client library,
  the server and the JSON encoder are parameters: what a request returns is a function \<open>srv\<close> of the
  request. Error texts are represented by which call failed and the cause. The calls record
  the requests they send and the closing of response bodies.
\<close>

section \<open>Requests and responses\<close>

text \<open>A value of the maps that are encoded: one the caller gave, or one of the literals.\<close>

datatype 'q json_val = Given 'q | JBool bool | JInt int | JObj "(string \<times> 'q json_val) list"

datatype es_request =
    InfoRequest
  | IndexRequest (Index: string) (DocumentID: string) (Body: string) (Refresh: string)
  | SearchRequest (Indices: "string list") (Body: string)

record 'm es_response =
  IsError :: bool
  body_text :: string
  decoded :: "'m result"

datatype es_act = Sent es_request | BodyClosed

datatype es_error = ClientError string | MarshalError string | DoError string | StatusError string | DecodeError string

type_synonym 'm es_server = "es_request \<Rightarrow> 'm es_response result"

section \<open>The facade\<close>

definition NewElasticFacade :: "unit result \<Rightarrow> 'm es_server \<Rightarrow> (es_error + unit) \<times> es_act list" where
  "NewElasticFacade new_client srv = (case new_client of
       Inl err \<Rightarrow> (Inl (ClientError err), [])
     | Inr _ \<Rightarrow> (case srv InfoRequest of
           Inl err \<Rightarrow> (Inl (DoError err), [Sent InfoRequest])
         | Inr res \<Rightarrow>
             (if IsError res then Inl (StatusError (body_text res)) else Inr (), [Sent InfoRequest, BodyClosed])))"

definition IndexDocument :: "('q json_val \<Rightarrow> string result) \<Rightarrow> 'm es_server \<Rightarrow> string \<Rightarrow> string \<Rightarrow> 'q json_val \<Rightarrow>
    (es_error + unit) \<times> es_act list" where
  "IndexDocument marshal srv index docID doc = (case marshal doc of
       Inl err \<Rightarrow> (Inl (MarshalError err), [])
     | Inr docJSON \<Rightarrow>
        (let req = IndexRequest index docID docJSON ''true'' in
         case srv req of
           Inl err \<Rightarrow> (Inl (DoError err), [Sent req])
         | Inr res \<Rightarrow>
             (if IsError res then Inl (StatusError (body_text res)) else Inr (), [Sent req, BodyClosed])))"

definition Search :: "('q json_val \<Rightarrow> string result) \<Rightarrow> 'm es_server \<Rightarrow> string \<Rightarrow> 'q json_val \<Rightarrow>
    (es_error + 'm) \<times> es_act list" where
  "Search marshal srv index query =
     (let searchQuery = JObj [(''query'', query), (''track_total_hits'', JBool True)] in
      case marshal searchQuery of
        Inl err \<Rightarrow> (Inl (MarshalError err), [])
      | Inr queryJSON \<Rightarrow>
         (let req = SearchRequest [index] queryJSON in
          case srv req of
            Inl err \<Rightarrow> (Inl (DoError err), [Sent req])
          | Inr res \<Rightarrow>
              (if IsError res then Inl (StatusError (body_text res))
               else case decoded res of Inl err \<Rightarrow> Inl (DecodeError err) | Inr searchResult \<Rightarrow> Inr searchResult,
               [Sent req, BodyClosed])))"

definition Aggregate :: "('q json_val \<Rightarrow> string result) \<Rightarrow> 'm es_server \<Rightarrow> string \<Rightarrow> 'q json_val \<Rightarrow>
    (es_error + 'm) \<times> es_act list" where
  "Aggregate marshal srv index aggregation =
     (let searchQuery = JObj [(''size'', JInt 0), (''aggs'', aggregation)] in
      case marshal searchQuery of
        Inl err \<Rightarrow> (Inl (MarshalError err), [])
      | Inr searchJSON \<Rightarrow>
         (let req = SearchRequest [index] searchJSON in
          case srv req of
            Inl err \<Rightarrow> (Inl (DoError err), [Sent req])
          | Inr res \<Rightarrow>
              (if IsError res then Inl (StatusError (body_text res))
               else case decoded res of Inl err \<Rightarrow> Inl (DecodeError err) | Inr aggResult \<Rightarrow> Inr aggResult,
               [Sent req, BodyClosed])))"

section \<open>The program\<close>

definition demo_doc :: "string json_val" where
  "demo_doc = JObj [(''title'', Given ''Hello from Go 2''), (''views'', JInt 47)]"

definition demo_query :: "string json_val" where
  "demo_query = JObj [(''match'', JObj [(''title'', Given ''Go'')])]"

definition demo_aggregation :: "string json_val" where
  "demo_aggregation = JObj [(''average_views'', JObj [(''avg'', JObj [(''field'', Given ''views'')])])]"

text \<open>The four calls of \<open>main\<close> in order; the first that fails ends the process, without the deferred
  \<open>app.Stop\<close>. \<open>indent\<close> is \<open>json.MarshalIndent\<close>. The value is what is logged and printed.\<close>

datatype elastic_end = ElasticFatal es_error | IndentFatal string | ElasticRuns

fun main_call :: "(es_error + 'r) \<times> es_act list \<Rightarrow> ('r \<Rightarrow> elastic_end \<times> es_act list) \<Rightarrow> elastic_end \<times> es_act list" where
  "main_call (Inl err, acts) k = (ElasticFatal err, acts)"
| "main_call (Inr r, acts) k = (fst (k r), acts @ snd (k r))"

definition elastic_main :: "(string json_val \<Rightarrow> string result) \<Rightarrow> ('m \<Rightarrow> string result) \<Rightarrow> unit result \<Rightarrow> 'm es_server \<Rightarrow>
    elastic_end \<times> es_act list" where
  "elastic_main marshal indent new_client srv =
     main_call (NewElasticFacade new_client srv) (\<lambda>_.
     main_call (IndexDocument marshal srv ''test-index'' ''2'' demo_doc) (\<lambda>_.
     main_call (Search marshal srv ''test-index'' demo_query) (\<lambda>m.
     main_call (Aggregate marshal srv ''test-index'' demo_aggregation) (\<lambda>aggResult.
       (case indent aggResult of Inl err \<Rightarrow> IndentFatal err | Inr _ \<Rightarrow> ElasticRuns, [])))))"

section \<open>Lemmas\<close>

text \<open>Every response body is closed, once, before the next request is sent.\<close>

fun tidy :: "'m es_server \<Rightarrow> es_act list \<Rightarrow> bool" where
  "tidy srv [] = True"
| "tidy srv (Sent r # acts) = (if isl (srv r) then tidy srv acts
     else case acts of BodyClosed # acts' \<Rightarrow> tidy srv acts' | _ \<Rightarrow> False)"
| "tidy srv (BodyClosed # acts) = False"

lemma tidy_append: "tidy srv xs \<Longrightarrow> tidy srv ys \<Longrightarrow> tidy srv (xs @ ys)"
  by (induction srv xs rule: tidy.induct) (auto split: if_splits list.splits es_act.splits)

lemma tidy_calls:
  "tidy srv (snd (NewElasticFacade nc srv))" "tidy srv (snd (IndexDocument marshal srv index docID doc))"
  "tidy srv (snd (Search marshal srv index q))" "tidy srv (snd (Aggregate marshal srv index q))"
  by (simp_all add: NewElasticFacade_def IndexDocument_def Search_def Aggregate_def Let_def split: sum.split)

lemma tidy_main_call: "tidy srv (snd c) \<Longrightarrow> (\<And>r. tidy srv (snd (k r))) \<Longrightarrow> tidy srv (snd (main_call c k))"
  by (cases "(c, k)" rule: main_call.cases) (simp_all add: tidy_append)

lemma main_call_runs: "fst (main_call c k) = ElasticRuns \<longleftrightarrow> (\<exists>r. fst c = Inr r \<and> fst (k r) = ElasticRuns)"
  by (cases "(c, k)" rule: main_call.cases) auto

lemma indent_runs: "(case r of Inl err \<Rightarrow> IndentFatal err | Inr _ \<Rightarrow> ElasticRuns) = ElasticRuns \<longleftrightarrow> \<not> isl r"
  by (cases r) simp_all

section \<open>Properties\<close>

text \<open>
  Each call of the facade succeeds exactly when the value could be encoded, the request was
  answered without an error status and, for the two queries, the answer could be decoded; the
  answer is then returned. \<open>Search\<close> and \<open>Aggregate\<close> are the same call but for the body they send. Whatever
  happens, in every call and in the whole program each response body is closed once, before
  the next request; the program reaches \<open>app.Run\<close> exactly when all four calls succeed and the
  result can be printed.
\<close>

lemma elastic_calls:
  "(fst (Search marshal srv index q) = Inr m \<longleftrightarrow>
      (\<exists>j res. marshal (JObj [(''query'', q), (''track_total_hits'', JBool True)]) = Inr j \<and>
        srv (SearchRequest [index] j) = Inr res \<and> \<not> IsError res \<and> decoded res = Inr m)) \<and>
   (fst (IndexDocument marshal srv index docID doc) = Inr () \<longleftrightarrow>
      (\<exists>j res. marshal doc = Inr j \<and> srv (IndexRequest index docID j ''true'') = Inr res \<and> \<not> IsError res)) \<and>
   Aggregate marshal srv index q =
      Search (\<lambda>_. marshal (JObj [(''size'', JInt 0), (''aggs'', q)])) srv index q \<and>
   tidy srv (snd (Search marshal srv index q)) \<and> tidy srv (snd (elastic_main marshal1 indent new_client srv)) \<and>
   (fst (elastic_main marshal1 indent new_client srv) = ElasticRuns \<longleftrightarrow>
      (\<exists>m a. fst (NewElasticFacade new_client srv) = Inr () \<and>
        fst (IndexDocument marshal1 srv ''test-index'' ''2'' demo_doc) = Inr () \<and>
        fst (Search marshal1 srv ''test-index'' demo_query) = Inr m \<and>
        fst (Aggregate marshal1 srv ''test-index'' demo_aggregation) = Inr a \<and> \<not> isl (indent a)))"
  (is "?s \<and> ?i \<and> ?a \<and> ?t \<and> ?m \<and> ?r")
proof (intro conjI)
  show ?s by (auto simp: Search_def Let_def split: sum.splits if_splits)
  show ?i by (auto simp: IndexDocument_def Let_def split: sum.splits if_splits)
  show ?a by (simp add: Aggregate_def Search_def Let_def)
  show ?t by (rule tidy_calls)
  show ?m by (simp add: elastic_main_def tidy_main_call tidy_calls)
  show ?r by (auto simp: elastic_main_def main_call_runs indent_runs)
qed

end
