(* ===== verification/Epoll.thy ===== *)
theory Epoll
  imports Prelude "HOL-Library.Sublist"
begin

text \<open>
  The event loop of \<^verbatim>\<open>cmd/epoll/main.go\<close>: what is typed is written into a pipe, what arrives from the
  pipe is printed, and the text \<^verbatim>\<open>!quit\<close> ends the program. The kernel is outside: which descriptors a
  wait reports is an input, restricted by the documented behaviour of level-triggered epoll
  (\<open>valid_events\<close>). Bytes are numbers below 256.
\<close>

type_synonym bytes = "nat list"

section \<open>The text functions\<close>

text \<open>\<open>strings.TrimSpace\<close> on UTF-8: the codes of the Unicode white space.\<close>

definition space_codes :: "bytes list" where
  "space_codes = map (\<lambda>b. [b]) [9, 10, 11, 12, 13, 32] @ [[194, 133], [194, 160], [225, 154, 128]] @
     map (\<lambda>b. [226, 128, b]) ([128..<139] @ [168, 169, 175]) @
     [[226, 129, 159], [227, 128, 128]]"

function trim_left :: "bytes list \<Rightarrow> bytes \<Rightarrow> bytes" where
  "trim_left codes s = (case find (\<lambda>c. c \<noteq> [] \<and> prefix c s) codes of
       None \<Rightarrow> s | Some c \<Rightarrow> trim_left codes (drop (length c) s))"
  by pat_completeness auto
termination
proof (relation "measure (length \<circ> snd)", simp)
  fix codes s c
  assume "find (\<lambda>c. c \<noteq> [] \<and> prefix c s) codes = Some c"
  then have "c \<noteq> []" "prefix c s" by (auto simp: find_Some_iff)
  then show "((codes, drop (length c) s), codes, s) \<in> measure (length \<circ> snd)"
    using prefix_length_le [of c s] by (cases c) auto
qed

declare trim_left.simps [simp del]

definition TrimSpace :: "bytes \<Rightarrow> bytes" where
  "TrimSpace s = rev (trim_left (map rev space_codes) (rev (trim_left space_codes s)))"

definition quit_text :: bytes where
  "quit_text = map of_char ''!quit''"

section \<open>The pipe\<close>

datatype fd = EpollFD | ReadFD | WriteFD

text \<open>\<open>createCustomPipe\<close>, with the descriptors it closes.\<close>

definition createCustomPipe :: "string option \<Rightarrow> string option \<Rightarrow> unit result \<times> fd list" where
  "createCustomPipe pipe_err nonblock_err = (case pipe_err of
       Some err \<Rightarrow> (Inl err, [])
     | None \<Rightarrow> (case nonblock_err of
           Some err \<Rightarrow> (Inl err, [ReadFD, WriteFD])
         | None \<Rightarrow> (Inr (), [])))"

text \<open>The set-up in \<open>main\<close>: each error panics, which runs the deferred closes, last one first.\<close>

definition epoll_setup :: "string option \<Rightarrow> string option \<Rightarrow> string option \<Rightarrow> string option \<Rightarrow> string option \<Rightarrow> string option \<Rightarrow>
    unit result \<times> fd list" where
  "epoll_setup create_err stdin_err ctl_err pipe_err nonblock_err ctl_pipe_err = (case create_err of
       Some err \<Rightarrow> (Inl err, [])
     | None \<Rightarrow> (case stdin_err of
           Some err \<Rightarrow> (Inl err, [EpollFD])
         | None \<Rightarrow> (case ctl_err of
               Some err \<Rightarrow> (Inl err, [EpollFD])
             | None \<Rightarrow> (case createCustomPipe pipe_err nonblock_err of
                   (Inl err, closed) \<Rightarrow> (Inl err, closed @ [EpollFD])
                 | (Inr _, _) \<Rightarrow> (case ctl_pipe_err of
                       Some err \<Rightarrow> (Inl err, [WriteFD, ReadFD, EpollFD])
                     | None \<Rightarrow> (Inr (), []))))))"

section \<open>The loop\<close>

datatype errno = EAGAIN | OtherErrno string

text \<open>What \<open>os.Stdin.Read\<close> returns: an \<open>os.File\<close> wraps every error but \<open>io.EOF\<close>, so that none of them is
  the plain error number the code compares with.\<close>

datatype go_error = EOF | PathError errno | Errno errno

datatype stdin_read = Data bytes | ReadError go_error

text \<open>An event on the standard input carries what the read and the write into the pipe return.\<close>

datatype event = StdinEvent stdin_read "string option" | PipeEvent

datatype loop_end = Quit | Panicked | Blocked

record loop =
  pipe :: bytes
  ended :: "loop_end option"
  typed :: "bytes list"          \<comment> \<open>what was written into the pipe\<close>
  received :: "bytes list"       \<comment> \<open>what was read from it\<close>
  printed :: "bytes list"        \<comment> \<open>the texts printed as events\<close>

abbreviation buf_size :: nat where "buf_size \<equiv> 1024"
abbreviation pipe_capacity :: nat where "pipe_capacity \<equiv> 65536"

definition sendCustomEvent :: "string option \<Rightarrow> bytes \<Rightarrow> loop \<Rightarrow> loop" where
  "sendCustomEvent err v s =
     (if err \<noteq> None then s
      else if pipe_capacity < length (pipe s) + length v then s\<lparr>ended := Some Blocked\<rparr>
      else s\<lparr>pipe := pipe s @ v, typed := typed s @ [v]\<rparr>)"

fun on_event :: "event \<Rightarrow> loop \<Rightarrow> loop" where
  "on_event (StdinEvent (ReadError err) _) s = (if err = Errno EAGAIN then s else s\<lparr>ended := Some Panicked\<rparr>)"
| "on_event (StdinEvent (Data d) write_err) s = sendCustomEvent write_err d s"
| "on_event PipeEvent s =
     (if pipe s = [] then s\<lparr>ended := Some Panicked\<rparr>
      else let buf = take buf_size (pipe s); trimmed = TrimSpace buf in
        s\<lparr>pipe := drop buf_size (pipe s), received := received s @ [buf],
          printed := if trimmed \<noteq> [] then printed s @ [trimmed] else printed s,
          ended := if trimmed = quit_text then Some Quit else ended s\<rparr>)"

fun on_events :: "event list \<Rightarrow> loop \<Rightarrow> loop" where
  "on_events [] s = s"
| "on_events (e # es) s = (let s1 = on_event e s in if ended s1 \<noteq> None then s1 else on_events es s1)"

definition loop_start :: loop where
  "loop_start = \<lparr>pipe = [], ended = None, typed = [], received = [], printed = []\<rparr>"

text \<open>
  What a wait reports: each of the two descriptors at most once, the pipe exactly when it holds
  something. An \<open>os.File\<close> never returns a plain error number, nor more than the buffer holds.
\<close>

fun is_stdin :: "event \<Rightarrow> bool" where
  "is_stdin (StdinEvent _ _) = True"
| "is_stdin PipeEvent = False"

fun read_ok :: "event \<Rightarrow> bool" where
  "read_ok (StdinEvent (Data d) _) \<longleftrightarrow> d \<noteq> [] \<and> length d \<le> buf_size"
| "read_ok (StdinEvent (ReadError e) _) \<longleftrightarrow> (\<nexists>n. e = Errno n)"
| "read_ok PipeEvent \<longleftrightarrow> True"

definition valid_events :: "loop \<Rightarrow> event list \<Rightarrow> bool" where
  "valid_events s es \<longleftrightarrow> length (filter is_stdin es) \<le> 1 \<and>
     length (filter (\<lambda>e. e = PipeEvent) es) = (if pipe s = [] then 0 else 1) \<and> list_all read_ok es"

inductive loop_step :: "loop \<Rightarrow> loop \<Rightarrow> bool" where
  round: "ended s = None \<Longrightarrow> valid_events s es \<Longrightarrow> loop_step s (on_events es s)"
| interrupted: "ended s = None \<Longrightarrow> loop_step s s"
| wait_failed: "ended s = None \<Longrightarrow> loop_step s (s\<lparr>ended := Some Panicked\<rparr>)"

section \<open>Lemmas\<close>

lemma quit_text_nonempty [simp]: "quit_text \<noteq> []" "[] \<noteq> quit_text"
  by (simp_all add: quit_text_def)

definition inv_stream :: "loop \<Rightarrow> bool" where
  "inv_stream s \<longleftrightarrow> concat (received s) @ pipe s = concat (typed s) \<and>
     printed s = filter (\<lambda>b. b \<noteq> []) (map TrimSpace (received s)) \<and>
     (ended s = Some Quit \<longrightarrow> received s \<noteq> [] \<and> TrimSpace (last (received s)) = quit_text) \<and>
     (\<forall>b \<in> set (if ended s = Some Quit then butlast (received s) else received s). TrimSpace b \<noteq> quit_text)"

lemma inv_stream_event: "inv_stream s \<Longrightarrow> ended s = None \<Longrightarrow> inv_stream (on_event e s)"
proof (induction e s rule: on_event.induct)
  case (2 d w s)
  then show ?case by (auto simp: inv_stream_def sendCustomEvent_def simp flip: append_assoc)
qed (auto simp: inv_stream_def Let_def)

lemma inv_stream_events: "inv_stream s \<Longrightarrow> ended s = None \<Longrightarrow> inv_stream (on_events es s)"
  by (induction es s rule: on_events.induct) (auto simp: Let_def inv_stream_event)

text \<open>A round of at most one event of each kind.\<close>

lemma valid_events_cases:
  assumes "valid_events s es"
  obtains "pipe s = []" "es = []" | r w where "pipe s = []" "es = [StdinEvent r w]"
    | "pipe s \<noteq> []" "es = [PipeEvent]"
    | r w where "pipe s \<noteq> []" "es = [StdinEvent r w, PipeEvent]"
    | r w where "pipe s \<noteq> []" "es = [PipeEvent, StdinEvent r w]"
proof -
  have "length es = length (filter is_stdin es) + length (filter (\<lambda>e. e = PipeEvent) es)" for es
  proof (induction es)
    case (Cons e es)
    then show ?case by (cases e) auto
  qed simp
  from this [of es] have "length es \<le> 2" using assms by (auto simp: valid_events_def split: if_splits)
  then consider "es = []" | a where "es = [a]" | a b where "es = [a, b]"
    by (cases es; cases "tl es"; cases "tl (tl es)") auto
  then show ?thesis
  proof cases
    case 2
    then show ?thesis using assms that by (cases a) (auto simp: valid_events_def split: if_splits)
  next
    case 3
    then show ?thesis using assms that by (cases a; cases b) (auto simp: valid_events_def split: if_splits)
  qed (use assms that in \<open>auto simp: valid_events_def split: if_splits\<close>)
qed

text \<open>At a wait the pipe holds at most one buffer; within a round at most two.\<close>

lemma on_events_pipe:
  assumes "valid_events s es" "length (pipe s) \<le> buf_size" "ended s = None"
  shows "length (pipe (on_events es s)) \<le> buf_size \<and> ended (on_events es s) \<noteq> Some Blocked"
  using assms(1)
proof (cases rule: valid_events_cases)
  case (2 r w)
  then show ?thesis using assms by (cases r) (auto simp: sendCustomEvent_def valid_events_def)
next
  case (4 r w)
  then show ?thesis using assms by (cases r) (auto simp: sendCustomEvent_def valid_events_def Let_def)
next
  case (5 r w)
  then show ?thesis using assms by (cases r) (auto simp: sendCustomEvent_def valid_events_def Let_def)
qed (use assms in \<open>auto simp: Let_def\<close>)

definition inv_loop :: "loop \<Rightarrow> bool" where
  "inv_loop s \<longleftrightarrow> inv_stream s \<and> length (pipe s) \<le> buf_size \<and> ended s \<noteq> Some Blocked"

lemma inv_loop_step: "loop_step s t \<Longrightarrow> inv_loop s \<Longrightarrow> inv_loop t"
proof (induction rule: loop_step.induct)
  case (round s es)
  then show ?case using on_events_pipe [of s es] inv_stream_events [of s es] by (auto simp: inv_loop_def)
qed (auto simp: inv_loop_def inv_stream_def)

interpretation loop_run: run_invariant loop_step inv_loop loop_start
  by unfold_locales (fact inv_loop_step, simp add: inv_loop_def inv_stream_def loop_start_def)

lemma UNIV_fd: "UNIV = {EpollFD, ReadFD, WriteFD}"
  using fd.exhaust by auto

lemma setup_closes:
  "isl (fst (epoll_setup None e1 e2 None e3 e4)) \<longrightarrow> EpollFD \<in> set (snd (epoll_setup None e1 e2 None e3 e4)) \<and>
     (e1 = None \<and> e2 = None \<longrightarrow> set (snd (epoll_setup None e1 e2 None e3 e4)) = UNIV)"
  by (auto simp: epoll_setup_def createCustomPipe_def UNIV_fd split: option.splits)

text \<open>Two lines that are read as one.\<close>

lemma missed_quit:
  "\<exists>t. loop_step\<^sup>*\<^sup>* loop_start t \<and> quit_text \<in> set (typed t) \<and> pipe t = [] \<and> ended t = None"
proof -
  let ?es = "[StdinEvent (Data quit_text) None, PipeEvent]"
  let ?s = "on_events [StdinEvent (Data [97, 10]) None] loop_start"
  have len: "length quit_text = 5" by (simp add: quit_text_def)
  have trim: "TrimSpace ([97, 10] @ quit_text) \<noteq> quit_text" by code_simp
  have s: "?s = loop_start\<lparr>pipe := [97, 10], typed := [[97, 10]]\<rparr>" by (simp add: sendCustomEvent_def loop_start_def Let_def)
  have "loop_step loop_start ?s" by (rule round) (simp_all add: loop_start_def valid_events_def)
  moreover have "loop_step ?s (on_events ?es ?s)"
    unfolding s by (rule round) (auto simp: loop_start_def valid_events_def len quit_text_def)
  ultimately have "loop_step\<^sup>*\<^sup>* loop_start (on_events ?es ?s)" by (meson r_into_rtranclp rtranclp_trans)
  moreover have "pipe (on_events ?es ?s) = []" "ended (on_events ?es ?s) = None" "quit_text \<in> set (typed (on_events ?es ?s))"
    unfolding s using trim len by (simp_all add: loop_start_def sendCustomEvent_def Let_def)
  ultimately show ?thesis by blast
qed

section \<open>Properties\<close>

text \<open>
  C37: the bytes that were read from the pipe, followed by those still in it, are the bytes that were
  typed and written to it, in order; printed are exactly the reads, each once, in order and without the
  white space around them, but for those that are nothing else; the pipe never holds more than one buffer when the loop waits, so that the
  write into it never blocks; the program ends by itself exactly when a read gave \<^verbatim>\<open>!quit\<close> between white
  space. Whether a typed line is read on its own depends on the order of the two events: \<^verbatim>\<open>!quit\<close> typed on
  its own while an earlier line is still in the pipe can be read together with it and is then not
  obeyed. A read that would block panics, since the wrapped error is not \<open>EAGAIN\<close> itself. When the
  set-up fails, all descriptors opened so far are closed.
\<close>

theorem epoll_loop:
  assumes "loop_step\<^sup>*\<^sup>* loop_start s"
  shows "concat (received s) @ pipe s = concat (typed s) \<and>
    printed s = filter (\<lambda>b. b \<noteq> []) (map TrimSpace (received s)) \<and> length (pipe s) \<le> 1024 \<and> ended s \<noteq> Some Blocked \<and>
    (ended s = Some Quit \<longleftrightarrow> (\<exists>b \<in> set (received s). TrimSpace b = quit_text)) \<and>
    (\<exists>t. loop_step\<^sup>*\<^sup>* loop_start t \<and> quit_text \<in> set (typed t) \<and> pipe t = [] \<and> ended t = None) \<and>
    ended (on_event (StdinEvent (ReadError (PathError EAGAIN)) w) s) = Some Panicked \<and>
    (isl (fst (epoll_setup None e1 e2 None e3 e4)) \<longrightarrow> EpollFD \<in> set (snd (epoll_setup None e1 e2 None e3 e4)) \<and>
      (e1 = None \<and> e2 = None \<longrightarrow> set (snd (epoll_setup None e1 e2 None e3 e4)) = UNIV))"
proof -
  have inv: "inv_loop s" by (rule loop_run.reachable [OF assms])
  have "ended s = Some Quit \<longleftrightarrow> (\<exists>b \<in> set (received s). TrimSpace b = quit_text)"
  proof
    assume "ended s = Some Quit"
    then show "\<exists>b \<in> set (received s). TrimSpace b = quit_text"
      using inv by (auto simp: inv_loop_def inv_stream_def intro!: bexI [of _ "last (received s)"])
  qed (use inv in \<open>auto simp: inv_loop_def inv_stream_def split: if_splits\<close>)
  moreover have "concat (received s) @ pipe s = concat (typed s)"
      "printed s = filter (\<lambda>b. b \<noteq> []) (map TrimSpace (received s))" "length (pipe s) \<le> 1024" "ended s \<noteq> Some Blocked"
    using inv by (simp_all add: inv_loop_def inv_stream_def)
  moreover have "ended (on_event (StdinEvent (ReadError (PathError EAGAIN)) w) s) = Some Panicked" by simp
  ultimately show ?thesis using missed_quit setup_closes [of e1 e2 e3 e4] by - (intro conjI; assumption)
qed

definition greeted_loop :: loop where
  "greeted_loop = on_events [PipeEvent] (on_events [StdinEvent (Data [104, 105, 10]) None] loop_start)"

lemma greeted_loop_reachable: "loop_step\<^sup>*\<^sup>* loop_start greeted_loop"
proof -
  let ?s = "on_events [StdinEvent (Data [104, 105, 10]) None] loop_start"
  have s: "?s = loop_start\<lparr>pipe := [104, 105, 10], typed := [[104, 105, 10]]\<rparr>"
    by (simp add: sendCustomEvent_def loop_start_def Let_def)
  have "loop_step loop_start ?s" by (rule round) (simp_all add: loop_start_def valid_events_def)
  moreover have "loop_step ?s (on_events [PipeEvent] ?s)"
    unfolding s by (rule round) (simp_all add: loop_start_def valid_events_def)
  ultimately show ?thesis unfolding greeted_loop_def by (meson converse_rtranclp_into_rtranclp r_into_rtranclp)
qed

theorem epoll_loop_witness: "printed greeted_loop = [[104, 105]] \<and> typed greeted_loop = [[104, 105, 10]]"
proof -
  have "received greeted_loop = [[104, 105, 10]]" "typed greeted_loop = [[104, 105, 10]]"
    by (simp_all add: greeted_loop_def loop_start_def sendCustomEvent_def Let_def)
  moreover have "TrimSpace [104, 105, 10] = [104, 105]" by code_simp
  ultimately show ?thesis using epoll_loop [OF greeted_loop_reachable] by simp
qed

end
