(* ===== verification/Startup.thy ===== *)
theory Startup
  imports Prelude
begin

text \<open>
  What the programs call before they serve: the configuration (\<^verbatim>\<open>config/config.go\<close>), the PostgreSQL
  connection (\<^verbatim>\<open>pkg/postgres.go\<close>), the Redis repository
  (\<^verbatim>\<open>internal/repository/redis_repository.go\<close>), publishers and consumers (\<^verbatim>\<open>pkg/rabbit_mq.go\<close>,
  \<^verbatim>\<open>internal/consumer/rabbit_consumer_service.go\<close>) and the profiles (\<^verbatim>\<open>pkg/profile.go\<close>). The libraries are
  given by what they return; \<open>sync.Once\<close> is modelled as the Go library documents it: the first caller
  runs the function, the others wait until it has returned. The command line is taken to be well formed:
  \<open>flag.Parse\<close>, which ends the process on an unknown flag, gives the value of \<open>-config\<close> or none.
\<close>

section \<open>The configuration\<close>

datatype 'c get_pc = GCalled | GInside | GReturned 'c

text \<open>Callers of \<open>GetConfig\<close> are numbered; \<open>read_paths\<close> records which files were read.\<close>

record 'c config_state =
  once_done :: bool
  inst :: "'c option"
  callers :: "nat \<rightharpoonup> 'c get_pc"
  read_paths :: "string list"
  exited :: bool

definition config_start :: "'c config_state" where
  "config_start = \<lparr>once_done = False, inst = None, callers = Map.empty, read_paths = [], exited = False\<rparr>"

definition configPath :: "string option \<Rightarrow> string" where
  "configPath flag = (case flag of None \<Rightarrow> ''config.yaml'' | Some p \<Rightarrow> p)"

inductive config_step :: "string option \<Rightarrow> (string \<Rightarrow> 'c result) \<Rightarrow> 'c config_state \<Rightarrow> 'c config_state \<Rightarrow> bool"
  for flag ReadConfig where
  get_called: "\<not> exited s \<Longrightarrow> callers s i = None \<Longrightarrow>
    config_step flag ReadConfig s (s\<lparr>callers := (callers s)(i \<mapsto> GCalled)\<rparr>)"
| once_entered: "\<not> exited s \<Longrightarrow> callers s i = Some GCalled \<Longrightarrow> \<not> once_done s \<Longrightarrow> GInside \<notin> ran (callers s) \<Longrightarrow>
    config_step flag ReadConfig s (s\<lparr>callers := (callers s)(i \<mapsto> GInside)\<rparr>)"
| config_read: "\<not> exited s \<Longrightarrow> callers s i = Some GInside \<Longrightarrow> ReadConfig (configPath flag) = Inr c \<Longrightarrow>
    config_step flag ReadConfig s (s\<lparr>once_done := True, inst := Some c, callers := (callers s)(i \<mapsto> GReturned c),
      read_paths := read_paths s @ [configPath flag]\<rparr>)"
| config_fatal: "\<not> exited s \<Longrightarrow> callers s i = Some GInside \<Longrightarrow> ReadConfig (configPath flag) = Inl e \<Longrightarrow>
    config_step flag ReadConfig s (s\<lparr>exited := True, read_paths := read_paths s @ [configPath flag]\<rparr>)"
| get_returns: "\<not> exited s \<Longrightarrow> callers s i = Some GCalled \<Longrightarrow> once_done s \<Longrightarrow> inst s = Some c \<Longrightarrow>
    config_step flag ReadConfig s (s\<lparr>callers := (callers s)(i \<mapsto> GReturned c)\<rparr>)"

abbreviation config_steps :: "string option \<Rightarrow> (string \<Rightarrow> 'c result) \<Rightarrow> 'c config_state \<Rightarrow> 'c config_state \<Rightarrow> bool" where
  "config_steps flag ReadConfig \<equiv> (config_step flag ReadConfig)\<^sup>*\<^sup>*"

section \<open>The connection to PostgreSQL\<close>

definition dataSourceName :: "string \<Rightarrow> string \<Rightarrow> string \<Rightarrow> string \<Rightarrow> string \<Rightarrow> string \<Rightarrow> string" where
  "dataSourceName host port user password dbname sslMode =
     ''host='' @ host @ '' port='' @ port @ '' user='' @ user @ '' password='' @ password @
     '' dbname='' @ dbname @ '' sslmode='' @ sslMode"

text \<open>\<open>Inl\<close>: \<open>logger.Fatal\<close>.\<close>

definition NewPostgres :: "(string \<Rightarrow> string \<Rightarrow> 'db result) \<Rightarrow> string \<Rightarrow> string \<Rightarrow> string \<Rightarrow> string \<Rightarrow> string \<Rightarrow> string \<Rightarrow> 'db result" where
  "NewPostgres Connect host port user password dbname sslMode =
     Connect ''postgres'' (dataSourceName host port user password dbname sslMode)"

definition postgres_Shutdown :: "string option \<Rightarrow> unit result" where
  "postgres_Shutdown close_err = (case close_err of None \<Rightarrow> Inr () | Some e \<Rightarrow> Inl e)"

section \<open>Redis repository, publishers and consumers\<close>

text \<open>The clients around the connections that the library opens, by its options.\<close>

record 'r RedisClient =
  redis_conn :: 'r

record 'r RedisClusterClient =
  cluster_conn :: 'r

definition NewRedisClient :: "('o \<Rightarrow> 'r) \<Rightarrow> 'o \<Rightarrow> 'r RedisClient" where
  "NewRedisClient NewClient options = \<lparr>redis_conn = NewClient options\<rparr>"

definition NewClusterClient :: "('o \<Rightarrow> 'r) \<Rightarrow> 'o \<Rightarrow> 'r RedisClusterClient" where
  "NewClusterClient NewCluster options = \<lparr>cluster_conn = NewCluster options\<rparr>"

record 'r RedisRepository =
  repo_client :: "'r RedisClient"

definition NewRedisRepository :: "'r RedisClient \<Rightarrow> 'r RedisRepository" where
  "NewRedisRepository c = \<lparr>repo_client = c\<rparr>"

definition SetClient :: "'r RedisClient \<Rightarrow> 'r RedisRepository \<Rightarrow> 'r RedisRepository" where
  "SetClient c repo = repo\<lparr>repo_client := c\<rparr>"

text \<open>The status of the \<open>Set\<close> is dropped: the repository reports success whatever Redis answers.\<close>

definition SetAppName :: "('r \<Rightarrow> string \<Rightarrow> string \<Rightarrow> 'r \<times> string option) \<Rightarrow> string \<Rightarrow> string \<Rightarrow>
    'r RedisRepository \<Rightarrow> 'r RedisRepository \<times> string option" where
  "SetAppName redis_set k v repo =
     (repo\<lparr>repo_client := (repo_client repo)\<lparr>redis_conn := fst (redis_set (redis_conn (repo_client repo)) k v)\<rparr>\<rparr>, None)"

lemma SetAppName_client:
  "redis_conn (repo_client (fst (SetAppName redis_set k v (SetClient (NewRedisClient new o') repo)))) =
     fst (redis_set (new o') k v)"
  by (simp add: SetAppName_def SetClient_def NewRedisClient_def)

datatype ('ret, 'conf) publisher = Publisher (return_handler: 'ret) (publish_handler: 'conf)

definition RegisterPublisher :: "unit result \<Rightarrow> 'ret \<Rightarrow> 'conf \<Rightarrow> ('ret, 'conf) publisher result" where
  "RegisterPublisher NewPublisher returnHandler publishHandler = (case NewPublisher of
       Inl e \<Rightarrow> Inl (''failed to create publisher: '' @ e)
     | Inr _ \<Rightarrow> Inr (Publisher returnHandler publishHandler))"

definition RegisterConsumer :: "(string \<Rightarrow> 'consumer result) \<Rightarrow> string \<Rightarrow> 'consumer result" where
  "RegisterConsumer NewConsumer queue = (case NewConsumer queue of
       Inl e \<Rightarrow> Inl (''failed to create consumer1: '' @ e)
     | Inr c \<Rightarrow> Inr c)"

text \<open>\<open>Run\<close> of the consumer service starts a goroutine for every route; how its \<open>Consumer.Run\<close> ends
  decides what it logs, and no panic of it leaves the goroutine.\<close>

datatype run_end = RunReturned "string option" | RunPanicked string

fun route_log :: "run_end \<Rightarrow> string list" where
  "route_log (RunReturned None) = []"
| "route_log (RunReturned (Some err)) = [''consumer error: '' @ err]"
| "route_log (RunPanicked r) = [''Recovered in f '' @ r]"

definition consumers_Run :: "(string \<rightharpoonup> run_end) \<Rightarrow> (string \<rightharpoonup> string list)" where
  "consumers_Run router = (\<lambda>k. map_option route_log (router k))"

section \<open>The profiles\<close>

datatype profile_act = Created string | StartedCPU | StoppedCPU | Wrote string | ClosedFile string

text \<open>A file and its profile: whether creating it and writing into it fail.\<close>

fun save_rest :: "(string \<times> bool \<times> bool) list \<Rightarrow> string list \<Rightarrow> profile_act list \<Rightarrow> bool \<times> profile_act list" where
  "save_rest [] opened acts = (True, acts @ map ClosedFile (rev opened))"
| "save_rest ((f, create_fails, write_fails) # fs) opened acts =
     (if create_fails then (False, acts)
      else if write_fails then (False, acts @ [Created f])
      else save_rest fs (opened @ [f]) (acts @ [Created f, Wrote f]))"

text \<open>\<open>SaveProfiles\<close>: \<open>False\<close> when it ended in \<open>log.Fatalf\<close>, which runs no deferred close.\<close>

definition SaveProfiles :: "bool \<Rightarrow> bool \<Rightarrow> (string \<Rightarrow> bool) \<Rightarrow> (string \<Rightarrow> bool) \<Rightarrow> bool \<times> profile_act list" where
  "SaveProfiles cpu_create_fails cpu_start_fails create_fails write_fails =
     (if cpu_create_fails then (False, [])
      else if cpu_start_fails then (False, [Created ''cpu.prof''])
      else save_rest (map (\<lambda>f. (f, create_fails f, write_fails f)) [''heap.prof'', ''block.prof'', ''goroutines.prof''])
        [''cpu.prof''] [Created ''cpu.prof'', StartedCPU, StoppedCPU])"

section \<open>Lemmas\<close>

definition inv_config :: "string option \<Rightarrow> (string \<Rightarrow> 'c result) \<Rightarrow> 'c config_state \<Rightarrow> bool" where
  "inv_config flag ReadConfig s \<longleftrightarrow>
     read_paths s = (if once_done s \<or> exited s then [configPath flag] else []) \<and>
     (once_done s \<longrightarrow> \<not> exited s) \<and>
     (once_done s \<longleftrightarrow> inst s \<noteq> None) \<and>
     (\<forall>c. inst s = Some c \<longrightarrow> ReadConfig (configPath flag) = Inr c) \<and>
     (once_done s \<longrightarrow> GInside \<notin> ran (callers s)) \<and>
     (\<forall>i j. callers s i = Some GInside \<and> callers s j = Some GInside \<longrightarrow> i = j) \<and>
     (\<forall>i c. callers s i = Some (GReturned c) \<longrightarrow> inst s = Some c)"

lemma inv_config_step:
  "config_step flag ReadConfig s t \<Longrightarrow> inv_config flag ReadConfig s \<Longrightarrow> inv_config flag ReadConfig t"
proof (induction rule: config_step.induct)
  case (config_read s i c)
  then have "\<not> once_done s" "inst s = None" by (auto simp: inv_config_def ran_def)
  with config_read show ?case by (auto simp: inv_config_def ran_def split: if_splits)
next
  case (config_fatal s i e)
  then have "\<not> once_done s" by (auto simp: inv_config_def ran_def)
  with config_fatal show ?case by (auto simp: inv_config_def)
next
  case (once_entered s i)
  then show ?case by (auto simp: inv_config_def ran_def split: if_splits)
qed (auto simp: inv_config_def ran_def split: if_splits)

interpretation config_run: run_invariant "config_step flag ReadConfig" "inv_config flag ReadConfig" config_start
  for flag ReadConfig
  by unfold_locales (fact inv_config_step, simp add: inv_config_def config_start_def)

text \<open>All files are closed when the profiles were saved, and none when the process was ended.\<close>

lemma SaveProfiles_closes:
  "{f. ClosedFile f \<in> set (snd (SaveProfiles a b c w))} =
     (if fst (SaveProfiles a b c w) then {f. Created f \<in> set (snd (SaveProfiles a b c w))} else {})"
  by (auto simp: SaveProfiles_def)

text \<open>A caller is not kept waiting for ever.\<close>

abbreviation returned_or_exited :: "nat \<Rightarrow> 'c config_state \<Rightarrow> bool" where
  "returned_or_exited i s \<equiv> exited s \<or> (\<exists>c. callers s i = Some (GReturned c))"

lemmas config_can_step = can_reach_step [of "config_step flag R" for flag R]

lemma returns_when_done:
  assumes "once_done s" "inst s = Some c" "\<not> exited s" "callers s i = Some GCalled"
  shows "can_reach (config_step flag R) (returned_or_exited i) s"
  by (rule config_can_step [OF get_returns [OF assms(3,4,1,2)]]) (simp add: can_reach_now)

lemma returns_when_inside:
  assumes "\<not> exited s" "callers s j = Some GInside" "j = i \<or> callers s i = Some GCalled"
  shows "can_reach (config_step flag R) (returned_or_exited i) s"
proof (cases "R (configPath flag)")
  case (Inl e)
  have "config_step flag R s (s\<lparr>exited := True, read_paths := read_paths s @ [configPath flag]\<rparr>)"
    using assms(1,2) Inl by (rule config_fatal)
  then show ?thesis by (rule config_can_step) (simp add: can_reach_now)
next
  case (Inr c)
  let ?t = "s\<lparr>once_done := True, inst := Some c, callers := (callers s)(j \<mapsto> GReturned c),
    read_paths := read_paths s @ [configPath flag]\<rparr>"
  have "config_step flag R s ?t" using assms(1,2) Inr by (rule config_read)
  then show ?thesis
  proof (rule config_can_step)
    show "can_reach (config_step flag R) (returned_or_exited i) ?t"
    proof (cases "j = i")
      case False
      then show ?thesis using assms by (intro returns_when_done [of ?t c]) simp_all
    qed (simp add: can_reach_now)
  qed
qed

lemma returns_when_called:
  assumes "inv_config flag R s" "\<not> exited s" "callers s i = Some GCalled"
  shows "can_reach (config_step flag R) (returned_or_exited i) s"
proof -
  consider c where "once_done s" "inst s = Some c" | j where "callers s j = Some GInside"
    | "\<not> once_done s" "GInside \<notin> ran (callers s)"
    using assms(1) by (auto simp: inv_config_def ran_def)
  then show ?thesis
  proof cases
    case 1
    then show ?thesis using assms by (intro returns_when_done) simp_all
  next
    case 2
    then show ?thesis using assms by (intro returns_when_inside) simp_all
  next
    case 3
    show ?thesis
      by (rule config_can_step [OF once_entered [OF assms(2,3) 3]]) (rule returns_when_inside, use assms in simp_all)
  qed
qed

lemma split_space: "x @ CHR '' '' # r = x' @ CHR '' '' # r' \<Longrightarrow> CHR '' '' \<notin> set x \<Longrightarrow> CHR '' '' \<notin> set x' \<Longrightarrow> x = x' \<and> r = r'"
  by (rule split_first)

lemma dataSourceName_inj:
  assumes "dataSourceName h p u w d m = dataSourceName h' p' u' w' d' m'"
    and "CHR '' '' \<notin> set (h @ p @ u @ w @ d @ m @ h' @ p' @ u' @ w' @ d' @ m')"
  shows "h = h' \<and> p = p' \<and> u = u' \<and> w = w' \<and> d = d' \<and> m = m'"
  using assms by (auto simp: dataSourceName_def dest!: split_space)

section \<open>Properties\<close>

text \<open>
  C39: however many goroutines ask for the configuration at once, the file is read once, from the path
  of the flag or the default; everyone who got a configuration got what that file holds, and nobody is
  kept waiting for ever: as long as the process lives a caller can return, or the process ends because
  the file cannot be read. The connection string made from the configuration determines its parts
  as long as none of them contains a space; with a space it does not, since nothing is quoted.
\<close>

theorem GetConfig_reads_once:
  assumes "config_steps flag ReadConfig config_start s"
  shows "set (read_paths s) \<subseteq> {configPath flag} \<and> length (read_paths s) \<le> 1 \<and>
    (callers s i = Some (GReturned c) \<longrightarrow> ReadConfig (configPath flag) = Inr c \<and> \<not> exited s) \<and>
    (callers s i = Some GCalled \<and> \<not> exited s \<longrightarrow>
      (\<exists>t. config_steps flag ReadConfig s t \<and> (exited t \<or> (\<exists>c. callers t i = Some (GReturned c))))) \<and>
    (dataSourceName h p u w d m = dataSourceName h' p' u' w' d' m' \<and>
      CHR '' '' \<notin> set (h @ p @ u @ w @ d @ m @ h' @ p' @ u' @ w' @ d' @ m') \<longrightarrow>
      h = h' \<and> p = p' \<and> u = u' \<and> w = w' \<and> d = d' \<and> m = m') \<and>
    dataSourceName ''db'' ''1'' ''u'' ''x dbname=other'' ''d'' ''disable'' =
      dataSourceName ''db'' ''1'' ''u'' ''x'' ''other dbname=d'' ''disable''"
proof -
  have inv: "inv_config flag ReadConfig s" by (rule config_run.reachable [OF assms])
  then have "set (read_paths s) \<subseteq> {configPath flag}" "length (read_paths s) \<le> 1"
    "callers s i = Some (GReturned c) \<longrightarrow> ReadConfig (configPath flag) = Inr c \<and> \<not> exited s"
    by (auto simp: inv_config_def)
  moreover have "callers s i = Some GCalled \<and> \<not> exited s \<longrightarrow>
      (\<exists>t. config_steps flag ReadConfig s t \<and> returned_or_exited i t)"
    using returns_when_called [OF inv, of i] by (auto simp: can_reach_def)
  moreover have "dataSourceName h p u w d m = dataSourceName h' p' u' w' d' m' \<and>
      CHR '' '' \<notin> set (h @ p @ u @ w @ d @ m @ h' @ p' @ u' @ w' @ d' @ m') \<longrightarrow>
      h = h' \<and> p = p' \<and> u = u' \<and> w = w' \<and> d = d' \<and> m = m'"
    using dataSourceName_inj by blast
  moreover have "dataSourceName ''db'' ''1'' ''u'' ''x dbname=other'' ''d'' ''disable'' =
      dataSourceName ''db'' ''1'' ''u'' ''x'' ''other dbname=d'' ''disable''"
    by (simp add: dataSourceName_def)
  ultimately show ?thesis by - (intro conjI; assumption)
qed

theorem GetConfig_reads_once_witness:
  "\<exists>t. config_steps None (\<lambda>p. Inr (length p)) (config_start\<lparr>callers := [0 \<mapsto> GCalled]\<rparr>) t \<and>
     (exited t \<or> (\<exists>c. callers t 0 = Some (GReturned c)))"
proof -
  have "config_step None (\<lambda>p. Inr (length p)) config_start (config_start\<lparr>callers := [0 \<mapsto> GCalled]\<rparr>)"
    using get_called [of config_start 0 None "\<lambda>p. Inr (length p)"] by (simp add: config_start_def)
  then have "config_steps None (\<lambda>p. Inr (length p)) config_start (config_start\<lparr>callers := [0 \<mapsto> GCalled]\<rparr>)"
    by (rule r_into_rtranclp)
  from GetConfig_reads_once [OF this, of 0, THEN conjunct2, THEN conjunct2, THEN conjunct2, THEN conjunct1]
  show ?thesis by (simp add: config_start_def)
qed

end
