(* ===== verification/Logger.thy ===== *)
theory Logger
  imports Prelude
begin

text \<open>
  The logger that every program builds first (\<^verbatim>\<open>pkg/logger.go\<close>): one core that writes coloured
  text to the standard output and one that writes JSON to a rotated file, under one level, with the
  name of the application as a field. \<open>zap\<close> and \<open>lumberjack\<close> are used as they are documented: a tee
  gives an entry to each of its cores, a core writes the entries of its level and above, and \<open>With\<close>
  adds fields to everything a logger writes.
\<close>

section \<open>Levels\<close>

datatype level = DebugLevel | InfoLevel | WarnLevel | ErrorLevel | FatalLevel

primrec level_rank :: "level \<Rightarrow> nat" where
  "level_rank DebugLevel = 0"
| "level_rank InfoLevel = 1"
| "level_rank WarnLevel = 2"
| "level_rank ErrorLevel = 3"
| "level_rank FatalLevel = 4"

lemma level_rank_inj: "level_rank a = level_rank b \<longleftrightarrow> a = b"
  by (cases a; cases b) simp_all

instantiation level :: linorder
begin

definition less_eq_level :: "level \<Rightarrow> level \<Rightarrow> bool" where
  "a \<le> b \<longleftrightarrow> level_rank a \<le> level_rank b"

definition less_level :: "level \<Rightarrow> level \<Rightarrow> bool" where
  "a < b \<longleftrightarrow> level_rank a < level_rank b"

instance
  by standard (auto simp: less_eq_level_def less_level_def level_rank_inj)

end

section \<open>Loggers\<close>

record LoggerConfig =
  ServiceName :: string
  LogPath :: string

text \<open>The rotation: megabytes, kept files, days.\<close>

record Lumberjack =
  Filename :: string
  MaxSize :: nat
  MaxBackups :: nat
  MaxAge :: nat
  Compress :: bool

datatype encoder = ConsoleEncoder (colours: bool) | JSONEncoder

datatype sink = Stdout | Rotated Lumberjack

record core =
  core_encoder :: encoder
  core_sink :: sink
  core_level :: level

record Logger =
  cores :: "core list"
  log_fields :: "(string \<times> string) list"

definition With :: "(string \<times> string) list \<Rightarrow> Logger \<Rightarrow> Logger" where
  "With fs l = l\<lparr>log_fields := log_fields l @ fs\<rparr>"

definition NewLogger :: "LoggerConfig \<Rightarrow> Logger" where
  "NewLogger cfg =
     (let file = Rotated \<lparr>Filename = LogPath cfg, MaxSize = 5, MaxBackups = 10, MaxAge = 14, Compress = True\<rparr>;
        logLevel = DebugLevel;
        tee = [\<lparr>core_encoder = ConsoleEncoder True, core_sink = Stdout, core_level = logLevel\<rparr>,
               \<lparr>core_encoder = JSONEncoder, core_sink = file, core_level = logLevel\<rparr>]
      in With [(''application'', ServiceName cfg)] \<lparr>cores = tee, log_fields = []\<rparr>)"

text \<open>What one call writes: per core the sink, how it is encoded, the message and the fields.\<close>

definition log_to :: "Logger \<Rightarrow> level \<Rightarrow> string \<Rightarrow> (string \<times> string) list \<Rightarrow>
    (sink \<times> encoder \<times> string \<times> (string \<times> string) list) list" where
  "log_to l lvl msg extra =
     map (\<lambda>c. (core_sink c, core_encoder c, msg, log_fields l @ extra)) (filter (\<lambda>c. core_level c \<le> lvl) (cores l))"

section \<open>Lemmas\<close>

text \<open>
  Whatever its level, a line goes to both sinks, once each, and both get the same fields, the name of
  the application first; deriving a logger as the middlewares do keeps that.
\<close>

lemma log_reaches_both:
  "map (\<lambda>(s, e, m, fs). (s = Stdout, m, fs)) (log_to (With ctx (NewLogger cfg)) lvl msg extra) =
     [(True, msg, (''application'', ServiceName cfg) # ctx @ extra),
      (False, msg, (''application'', ServiceName cfg) # ctx @ extra)]"
  by (cases lvl) (simp_all add: log_to_def NewLogger_def With_def Let_def less_eq_level_def)

end
