(* ===== verification/Demo_Programs.thy ===== *)
theory Demo_Programs
  imports Prelude
begin

text \<open>
  The two demonstration programs: \<^verbatim>\<open>cmd/execution/main.go\<close>, which encodes a value with MessagePack twice,
  once through a stream and once through the functions \<open>SerializeData\<close> and \<open>DeserializeData\<close>, and
  \<^verbatim>\<open>cmd/generic/main.go\<close>, a generic function over three constrained types. MessagePack is the parameter
  \<open>msgpack\<close>.
\<close>

section \<open>Encoding\<close>

record 't ComplexData =
  Matrix :: "int list list"
  Mapping :: "string \<rightharpoonup> (string \<rightharpoonup> int)"
  Timestamp :: 't
  Email :: string

type_synonym packed = "nat list"

record 't msgpack =
  mp_Marshal :: "'t ComplexData \<Rightarrow> packed result"
  mp_Unmarshal :: "packed \<Rightarrow> 't ComplexData result"
  mp_Encode :: "'t ComplexData \<Rightarrow> packed \<Rightarrow> packed result"
  mp_Decode :: "packed \<Rightarrow> ('t ComplexData \<times> packed) result"

definition SerializeData :: "'t msgpack \<Rightarrow> 't ComplexData \<Rightarrow> packed result" where
  "SerializeData mp data = mp_Marshal mp data"

definition DeserializeData :: "'t msgpack \<Rightarrow> packed \<Rightarrow> 't ComplexData result" where
  "DeserializeData mp data = mp_Unmarshal mp data"

definition execution_data :: "'t \<Rightarrow> 't ComplexData" where
  "execution_data now = \<lparr>Matrix = [[1, 2, 3], [4, 5, 6], [7, 8, 9]],
     Mapping = [''group1'' \<mapsto> [''a'' \<mapsto> 10, ''b'' \<mapsto> 20], ''group2'' \<mapsto> [''x'' \<mapsto> 100, ''y'' \<mapsto> 200]],
     Timestamp = now, Email = []\<rparr>"

text \<open>What the program prints; \<open>log.Fatal\<close> is the last thing it does.\<close>

datatype 't exec_out =
    PrintBytes packed
  | PrintData "'t ComplexData"
  | PrintFields "int list list" "string \<rightharpoonup> (string \<rightharpoonup> int)" 't
  | Fatal string

definition execution_main :: "'t msgpack \<Rightarrow> 't \<Rightarrow> 't exec_out list" where
  "execution_main mp now =
     (let data = execution_data now in
      case mp_Encode mp data [] of
        Inl e \<Rightarrow> [Fatal e]
      | Inr buf \<Rightarrow> PrintBytes buf # (case mp_Decode mp buf of
          Inl e \<Rightarrow> [Fatal e]
        | Inr (newData, _) \<Rightarrow> PrintData newData # (case SerializeData mp data of
            Inl e \<Rightarrow> [Fatal e]
          | Inr encoded \<Rightarrow> PrintBytes encoded # (case DeserializeData mp encoded of
              Inl e \<Rightarrow> [Fatal e]
            | Inr decoded \<Rightarrow> [PrintFields (Matrix decoded) (Mapping decoded) (Timestamp decoded)]))))"

section \<open>A generic function\<close>

text \<open>The type set of \<open>Number\<close> (a float by how it prints), and the two interfaces.\<close>

datatype Number = ANumber int | AFloat string | AString string

fun show_Number :: "Number \<Rightarrow> string" where
  "show_Number (ANumber i) = itoa i"
| "show_Number (AFloat t) = t"
| "show_Number (AString s) = s"

type_synonym MyString = string

definition MyString_String :: "MyString \<Rightarrow> string" where
  "MyString_String s = s"

record Person =
  person_Name :: string

definition Person_Key :: "Person \<Rightarrow> string" where
  "Person_Key p = person_Name p"

definition Summarize :: "('b \<Rightarrow> string) \<Rightarrow> ('c \<Rightarrow> string) \<Rightarrow> Number \<Rightarrow> 'b \<Rightarrow> 'c \<Rightarrow> string list" where
  "Summarize String Key a b c =
     [''Number (A):   '' @ show_Number a, ''String (B):   '' @ String b, ''Key (C):      '' @ Key c, []]"

definition generic_main :: "string list" where
  "generic_main =
     Summarize MyString_String Person_Key (ANumber 42) ''hello'' \<lparr>person_Name = ''Alice''\<rparr> @
     Summarize MyString_String Person_Key (AFloat ''3.14'') ''example'' \<lparr>person_Name = ''Bob''\<rparr> @
     Summarize MyString_String Person_Key (AString ''name'') ''example'' \<lparr>person_Name = ''Bob''\<rparr>"

section \<open>Lemmas\<close>

text \<open>The program ends at the first call that fails, and never prints after it.\<close>

lemma execution_fatal_last: "Fatal e \<notin> set (butlast (execution_main mp now))"
  by (auto simp: execution_main_def Let_def split: sum.splits)

lemma generic_output: "length generic_main = 12" "generic_main ! 0 = ''Number (A):   42''"
  by (simp add: generic_main_def Summarize_def) code_simp

end
