(* ===== verification/Spec2Isabelle.thy ===== *)
theory Spec2Isabelle
  imports Linked_List Queue_Stack App_Shutdown App_Lifecycle Service_Container Worker_Pool Pool_Progress Pool_Store
    Pool_Client Load_Balancer Etcd Election Service_Discovery Di_Container Main_Programs Process_Runs
    Sse Http_Server Server_Run Http_Handlers Page_Servers Migrations Rabbit_Consumers Cron_Lock Cron_Program Sql_Migrations Memory_Tools Websocket Ws_Client
    Ws_Conversation
    Grpc Http_Client Elastic Epoll Startup Logger Demo_Programs
begin

text \<open>
  \<^bold>\<open>The service template, verified.\<close> The repository is a template for Go services: an application
  object that runs a process and shuts it down, dependency containers, an etcd based balancer
  with service registration and leader election, a command pool, HTTP, WebSocket and
  server-sent-event servers, gRPC services, clients for all of these, RabbitMQ and SQL
  migrations, RabbitMQ consumers, scheduled jobs, and small data structures.
  This development models its own logic and proves how it behaves; third-party libraries and
  services (etcd, Redis, RabbitMQ, dig, gorilla, zap, the Go runtime) are parameters.

  \<^bold>\<open>Conventions\<close> (theory \<open>Prelude\<close>). A pointer is an address or \<open>None\<close> for \<open>nil\<close>; objects that are
  shared or linked live in a \<open>heap\<close> of records. A pair of value and error is a sum, \<open>Inl\<close> the
  error text. A call that can dereference \<open>nil\<close> or can loop for ever returns an option, and the
  properties state that it returns. Goroutines are program counters in a state record, and
  their interleavings are the runs of an \<open>inductive\<close> step relation. The locales of the prelude
  are the shared arguments: \<open>pointer_chain\<close> (singly linked chains through a field),
  \<open>persistent\<close> and \<open>run_invariant\<close> (what every step keeps, every run keeps), and \<open>can_reach\<close> for
  statements that something stays possible. Integers are \<open>int\<close> where the code cannot
  overflow (lengths, priorities) and words where the width matters (\<open>Memory_Tools\<close>).

  \<^bold>\<open>Parts of the program and their theories.\<close>

  \<^item> \<open>Linked_List\<close>: \<^verbatim>\<open>pkg/data_struct/linked_list.go\<close>. All methods of \<open>LinkedList\<close> on a heap of nodes;
    the loops are partial functions. Every sequence of calls returns what the same calls on a
    mathematical sequence return; in particular all loops end and \<open>nil\<close> is never followed.
  \<^item> \<open>Queue_Stack\<close>: \<^verbatim>\<open>pkg/data_struct/queue.go\<close> and \<^verbatim>\<open>stack.go\<close>. The locales \<open>drainable\<close>, \<open>fifo\<close> and
    \<open>lifo\<close> are the contract; queue, stack and both ends of the linked list are interpretations.
  \<^item> \<open>App_Shutdown\<close>: the list of shutdown functions of \<^verbatim>\<open>application/application.go\<close>
    (\<open>RegisterShutdown\<close>, \<open>ShutdownByName\<close>, \<open>shutdownAllAndDeleteAllCanceled\<close>, \<open>Stop\<close>) as the linked
    list it is. A shutdown function maps an arbitrary world to a world or panics. \<open>Stop\<close> is a
    stable sort by priority of what was registered.
  \<^item> \<open>App_Lifecycle\<close>: \<open>Start\<close>, \<open>Run\<close>, \<open>RegisterRecovers\<close> of the same file, as steps of the main
    goroutine and the signal goroutine that share a channel of capacity one.
  \<^item> \<open>Service_Container\<close>: \<^verbatim>\<open>internal/container.go\<close>, the service locator; \<open>log.Fatalf\<close> is an error
    value that ends everything.
  \<^item> \<open>Mem_Store\<close> and \<open>Worker_Pool\<close>: \<^verbatim>\<open>pkg/map_store.go\<close> and \<^verbatim>\<open>pkg/worker_pool.go\<close>. One caller and the
    workers of a pool over channels, contexts, the counter \<open>inWork\<close> and a wait group; the locale
    \<open>kv_store\<close> is the interface of the store, the locale \<open>trap\<close> (a sublocale of \<open>persistent\<close>)
    gathers the situations from which stopping never returns. \<open>Pool_Progress\<close> shows that \<open>Stop\<close> can
    return from every other reachable state, by measures that bring the pool to rest, and
    \<open>Pool_Store\<close> that the pool over the store is a sequential run of the accepted commands.
    \<open>Pool_Client\<close> is the program \<^verbatim>\<open>cmd/custom_worker_pool/main.go\<close> on top: its calls, its error paths, the
    wait in \<open>App.Run\<close> and the shutdown, beside the workers and the cancellation.
  \<^item> \<open>Load_Balancer\<close> and \<open>Election\<close>: \<^verbatim>\<open>pkg/etdc_load_balancer.go\<close>. Backends are heap objects shared by
    requests, the watcher that replaces the list and the health checks; \<open>bal_step\<close>
    interleaves them. The election goroutine is a step relation of its own, with the results of its calls to
    etcd, its session and the panic that is recovered. \<open>Service_Discovery\<close>
    composes balancer, registration and service: the entries that \<open>Etcd\<close> registers, the \<^verbatim>\<open>/health\<close>
    route of \<open>Http_Handlers\<close> and the health checks.
  \<^item> \<open>Etcd\<close>: \<^verbatim>\<open>pkg/etcd.go\<close>. Registration and its retry loop over a stream of attempt outcomes. The
    loop of \<open>restart\<close> has the bound of five attempts of the code; \<open>Register\<close> is a partial
    function of an infinite sequence of outcomes, and what is shown is when it ends and when
    it never does.
  \<^item> \<open>Di_Container\<close> and \<open>Main_Programs\<close>: \<^verbatim>\<open>container/dig.go\<close> and the \<open>main\<close> functions under \<^verbatim>\<open>cmd/\<close>. The
    containers are the lists of their \<open>Provide\<close> calls; dig is a parameter with its documented
    laws. A \<open>main\<close> is the list of its calls, each with the ways in which it may fail, and of its
    registrations, run through the model of
    \<open>App_Shutdown\<close>, so that the order in which resources close is computed, not claimed.
    \<open>Process_Runs\<close> joins body, registry and life cycle to processes: signals at any moment,
    panics and the recover closure, early returns, fatal log lines, goroutines that take the process
    down, also in the middle of \<open>Stop\<close>, which runs one shutdown function after the other, and shutdown functions
    that cut it short: a database that cannot be closed is fatal, a nil RabbitMQ connection panics. It
    refines \<open>App_Lifecycle\<close>.
  \<^item> \<open>Http_Server\<close>: \<^verbatim>\<open>server/http_server.go\<close>. Response writers nest as in the code, middlewares are
    functions on handlers, a handler may panic, routes are data and \<open>gorilla/mux\<close> is a parameter
    with its documented laws.
    \<open>Server_Run\<close> adds the HTTPS variants, the serving goroutine, the shutdown and the
    optional interfaces of a wrapped writer. \<open>Http_Handlers\<close> has the routes and handlers of
    \<^verbatim>\<open>internal/http_handler/\<close>, with their effects (counter, mutex, statements, request body) as a trace.
    \<open>Page_Servers\<close> has the routes of the event-stream and WebSocket servers and follows the stream
    through them to its client.
  \<^item> \<open>Websocket\<close>: \<^verbatim>\<open>server/websocket_server.go\<close> and \<^verbatim>\<open>internal/websocket_handler/\<close>. Hub, router, and one
    connection with its read loop and write pump around a channel of capacity 256.
    \<open>Ws_Client\<close>: \<^verbatim>\<open>server/websocket_clent.go\<close> and \<^verbatim>\<open>internal/websocket_client/\<close>, the reconnecting client
    with all its sessions side by side. \<open>Ws_Conversation\<close> puts a connection of the server and a session of the
    client at the two ends of a network that keeps the order of messages.
  \<^item> \<open>Sse\<close>: \<open>sendSSE\<close> of \<^verbatim>\<open>cmd/sse_server/main.go\<close> and \<open>StartListen\<close> of \<^verbatim>\<open>server/http_client.go\<close>, over Unicode
    code points, and \<open>listen\<close> of \<^verbatim>\<open>cmd/sse_client/main.go\<close>.
  \<^item> \<open>Migrations\<close>: \<^verbatim>\<open>pkg/migrations_custom.go\<close>, \<^verbatim>\<open>pkg/migrations_rabbit_mq.go\<close> and the migration under
    \<^verbatim>\<open>rabbit_migrations/\<close>, over a broker and a table of applied versions.
    \<open>Rabbit_Consumers\<close>: \<^verbatim>\<open>internal/consumer/\<close> and \<^verbatim>\<open>cmd/background_rabbit/main.go\<close>, publishers and consumers over
    the broker that the migration has set up, with confirmations that may be negative or missing.
  \<^item> \<open>Redis_Lock\<close>: work under a Redis lock, in general; the locale \<open>lock_discipline\<close> says for which sequences of
    events after asking for the lock at most one run works at a time. \<open>Cron_Lock\<close> (\<^verbatim>\<open>internal/cron/cron_service.go\<close>)
    and \<open>Sql_Migrations\<close> (\<^verbatim>\<open>pkg/migrations_sql.go\<close>) are its two users, which decide differently.
    \<open>Cron_Program\<close> (\<^verbatim>\<open>pkg/cron.go\<close>, \<^verbatim>\<open>cmd/cron/main.go\<close>) adds the schedule and time, in milliseconds, and
    requests to Redis that fail.
  \<^item> \<open>Grpc\<close>: \<^verbatim>\<open>server/grpc_server.go\<close>, \<^verbatim>\<open>server/grpc_client.go\<close>, \<^verbatim>\<open>internal/grpc_handler/\<close> and the calls of
    \<^verbatim>\<open>cmd/grpc_client/main.go\<close>, with Go's conversion of a number to a string; \<open>Utf8\<close> has the encoding.
  \<^item> \<open>Http_Client\<close>: the single-host transport of \<^verbatim>\<open>server/http_client.go\<close> and \<^verbatim>\<open>cmd/http_client/main.go\<close>, with
    the redirects that \<open>http.Client\<close> follows, ten requests at most, as the Go library documents it.
  \<^item> \<open>Elastic\<close>: \<^verbatim>\<open>pkg/elastic.go\<close> and \<^verbatim>\<open>cmd/elastic/main.go\<close>, with a trace of requests and closed bodies.
  \<^item> \<open>Epoll\<close>: \<^verbatim>\<open>cmd/epoll/main.go\<close>, the loop over a pipe and the standard input.
  \<^item> \<open>Startup\<close>: \<^verbatim>\<open>config/config.go\<close> under concurrent callers, \<^verbatim>\<open>pkg/postgres.go\<close>, \<^verbatim>\<open>pkg/profile.go\<close>, the
    registration functions of \<^verbatim>\<open>pkg/rabbit_mq.go\<close>, \<^verbatim>\<open>pkg/redis.go\<close> and the Redis repository.
  \<^item> \<open>Logger\<close>: \<^verbatim>\<open>pkg/logger.go\<close>; \<open>Demo_Programs\<close>: \<^verbatim>\<open>cmd/execution/main.go\<close> and \<^verbatim>\<open>cmd/generic/main.go\<close>.
  \<^item> \<open>Memory_Tools\<close>: \<^verbatim>\<open>pkg/custom_gc.go\<close> and \<^verbatim>\<open>cmd/t/main.go\<close>, at 64 bits.

  \<^bold>\<open>What is shown.\<close> Functional correctness of the data structures, of the shutdown list and of
  the balancer's choice of a backend; safety under all interleavings of the command pool (no
  accepted command is lost or run twice by \<open>Stop\<close>), of the balancer (no request panics), of the
  WebSocket connection and its client (answers in order, no send on a closed channel), of the
  RabbitMQ programs (no message lost, each answered once but for answers the broker did not confirm) and of
  the locks; equivalence of
  the pool with a sequential run; which situations keep \<open>Stop\<close>, the process, the registration or a
  connection from ending; round trip of server-sent events, of their text alone and through
  router, middlewares and encoding; status and log line of every HTTP outcome, for every method and
  path of the service, and what its handlers do to the counter, the mutex and the database; error
  paths of migrations, registration and containers. Of components together: the balancer sends
  its requests to the registered instances that are up and to no other, the pool's program gets
  through its calls and can end unless it is cancelled with work queued, the scheduled jobs of
  all processes start ten seconds apart as long as Redis answers, between the WebSocket server and its client there is one
  message under way at any time, so that neither blocks, and a process that ends by itself
  has closed exactly what it had registered, and one that is killed or crashes a part of it, in the
  order of the priorities, nothing if that happens before \<open>Stop\<close> (of all programs but the gRPC client, whose
  closures share a variable).
  Where the code does not do what it means to, the property states what it does and its text says so.

  \<^bold>\<open>Bounds and fuel.\<close> No fuel is used: loops over linked chains and the retry loop are partial
  functions whose termination is part of the properties, the other loops are structural or end by
  a measure.
  Channel capacities (1, 256, the pool size) and the five attempts are those of the code.
  Durations are modelled in \<open>Cron_Program\<close>, where a time to live meets a sleep; elsewhere a timer is
  a step that may happen.

  \<^bold>\<open>Not modelled.\<close> Code generated by protoc and swag, tests and their containers, and structs without
  fields with their constructors (\<^verbatim>\<open>internal/repository/\<close> but for Redis, \<^verbatim>\<open>internal/service/\<close>), which
  have no behaviour; \<^verbatim>\<open>cmd/custom\<close> is an empty program. Of the modelled parts: time outside of
  \<open>Cron_Program\<close>, the wording of most log lines, the headers of the HTTP client's requests, and the collector and the profiler of the Go runtime,
  which are parameters or left out. The programs' goroutines beside \<open>main\<close>
  are modelled in detail for the pool, the RabbitMQ, cron, epoll and WebSocket client programs; in
  \<open>Process_Runs\<close> a call is its name with its failures, and what it starts is modelled in the
  theories of the servers. A shutdown function returns there or ends the process: the wait of the etcd client for its
  registration goroutine is in \<open>Etcd\<close>, that of the pool in \<open>Worker_Pool\<close>. Steps are atomic as the theories say: so the
  scan of the balancer for a backend.
\<close>

end
